(* ===== verification/SPDK_Prelude.thy ===== *)
theory SPDK_Prelude
  imports Main "HOL-Library.Word"
begin

text \<open>
  Shared vocabulary of the development: the C integer types, the error values, the
  generic lemmas on words, bytes and lists the components use, and the interface
  \<open>transition_invariant\<close> through which every stateful component obtains the
  invariants of its reachable states.
\<close>

unbundle bit_operations_syntax

section \<open>C types and results\<close>

type_synonym u8 = "8 word"
type_synonym u16 = "16 word"
type_synonym u32 = "32 word"
type_synonym u64 = "64 word"

abbreviation UINT32_MAX :: u32 where
  "UINT32_MAX \<equiv> - 1"

datatype errno =
    EPERM | ENOENT | EBADF | ENOMEM | EBUSY | EEXIST | ENODEV | EINVAL | ENOSPC | ENOTSUP

text \<open>
  A C function can return a negated errno, stop at a failed \<^verbatim>\<open>assert\<close> or \<^verbatim>\<open>abort\<close>,
  or have undefined behaviour (a read outside an object, a NULL dereference). The last two are
  values of their own, so that their absence can be proved.
\<close>

datatype c_error = Errno errno | AssertFail | Undefined

type_synonym 'a res = "c_error + 'a"

definition c_assert :: "bool \<Rightarrow> 'a res \<Rightarrow> 'a res" where
  "c_assert b r = (if b then r else Inl AssertFail)"

lemma c_assert_True [simp]: "c_assert True r = r"
  and c_assert_eq_Inr [simp]: "c_assert b r = Inr x \<longleftrightarrow> b \<and> r = Inr x"
  by (simp_all add: c_assert_def)

definition res_bind :: "'a res \<Rightarrow> ('a \<Rightarrow> 'b res) \<Rightarrow> 'b res" where
  "res_bind r f = (case r of Inl e \<Rightarrow> Inl e | Inr x \<Rightarrow> f x)"

lemma res_bind_simps [simp]: "res_bind (Inl e) f = Inl e" "res_bind (Inr x) f = f x"
  by (simp_all add: res_bind_def)

lemma res_bind_InrE:
  assumes "res_bind r f = Inr y" obtains x where "r = Inr x" "f x = Inr y"
  using assms by (cases r) auto

lemma map_sum_InrD: "map_sum id f r = Inr y \<Longrightarrow> \<exists>x. r = Inr x \<and> y = f x"
  by (cases r) auto

named_theorems word_nat "word comparisons and arithmetic as natural numbers"
named_theorems step_inv "preservation of a component's invariant by its operations"

section \<open>Words\<close>

lemma unat_uint32_max [simp]: "unat UINT32_MAX = 4294967295"
  by (simp add: unsigned_minus_1_eq_mask mask_eq_exp_minus_1)

lemma unat_u32_bound [simp]: "unat (x :: u32) < 4294967296"
  using unsigned_less [of x] by simp

lemma unat_u64_bound [simp]: "unat (x :: u64) < 18446744073709551616"
  using unsigned_less [of x] by simp

lemmas [word_nat] = word_less_nat_alt word_le_nat_alt

lemma unat_diff_u32 [word_nat]: "y \<le> x \<Longrightarrow> unat (x - y) = unat x - unat (y :: u32)"
  by (simp add: unat_sub)

lemma unat_add_u32:
  "unat x + unat y < 4294967296 \<Longrightarrow> unat (x + y) = unat x + unat (y :: u32)"
  using unat_add_lem [of x y] by simp

lemma unat_add_u64:
  "unat x + unat y < 18446744073709551616 \<Longrightarrow> unat (x + y) = unat x + unat (y :: u64)"
  using unat_add_lem [of x y] by simp

lemma unat_of_nat_u32: "n < 4294967296 \<Longrightarrow> unat (of_nat n :: u32) = n"
  by (simp add: unat_of_nat)

lemma unat_ucast_u32_u64 [simp]: "unat (ucast (x :: u32) :: u64) = unat x"
  by (simp add: unsigned_ucast_eq take_bit_nat_eq_self unsigned_less less_trans [OF unat_u32_bound])

lemma unat_eq_iff: "x = y \<longleftrightarrow> unat x = unat y"
  by (simp add: word_unat_eq_iff)

lemma unat_pos: "0 < unat x \<longleftrightarrow> x \<noteq> 0"
  by (metis gr0I not_less_zero unat_0 unat_eq_iff)

lemma unat_min: "unat (min a b) = min (unat a) (unat b)"
  by (simp add: min_def word_le_nat_alt)

lemma unat_ucast_u64_u32: "unat (x :: u64) < 4294967296 \<Longrightarrow> unat (ucast x :: u32) = unat x"
  by (simp add: unsigned_ucast_eq take_bit_nat_eq_self_iff)

lemma drop_bit_and_1: "(drop_bit n w AND 1) \<noteq> (0 :: 'a::len word) \<longleftrightarrow> bit w n"
proof -
  have "odd (drop_bit n w AND 1) \<longleftrightarrow> bit w n"
    by (simp add: bit_iff_odd_drop_bit even_and_iff)
  moreover have "drop_bit n w AND 1 = 0 \<or> drop_bit n w AND 1 = (1 :: 'a word)"
    by (cases "bit w n") (auto simp: bit_word_iff_drop_bit_and and_one_eq bit_iff_odd_drop_bit
        odd_iff_mod_2_eq_one even_iff_mod_2_eq_zero)
  ultimately show ?thesis by auto
qed

section \<open>Lists\<close>

lemma nth_replace_segment:
  assumes "a \<le> b" and "b \<le> length xs" and "length ys = b - a" and "k < length xs"
  shows "(take a xs @ ys @ drop b xs) ! k =
    (if a \<le> k \<and> k < b then ys ! (k - a) else xs ! k)"
  using assms by (auto simp: nth_append min_def)

lemma length_replace_segment [simp]:
  "a \<le> b \<Longrightarrow> b \<le> length xs \<Longrightarrow> length ys = b - a \<Longrightarrow>
    length (take a xs @ ys @ drop b xs) = length xs"
  by simp

lemma div_eq_le_mod: "(i :: nat) div n = j div n \<Longrightarrow> i \<le> j \<longleftrightarrow> i mod n \<le> j mod n"
  by (metis add_le_cancel_left div_mult_mod_eq)

lemma div_eq_less_mod: "(i :: nat) div n = j div n \<Longrightarrow> i < j \<longleftrightarrow> i mod n < j mod n"
  by (metis add_less_cancel_left div_mult_mod_eq)

lemma div_less_imp_less: "(i :: nat) div n < j div n \<Longrightarrow> i < j"
  by (metis div_le_mono leD leI)

section \<open>Reachable states\<close>

text \<open>
  Every stateful component is a step relation, a set of initial states and an invariant;
  the clients of this interface use that the invariant holds in every reachable state.
\<close>

locale transition_invariant =
  fixes step :: "'s \<Rightarrow> 's \<Rightarrow> bool"
    and init :: "'s \<Rightarrow> bool"
    and inv :: "'s \<Rightarrow> bool"
  assumes init_inv: "init s \<Longrightarrow> inv s"
    and step_preserves: "inv s \<Longrightarrow> step s t \<Longrightarrow> inv t"
begin

lemma steps_preserve: "step\<^sup>*\<^sup>* s t \<Longrightarrow> inv s \<Longrightarrow> inv t"
  by (induction rule: rtranclp_induct) (auto intro: step_preserves)

lemma reachable_inv: "init s \<Longrightarrow> step\<^sup>*\<^sup>* s t \<Longrightarrow> inv t"
  using steps_preserve init_inv by blast

end

end
