(* ===== verification/Bit_Array.thy ===== *)
theory Bit_Array
  imports SPDK_Prelude
begin

text \<open>
  The bit array of \<^verbatim>\<open>lib/util/bit_array.c\<close>: a bit count and an array of 64-bit words,
  followed by one sentinel word \<open>0b10\<close> at which the search loops stop. The abstraction
  \<open>ba_bit\<close> reads it as a function from indices to bits; the lemmas show that every operation
  implements its effect on that function, that the searches return the least matching index,
  and where the code leaves bits behind.
\<close>

section \<open>Model\<close>

record spdk_bit_array =
  bit_count :: u32
  words :: "u64 list"

text \<open>
  The word size is \<^verbatim>\<open>sizeof(uint64_t) * 8 = 64\<close>, so the index shift is 6 and the index
  mask 63. The sum in \<^verbatim>\<open>bit_array_word_count\<close> is computed in \<^verbatim>\<open>size_t\<close> and its
  quotient is at most \<open>2 ^ 26\<close>: nothing is truncated.
\<close>

definition bit_array_word_count :: "u32 \<Rightarrow> nat" where
  "bit_array_word_count num_bits = (unat num_bits + 64 - 1) div 64"

definition bit_array_word_mask :: "u32 \<Rightarrow> u64" where
  "bit_array_word_mask num_bits = push_bit (unat num_bits) 1 - 1"

text \<open>
  \<^verbatim>\<open>spdk_realloc\<close> keeps the words that fit and leaves the others indeterminate: the
  argument \<open>g\<close> stands for their contents. An allocation that fails is \<open>None\<close>.
\<close>

definition realloc_words :: "(nat \<Rightarrow> u64) \<Rightarrow> u64 list \<Rightarrow> nat \<Rightarrow> u64 list" where
  "realloc_words g old n = take n old @ map g [length old ..< n]"

text \<open>\<open>bap\<close> is the pointer to the array pointer: \<open>None\<close> is a NULL \<open>bap\<close>, \<open>Some None\<close> a
  NULL array. On success the result is the array stored through \<open>bap\<close>.\<close>

definition spdk_bit_array_resize ::
  "(nat \<Rightarrow> u64) option \<Rightarrow> spdk_bit_array option option \<Rightarrow> u32 \<Rightarrow> spdk_bit_array res" where
  "spdk_bit_array_resize mem bap num_bits =
     (case bap of
        None \<Rightarrow> Inl (Errno EINVAL)
      | Some old \<Rightarrow>
        if num_bits = UINT32_MAX then Inl (Errno EINVAL)
        else
          (let new_word_count = bit_array_word_count num_bits in
           case mem of
             None \<Rightarrow> Inl (Errno ENOMEM)
           | Some g \<Rightarrow>
             (let old_words = (case old of None \<Rightarrow> [] | Some ba \<Rightarrow> words ba);
                  old_bits = (case old of None \<Rightarrow> 0 | Some ba \<Rightarrow> bit_count ba);
                  old_word_count =
                    (case old of None \<Rightarrow> 0 | Some ba \<Rightarrow> bit_array_word_count (bit_count ba));
                  ws = (realloc_words g old_words (new_word_count + 1))[new_word_count := 2];
                  ws' =
                    (if old_word_count < new_word_count then
                       take old_word_count ws
                         @ replicate (new_word_count - old_word_count) 0
                         @ drop new_word_count ws
                     else if new_word_count = old_word_count \<and> num_bits < old_bits then
                       ws[old_word_count - 1 :=
                         ws ! (old_word_count - 1) AND bit_array_word_mask (num_bits AND 63)]
                     else ws)
              in Inr \<lparr>bit_count = num_bits, words = ws'\<rparr>)))"

text \<open>The C function ignores the code \<^verbatim>\<open>spdk_bit_array_resize\<close> returns and hands back
  the pointer, which is NULL when the call failed.\<close>

definition spdk_bit_array_create :: "(nat \<Rightarrow> u64) option \<Rightarrow> u32 \<Rightarrow> spdk_bit_array option" where
  "spdk_bit_array_create mem num_bits =
     (case spdk_bit_array_resize mem (Some None) num_bits of Inl _ \<Rightarrow> None | Inr ba \<Rightarrow> Some ba)"

definition spdk_bit_array_capacity :: "spdk_bit_array \<Rightarrow> u32" where
  "spdk_bit_array_capacity ba = bit_count ba"

definition bit_array_get_word :: "spdk_bit_array \<Rightarrow> u32 \<Rightarrow> (nat \<times> nat) res" where
  "bit_array_get_word ba bit_index =
     (if bit_count ba \<le> bit_index then Inl (Errno EINVAL)
      else Inr (unat (drop_bit 6 bit_index), unat (bit_index AND 63)))"

definition spdk_bit_array_get :: "spdk_bit_array \<Rightarrow> u32 \<Rightarrow> bool" where
  "spdk_bit_array_get ba bit_index =
     (case bit_array_get_word ba bit_index of
        Inl _ \<Rightarrow> False
      | Inr (word_index, word_bit_index) \<Rightarrow>
          (drop_bit word_bit_index (words ba ! word_index) AND 1) \<noteq> 0)"

definition spdk_bit_array_set :: "spdk_bit_array \<Rightarrow> u32 \<Rightarrow> spdk_bit_array res" where
  "spdk_bit_array_set ba bit_index =
     (case bit_array_get_word ba bit_index of
        Inl _ \<Rightarrow> Inl (Errno EINVAL)
      | Inr (word_index, word_bit_index) \<Rightarrow>
          Inr (ba\<lparr>words := (words ba)[word_index :=
                 words ba ! word_index OR push_bit word_bit_index 1]\<rparr>))"

definition spdk_bit_array_clear :: "spdk_bit_array \<Rightarrow> u32 \<Rightarrow> spdk_bit_array" where
  "spdk_bit_array_clear ba bit_index =
     (case bit_array_get_word ba bit_index of
        Inl _ \<Rightarrow> ba
      | Inr (word_index, word_bit_index) \<Rightarrow>
          ba\<lparr>words := (words ba)[word_index :=
            words ba ! word_index AND NOT (push_bit word_bit_index 1)]\<rparr>)"

text \<open>\<^verbatim>\<open>__builtin_ctzll\<close> and \<^verbatim>\<open>__builtin_popcountll\<close>.\<close>

definition tzcnt :: "u64 \<Rightarrow> nat" where
  "tzcnt w = length (takeWhile (\<lambda>i. \<not> bit w i) [0 ..< 64])"

definition popcnt :: "u64 \<Rightarrow> nat" where
  "popcnt w = length (filter (bit w) [0 ..< 64])"

text \<open>The search loop; reading past the words is \<open>Undefined\<close>.\<close>

function find_first_loop :: "u64 list \<Rightarrow> u64 \<Rightarrow> nat \<Rightarrow> u64 \<Rightarrow> (nat \<times> u64) res" where
  "find_first_loop ws xor_mask cur word =
     (if word \<noteq> 0 then Inr (cur, word)
      else if Suc cur < length ws then
        find_first_loop ws xor_mask (Suc cur) (ws ! Suc cur XOR xor_mask)
      else Inl Undefined)"
  by pat_completeness auto
termination
  by (relation "measure (\<lambda>(ws, xor_mask, cur, word). length ws - cur)") auto

declare find_first_loop.simps [simp del]

text \<open>The index is computed at pointer width and truncated to \<^verbatim>\<open>uint32_t\<close> on return.\<close>

definition bit_array_find_first :: "spdk_bit_array \<Rightarrow> u32 \<Rightarrow> u64 \<Rightarrow> u32 res" where
  "bit_array_find_first ba start_bit_index xor_mask =
     (if bit_count ba \<le> start_bit_index then Inr (bit_count ba)
      else
        (let word_index = unat (drop_bit 6 start_bit_index);
             first_word_bit_index = start_bit_index AND 63;
             first_word_mask = bit_array_word_mask first_word_bit_index;
             word = (words ba ! word_index XOR xor_mask) AND NOT first_word_mask
         in map_sum id (\<lambda>(cur, w). of_nat (cur * 64 + tzcnt w))
              (find_first_loop (words ba) xor_mask word_index word)))"

definition spdk_bit_array_find_first_set :: "spdk_bit_array \<Rightarrow> u32 \<Rightarrow> u32 res" where
  "spdk_bit_array_find_first_set ba start_bit_index =
     map_sum id (\<lambda>bit_index. if bit_count ba \<le> bit_index then UINT32_MAX else bit_index)
       (bit_array_find_first ba start_bit_index 0)"

definition spdk_bit_array_find_first_clear :: "spdk_bit_array \<Rightarrow> u32 \<Rightarrow> u32 res" where
  "spdk_bit_array_find_first_clear ba start_bit_index =
     map_sum id (\<lambda>bit_index. if bit_count ba \<le> bit_index then UINT32_MAX else bit_index)
       (bit_array_find_first ba start_bit_index (- 1))"

definition spdk_bit_array_count_set :: "spdk_bit_array \<Rightarrow> u32" where
  "spdk_bit_array_count_set ba =
     fold (\<lambda>w set_count. set_count + of_nat (popcnt w))
       (take (bit_array_word_count (bit_count ba)) (words ba)) 0"

definition spdk_bit_array_count_clear :: "spdk_bit_array \<Rightarrow> u32" where
  "spdk_bit_array_count_clear ba = bit_count ba - spdk_bit_array_count_set ba"

text \<open>
  The mask functions copy between the words and a byte buffer. On the little-endian hosts
  SPDK supports, byte \<open>k\<close> of a word holds its bits \<open>8 k\<close> to \<open>8 k + 7\<close>.
\<close>

definition word_byte :: "u64 \<Rightarrow> nat \<Rightarrow> u8" where
  "word_byte w k = ucast (drop_bit (8 * k) w)"

definition set_word_byte :: "u64 \<Rightarrow> nat \<Rightarrow> u8 \<Rightarrow> u64" where
  "set_word_byte w k b = (w AND NOT (push_bit (8 * k) 255)) OR push_bit (8 * k) (ucast b)"

definition poke_byte :: "u64 list \<Rightarrow> nat \<Rightarrow> u8 \<Rightarrow> u64 list" where
  "poke_byte ws j b = ws[j div 8 := set_word_byte (ws ! (j div 8)) (j mod 8) b]"

definition spdk_bit_array_store_mask :: "spdk_bit_array \<Rightarrow> u8 list \<Rightarrow> u8 list" where
  "spdk_bit_array_store_mask ba msk =
     (let num_bits = unat (spdk_bit_array_capacity ba);
          size = num_bits div 8;
          copied = map (\<lambda>j. word_byte (words ba ! (j div 8)) (j mod 8)) [0 ..< size] @ drop size msk
      in fold (\<lambda>i m. m[size :=
                 (if spdk_bit_array_get ba (of_nat (i + size * 8))
                  then m ! size OR push_bit i 1 else m ! size AND NOT (push_bit i 1))])
           [0 ..< num_bits mod 8] copied)"

definition spdk_bit_array_load_mask :: "spdk_bit_array \<Rightarrow> u8 list \<Rightarrow> spdk_bit_array" where
  "spdk_bit_array_load_mask ba msk =
     (let num_bits = unat (spdk_bit_array_capacity ba);
          size = num_bits div 8;
          ba' = ba\<lparr>words := fold (\<lambda>j ws. poke_byte ws j (msk ! j)) [0 ..< size] (words ba)\<rparr>
      in fold (\<lambda>i b.
                 if msk ! size AND push_bit i 1 \<noteq> 0
                 then (case spdk_bit_array_set b (of_nat (i + size * 8)) of
                         Inl _ \<Rightarrow> b | Inr b' \<Rightarrow> b')
                 else spdk_bit_array_clear b (of_nat (i + size * 8)))
           [0 ..< num_bits mod 8] ba')"

definition spdk_bit_array_clear_mask :: "spdk_bit_array \<Rightarrow> spdk_bit_array" where
  "spdk_bit_array_clear_mask ba =
     (let num_bits = unat (spdk_bit_array_capacity ba);
          size = num_bits div 8;
          ba' = ba\<lparr>words := fold (\<lambda>j ws. poke_byte ws j 0) [0 ..< size] (words ba)\<rparr>
      in fold (\<lambda>i b. spdk_bit_array_clear b (of_nat (i + size * 8))) [0 ..< num_bits mod 8] ba')"

section \<open>Abstraction and well-formedness\<close>

text \<open>The bit the words hold at an index, below the bit count or not.\<close>

definition ba_bit :: "spdk_bit_array \<Rightarrow> nat \<Rightarrow> bool" where
  "ba_bit ba i = bit (words ba ! (i div 64)) (i mod 64)"

text \<open>The layout every operation relies on: the words of the bit count, then the sentinel.\<close>

definition ba_wf :: "spdk_bit_array \<Rightarrow> bool" where
  "ba_wf ba \<longleftrightarrow>
     bit_count ba \<noteq> UINT32_MAX \<and>
     length (words ba) = bit_array_word_count (bit_count ba) + 1 \<and>
     words ba ! bit_array_word_count (bit_count ba) = 2"

text \<open>The comment in \<^verbatim>\<open>spdk_bit_array_count_set\<close>: the bits past the bit count are clear.\<close>

definition ba_clean :: "spdk_bit_array \<Rightarrow> bool" where
  "ba_clean ba \<longleftrightarrow>
     (\<forall>i < 64 * bit_array_word_count (bit_count ba). unat (bit_count ba) \<le> i \<longrightarrow> \<not> ba_bit ba i)"

section \<open>Indices\<close>

lemma unat_bit_index_word: "unat (drop_bit 6 (i :: u32)) = unat i div 64"
  by (simp add: drop_bit_eq_div unat_div_distrib)

lemma unat_bit_index_bit: "unat ((i :: u32) AND 63) = unat i mod 64"
proof -
  have "(i AND 63) = take_bit 6 i"
    by (simp add: take_bit_eq_mask mask_eq_exp_minus_1)
  then show ?thesis
    by (simp add: take_bit_eq_mod unat_mod_distrib)
qed

lemma word_count_bounds:
  "unat n \<le> 64 * bit_array_word_count n" "64 * bit_array_word_count n < unat n + 64"
  by (simp_all add: bit_array_word_count_def)

lemma index_in_words:
  "i < unat n \<Longrightarrow> i div 64 < bit_array_word_count n"
  by (simp add: bit_array_word_count_def)

lemma word_count_div: "i < 64 * bit_array_word_count n \<Longrightarrow> i div 64 < bit_array_word_count n"
  by (simp add: less_mult_imp_div_less mult.commute)

lemma ba_wf_lengthD: "ba_wf ba \<Longrightarrow> length (words ba) = bit_array_word_count (bit_count ba) + 1"
  by (simp add: ba_wf_def)

lemma bit_array_word_mask_bit:
  "bit (bit_array_word_mask n) k \<longleftrightarrow> k < unat n \<and> k < 64"
proof -
  have "bit_array_word_mask n = mask (unat n)"
    by (simp add: bit_array_word_mask_def mask_eq_exp_minus_1 push_bit_eq_mult)
  then show ?thesis by (auto simp: bit_mask_iff)
qed

section \<open>Reading and writing bits\<close>

lemma bit_array_get_word_eq:
  "bit_array_get_word ba i =
     (if unat i < unat (bit_count ba) then Inr (unat i div 64, unat i mod 64)
      else Inl (Errno EINVAL))"
  by (simp add: bit_array_get_word_def unat_bit_index_word unat_bit_index_bit word_le_nat_alt)

lemma get_eq_ba_bit:
  "spdk_bit_array_get ba i \<longleftrightarrow> unat i < unat (bit_count ba) \<and> ba_bit ba (unat i)"
  by (simp add: spdk_bit_array_get_def bit_array_get_word_eq ba_bit_def drop_bit_and_1)

lemma ba_bit_upd_word:
  assumes "i div 64 < length (words ba)" and "j div 64 < length (words ba)"
    and "\<And>k. k < 64 \<Longrightarrow> bit w k = (if k = i mod 64 then v else bit (words ba ! (i div 64)) k)"
  shows "ba_bit (ba\<lparr>words := (words ba)[i div 64 := w]\<rparr>) j = (if j = i then v else ba_bit ba j)"
proof (cases "j div 64 = i div 64")
  case True
  then have "j mod 64 = i mod 64 \<longleftrightarrow> j = i"
    by (metis div_mult_mod_eq)
  with True assms show ?thesis by (simp add: ba_bit_def)
next
  case False
  then show ?thesis by (auto simp: ba_bit_def nth_list_update)
qed

lemma set_Inr_iff:
  "spdk_bit_array_set ba i = Inr ba' \<longleftrightarrow>
     unat i < unat (bit_count ba) \<and>
     ba' = ba\<lparr>words := (words ba)[unat i div 64 :=
              words ba ! (unat i div 64) OR push_bit (unat i mod 64) 1]\<rparr>"
  by (auto simp: spdk_bit_array_set_def bit_array_get_word_eq)

lemma set_ba_bit:
  assumes "ba_wf ba" and "spdk_bit_array_set ba i = Inr ba'" and "j div 64 < length (words ba)"
  shows "ba_bit ba' j = (j = unat i \<or> ba_bit ba j)"
proof -
  from assms(2) have i: "unat i < unat (bit_count ba)"
    and ba': "ba' = ba\<lparr>words := (words ba)[unat i div 64 :=
              words ba ! (unat i div 64) OR push_bit (unat i mod 64) 1]\<rparr>"
    by (auto simp: set_Inr_iff)
  have "unat i div 64 < length (words ba)"
    using index_in_words [OF i] assms(1) by (simp add: ba_wf_def)
  then have "ba_bit ba' j = (if j = unat i then True else ba_bit ba j)"
    unfolding ba' using assms(3)
    by (intro ba_bit_upd_word) (auto simp: bit_or_iff bit_exp_iff)
  then show ?thesis by simp
qed

lemma clear_ba_bit:
  assumes "ba_wf ba" and "j div 64 < length (words ba)"
  shows "ba_bit (spdk_bit_array_clear ba i) j =
    (ba_bit ba j \<and> \<not> (j = unat i \<and> unat i < unat (bit_count ba)))"
proof (cases "unat i < unat (bit_count ba)")
  case True
  have "unat i div 64 < length (words ba)"
    using index_in_words [OF True] assms(1) by (simp add: ba_wf_def)
  then have "ba_bit (ba\<lparr>words := (words ba)[unat i div 64 :=
      words ba ! (unat i div 64) AND NOT (push_bit (unat i mod 64) 1)]\<rparr>) j =
      (if j = unat i then False else ba_bit ba j)"
    using assms(2)
    by (intro ba_bit_upd_word) (auto simp: bit_and_iff bit_not_iff bit_exp_iff)
  with True show ?thesis
    by (simp add: spdk_bit_array_clear_def bit_array_get_word_eq)
next
  case False
  then show ?thesis by (simp add: spdk_bit_array_clear_def bit_array_get_word_eq)
qed

lemma set_frame:
  assumes "ba_wf ba" and "spdk_bit_array_set ba i = Inr ba'"
  shows "ba_wf ba'" and "bit_count ba' = bit_count ba" and "length (words ba') = length (words ba)"
  using assms index_in_words [of "unat i" "bit_count ba"] by (auto simp: set_Inr_iff ba_wf_def)

lemma clear_frame:
  assumes "ba_wf ba"
  shows "ba_wf (spdk_bit_array_clear ba i)"
    and "bit_count (spdk_bit_array_clear ba i) = bit_count ba"
    and "length (words (spdk_bit_array_clear ba i)) = length (words ba)"
  using assms index_in_words [of "unat i" "bit_count ba"]
  by (auto simp: spdk_bit_array_clear_def bit_array_get_word_eq ba_wf_def)

lemma ba_cleanI:
  "(\<And>i. i < 64 * bit_array_word_count (bit_count ba) \<Longrightarrow> unat (bit_count ba) \<le> i \<Longrightarrow>
      \<not> ba_bit ba i) \<Longrightarrow> ba_clean ba"
  by (simp add: ba_clean_def)

lemma wf_word_index:
  "ba_wf ba \<Longrightarrow> i < 64 * bit_array_word_count (bit_count ba) \<Longrightarrow> i div 64 < length (words ba)"
  using word_count_div by (simp add: ba_wf_def less_Suc_eq)

lemma wf_bit_index:
  "ba_wf ba \<Longrightarrow> i < unat (bit_count ba) \<Longrightarrow> i div 64 < length (words ba)"
  using index_in_words by (simp add: ba_wf_def less_Suc_eq)

lemma set_clean:
  assumes "ba_wf ba" "ba_clean ba" "spdk_bit_array_set ba i = Inr ba'"
  shows "ba_clean ba'"
proof (rule ba_cleanI)
  fix j assume j: "j < 64 * bit_array_word_count (bit_count ba')" "unat (bit_count ba') \<le> j"
  note eq = set_frame(2) [OF assms(1,3)]
  have "unat i < unat (bit_count ba)" using assms(3) by (simp add: set_Inr_iff)
  with j eq have "j \<noteq> unat i" "\<not> ba_bit ba j" using assms(2) by (auto simp: ba_clean_def)
  then show "\<not> ba_bit ba' j"
    using set_ba_bit [OF assms(1,3)] j(1) eq wf_word_index [OF assms(1)] by simp
qed

lemma clear_clean: "ba_wf ba \<Longrightarrow> ba_clean ba \<Longrightarrow> ba_clean (spdk_bit_array_clear ba i)"
  by (rule ba_cleanI) (auto simp: clear_frame clear_ba_bit wf_word_index ba_clean_def)

section \<open>Resizing\<close>

lemma length_realloc_words [simp]: "length (realloc_words g old n) = n"
  by (simp add: realloc_words_def)

lemma nth_realloc_words:
  "k < n \<Longrightarrow> k < length old \<Longrightarrow> realloc_words g old n ! k = old ! k"
  by (simp add: realloc_words_def nth_append)

text \<open>
  The words of a resized array: the old word below the smaller of the two word counts
  (masked when it is the last word of both and the array shrinks), zero above the old word
  count, the sentinel at the end.
\<close>

lemma resize_words:
  assumes "ba_wf ba" and "spdk_bit_array_resize (Some g) (Some (Some ba)) n = Inr ba'"
  defines "o_wc \<equiv> bit_array_word_count (bit_count ba)" and "n_wc \<equiv> bit_array_word_count n"
  shows "bit_count ba' = n" and "length (words ba') = n_wc + 1" and "words ba' ! n_wc = 2"
    and "\<And>k. k < n_wc \<Longrightarrow> words ba' ! k =
      (if o_wc \<le> k then 0
       else if n_wc = o_wc \<and> n < bit_count ba \<and> k = o_wc - 1
       then words ba ! k AND bit_array_word_mask (n AND 63) else words ba ! k)"
proof -
  have len: "length (words ba) = o_wc + 1" using assms(1) by (simp add: ba_wf_def o_wc_def)
  let ?ws = "(realloc_words g (words ba) (n_wc + 1))[n_wc := 2]"
  have eq: "ba' = \<lparr>bit_count = n, words =
     (if o_wc < n_wc then take o_wc ?ws @ replicate (n_wc - o_wc) 0 @ drop n_wc ?ws
      else if n_wc = o_wc \<and> n < bit_count ba
      then ?ws[o_wc - 1 := ?ws ! (o_wc - 1) AND bit_array_word_mask (n AND 63)] else ?ws)\<rparr>"
    using assms(2)
    by (auto simp: spdk_bit_array_resize_def Let_def o_wc_def n_wc_def split: if_splits)
  have old: "\<And>k. k < n_wc \<Longrightarrow> k < o_wc \<Longrightarrow> ?ws ! k = words ba ! k"
    using len by (simp add: nth_realloc_words)
  show "bit_count ba' = n" by (simp add: eq)
  show "length (words ba') = n_wc + 1" by (simp add: eq)
  have ne: "n_wc = o_wc \<Longrightarrow> n < bit_count ba \<Longrightarrow> o_wc - 1 \<noteq> n_wc"
    using word_count_bounds(1) [of "bit_count ba"] by (auto simp: o_wc_def word_less_nat_alt)
  then show "words ba' ! n_wc = 2"
    by (auto simp: eq nth_append nth_list_update)
  fix k assume k: "k < n_wc"
  show "words ba' ! k =
      (if o_wc \<le> k then 0
       else if n_wc = o_wc \<and> n < bit_count ba \<and> k = o_wc - 1
       then words ba ! k AND bit_array_word_mask (n AND 63) else words ba ! k)"
  proof (cases "o_wc < n_wc")
    case True
    with k old show ?thesis by (auto simp: eq nth_append)
  next
    case False
    with k old ne show ?thesis by (auto simp: eq nth_list_update)
  qed
qed

lemma resize_wf:
  assumes "ba_wf ba" and "spdk_bit_array_resize (Some g) (Some (Some ba)) n = Inr ba'"
  shows "ba_wf ba'"
  using resize_words(1,2,3) [OF assms] assms(2)
  by (auto simp: ba_wf_def spdk_bit_array_resize_def split: if_splits)

text \<open>Below both bit counts a resize keeps every bit.\<close>

lemma resize_keeps_bits:
  assumes "ba_wf ba" and "spdk_bit_array_resize (Some g) (Some (Some ba)) n = Inr ba'"
    and "i < unat n" and "i < unat (bit_count ba)"
  shows "ba_bit ba' i = ba_bit ba i"
proof -
  let ?o = "bit_array_word_count (bit_count ba)" and ?n = "bit_array_word_count n"
  have k: "i div 64 < ?n" "i div 64 < ?o" using assms(3,4) by (simp_all add: index_in_words)
  have "bit (bit_array_word_mask (n AND 63)) (i mod 64)"
    if "?n = ?o" "n < bit_count ba" "i div 64 = ?o - 1"
  proof -
    have "64 * (?o - 1) \<le> unat n" "unat n < 64 * ?o"
      using that word_count_bounds [of n] word_count_bounds [of "bit_count ba"]
      by (auto simp: word_less_nat_alt)
    with that(3) k assms(3) have "unat n div 64 = i div 64" by auto
    with assms(3) have "i mod 64 < unat n mod 64"
      by (metis add_less_cancel_left div_mult_mod_eq)
    then show ?thesis by (simp add: bit_array_word_mask_bit unat_bit_index_bit)
  qed
  with k show ?thesis
    by (auto simp: ba_bit_def resize_words(4) [OF assms(1,2) k(1)] bit_and_iff)
qed

lemma create_ba:
  assumes "spdk_bit_array_create (Some g) n = Some ba"
  shows "ba_wf ba" and "bit_count ba = n" and "\<And>i. i < 64 * bit_array_word_count n \<Longrightarrow> \<not> ba_bit ba i"
proof -
  have eq: "n \<noteq> UINT32_MAX \<and> ba = \<lparr>bit_count = n,
      words = replicate (bit_array_word_count n) 0 @ [2]\<rparr>"
  proof (cases "bit_array_word_count n = 0")
    case True
    with assms show ?thesis
      by (auto simp: spdk_bit_array_create_def spdk_bit_array_resize_def Let_def realloc_words_def
          split: if_splits)
  next
    case False
    with assms show ?thesis
      by (auto simp: spdk_bit_array_create_def spdk_bit_array_resize_def Let_def realloc_words_def
          list_update_append split: if_splits)
  qed
  then show "ba_wf ba" "bit_count ba = n"
    by (auto simp: ba_wf_def nth_append)
  fix i assume "i < 64 * bit_array_word_count n"
  then have "i div 64 < bit_array_word_count n" by (rule word_count_div)
  with eq show "\<not> ba_bit ba i" by (simp add: ba_bit_def nth_append)
qed

text \<open>
  The bits past the bit count stay clear, except when the array shrinks to fewer words and
  its new last word is partial: no branch of the code masks that word.
\<close>

lemma resize_clean:
  assumes "ba_wf ba" "ba_clean ba" "spdk_bit_array_resize (Some g) (Some (Some ba)) n = Inr ba'"
    and cover: "bit_array_word_count (bit_count ba) \<le> bit_array_word_count n \<or> 64 dvd unat n"
  shows "ba_clean ba'"
proof (rule ba_cleanI)
  let ?o = "bit_array_word_count (bit_count ba)" and ?n = "bit_array_word_count n"
  note rs = resize_words [OF assms(1,3)]
  fix i assume "i < 64 * bit_array_word_count (bit_count ba')" "unat (bit_count ba') \<le> i"
  then have i: "i < 64 * ?n" "unat n \<le> i" by (simp_all add: rs(1))
  have k: "i div 64 < ?n" by (rule word_count_div [OF i(1)])
  have nd: "\<not> 64 dvd unat n"
    using i by (auto simp: bit_array_word_count_def)
  then have le: "?o \<le> ?n" using cover by blast
  show "\<not> ba_bit ba' i"
  proof (cases "unat (bit_count ba) \<le> i")
    case True
    then have "\<not> ba_bit ba i" if "i div 64 < ?o"
      using assms(2) that by (simp add: ba_clean_def)
    with k show ?thesis by (auto simp: ba_bit_def rs(4) [OF k] bit_and_iff)
  next
    case False
    with i le have eq: "?n = ?o" "n < bit_count ba"
      using word_count_bounds [of n] word_count_bounds [of "bit_count ba"]
      by (auto simp: word_less_nat_alt)
    have "i div 64 = ?o - 1" "unat n div 64 = i div 64"
      using i k eq word_count_bounds [of n] by auto
    then have "unat n mod 64 \<le> i mod 64"
      using i(2) by (metis add_le_cancel_left div_mult_mod_eq)
    then have "\<not> bit (bit_array_word_mask (n AND 63)) (i mod 64)"
      by (simp add: bit_array_word_mask_bit unat_bit_index_bit)
    moreover have "words ba' ! (i div 64) =
        words ba ! (i div 64) AND bit_array_word_mask (n AND 63)"
      using rs(4) [OF k] eq k \<open>i div 64 = ?o - 1\<close> by simp
    ultimately show ?thesis by (simp add: ba_bit_def bit_and_iff)
  qed
qed

lemma create_clean: "spdk_bit_array_create (Some g) n = Some ba \<Longrightarrow> ba_clean ba"
  using create_ba by (auto intro: ba_cleanI)

section \<open>Searching\<close>

text \<open>The reference: the least index from \<open>lo\<close> below \<open>hi\<close> with the property, or
  \<^verbatim>\<open>UINT32_MAX\<close>.\<close>

definition first_index :: "(nat \<Rightarrow> bool) \<Rightarrow> nat \<Rightarrow> nat \<Rightarrow> u32" where
  "first_index P lo hi = (case find P [lo ..< hi] of None \<Rightarrow> UINT32_MAX | Some j \<Rightarrow> of_nat j)"

lemma find_upt_Some:
  "lo \<le> p \<Longrightarrow> p < hi \<Longrightarrow> P p \<Longrightarrow> (\<And>j. lo \<le> j \<Longrightarrow> j < p \<Longrightarrow> \<not> P j) \<Longrightarrow>
     find P [lo ..< hi] = Some p"
  by (auto simp: find_Some_iff intro!: exI [of _ "p - lo"])

lemma find_upt_None: "(\<And>j. lo \<le> j \<Longrightarrow> j < hi \<Longrightarrow> \<not> P j) \<Longrightarrow> find P [lo ..< hi] = None"
  by (auto simp: find_None_iff)

lemma tzcnt_least:
  assumes "w \<noteq> 0"
  shows "tzcnt w < 64" and "bit w (tzcnt w)" and "\<And>k. k < tzcnt w \<Longrightarrow> \<not> bit w k"
proof -
  let ?xs = "[0 ..< 64]" and ?P = "\<lambda>i. \<not> bit w i"
  obtain n where n: "n < 64" "bit w n"
    using assms bit_word_eqI [of w 0] bit_imp_le_length [of w] by auto
  have lt: "length (takeWhile ?P ?xs) < length ?xs"
  proof (rule ccontr)
    assume "\<not> ?thesis"
    then have "takeWhile ?P ?xs = ?xs"
      by (metis length_takeWhile_le linorder_not_less nth_equalityI order_antisym takeWhile_nth)
    then have "\<forall>i \<in> set ?xs. ?P i" by (metis takeWhile_eq_all_conv)
    with n show False by auto
  qed
  then show "tzcnt w < 64" by (simp add: tzcnt_def)
  from nth_length_takeWhile [OF lt] lt show "bit w (tzcnt w)" by (simp add: tzcnt_def)
  fix k assume k: "k < tzcnt w"
  then have "takeWhile ?P ?xs ! k \<in> set (takeWhile ?P ?xs)" by (simp add: tzcnt_def)
  moreover have "takeWhile ?P ?xs ! k = k"
    using k lt by (simp add: tzcnt_def takeWhile_nth)
  ultimately show "\<not> bit w k" by (metis set_takeWhileD)
qed

lemma find_first_loop_correct:
  assumes "word = 0 \<Longrightarrow> \<exists>k. cur < k \<and> k < length ws \<and> ws ! k XOR m \<noteq> 0"
  shows "\<exists>c w. find_first_loop ws m cur word = Inr (c, w) \<and> w \<noteq> 0 \<and> cur \<le> c \<and>
     (c = cur \<longrightarrow> w = word) \<and>
     (cur < c \<longrightarrow> c < length ws \<and> word = 0 \<and> w = ws ! c XOR m \<and>
        (\<forall>k. cur < k \<and> k < c \<longrightarrow> ws ! k XOR m = 0))"
  using assms
proof (induction ws m cur word rule: find_first_loop.induct)
  case (1 ws m cur word)
  show ?case
  proof (cases "word = 0")
    case False
    then show ?thesis by (auto simp: find_first_loop.simps [of ws m cur word])
  next
    case True
    with "1.prems" obtain k where k: "cur < k" "k < length ws" "ws ! k XOR m \<noteq> 0" by blast
    then have sc: "Suc cur < length ws" by simp
    let ?word = "ws ! Suc cur XOR m"
    have "\<exists>k. Suc cur < k \<and> k < length ws \<and> ws ! k XOR m \<noteq> 0" if "?word = 0"
      using that k by (metis Suc_lessI)
    with "1.IH" True sc obtain c w where
      "find_first_loop ws m (Suc cur) ?word = Inr (c, w)" "w \<noteq> 0" "Suc cur \<le> c"
      "c = Suc cur \<longrightarrow> w = ?word"
      "Suc cur < c \<longrightarrow> c < length ws \<and> ?word = 0 \<and> w = ws ! c XOR m \<and>
        (\<forall>k. Suc cur < k \<and> k < c \<longrightarrow> ws ! k XOR m = 0)"
      by blast
    with True sc show ?thesis
      by (subst find_first_loop.simps) (auto simp: le_less less_Suc_eq_le Suc_le_eq intro: less_SucI
          dest: Suc_lessI)
  qed
qed

lemma find_first_position:
  fixes ws :: "u64 list" and s :: nat
  assumes word: "\<And>k. bit word k \<longleftrightarrow> bit (ws ! (s div 64) XOR m) k \<and> s mod 64 \<le> k"
    and w: "w \<noteq> 0" "s div 64 \<le> c" "c = s div 64 \<Longrightarrow> w = word"
    and later: "s div 64 < c \<Longrightarrow> word = 0" "s div 64 < c \<Longrightarrow> w = ws ! c XOR m"
      "\<And>k. s div 64 < k \<Longrightarrow> k < c \<Longrightarrow> ws ! k XOR m = 0"
  shows "s \<le> c * 64 + tzcnt w" and "bit (ws ! c XOR m) (tzcnt w)"
    and "\<And>j. s \<le> j \<Longrightarrow> j < c * 64 + tzcnt w \<Longrightarrow> \<not> bit (ws ! (j div 64) XOR m) (j mod 64)"
proof -
  note tz = tzcnt_least [OF w(1)]
  have pd: "(c * 64 + tzcnt w) div 64 = c" "(c * 64 + tzcnt w) mod 64 = tzcnt w"
    using tz(1) by auto
  have first: "bit word (tzcnt w)" if "c = s div 64" using tz(2) w(3) that by simp
  show "s \<le> c * 64 + tzcnt w"
  proof (cases "c = s div 64")
    case True
    with first word show ?thesis using div_eq_le_mod [of s 64 "c * 64 + tzcnt w"] pd by simp
  next
    case False
    with w(2) show ?thesis using div_less_imp_less [of s 64 "c * 64 + tzcnt w"] pd by simp
  qed
  show "bit (ws ! c XOR m) (tzcnt w)"
  proof (cases "c = s div 64")
    case True
    with first word show ?thesis by simp
  next
    case False
    with w(2) later(2) tz(2) show ?thesis by simp
  qed
  fix j assume j: "s \<le> j" "j < c * 64 + tzcnt w"
  have lo: "s div 64 \<le> j div 64" using j(1) by (rule div_le_mono)
  have hi: "j div 64 \<le> c" using div_le_mono [of j "c * 64 + tzcnt w" 64] j(2) pd(1) by simp
  show "\<not> bit (ws ! (j div 64) XOR m) (j mod 64)"
  proof (cases "j div 64 = s div 64")
    case True
    then have m: "s mod 64 \<le> j mod 64" using j(1) div_eq_le_mod [of s 64 j] by simp
    have "\<not> bit word (j mod 64)"
    proof (cases "c = s div 64")
      case c: True
      then have "j mod 64 < tzcnt w"
        using j(2) True pd div_eq_less_mod [of j 64 "c * 64 + tzcnt w"] by simp
      with tz(3) w(3) c show ?thesis by simp
    next
      case False
      with w(2) later(1) show ?thesis by simp
    qed
    with word m True show ?thesis by simp
  next
    case False
    with lo have gt: "s div 64 < j div 64" by simp
    show ?thesis
    proof (cases "j div 64 = c")
      case True
      then have "j mod 64 < tzcnt w"
        using j(2) pd div_eq_less_mod [of j 64 "c * 64 + tzcnt w"] by simp
      with tz(3) later(2) gt True show ?thesis by simp
    next
      case False
      with hi gt later(3) [of "j div 64"] show ?thesis by simp
    qed
  qed
qed

text \<open>The position the search stops at, before it is truncated to 32 bits.\<close>

lemma bit_array_find_first_correct:
  assumes wf: "ba_wf ba" and start: "unat start < unat (bit_count ba)"
    and sentinel: "(2 :: u64) XOR m \<noteq> 0"
  obtains p where "bit_array_find_first ba start m = Inr (of_nat p)" and "unat start \<le> p"
    and "p div 64 \<le> bit_array_word_count (bit_count ba)"
    and "bit (words ba ! (p div 64) XOR m) (p mod 64)"
    and "\<And>j. unat start \<le> j \<Longrightarrow> j < p \<Longrightarrow> \<not> bit (words ba ! (j div 64) XOR m) (j mod 64)"
proof -
  let ?wc = "bit_array_word_count (bit_count ba)" and ?cur = "unat start div 64"
  let ?word = "(words ba ! ?cur XOR m) AND NOT (bit_array_word_mask (start AND 63))"
  have cur: "?cur < ?wc" using start by (rule index_in_words)
  have "words ba ! ?wc XOR m \<noteq> 0" "?wc < length (words ba)"
    using wf sentinel by (simp_all add: ba_wf_def)
  with cur obtain c w where loop: "find_first_loop (words ba) m ?cur ?word = Inr (c, w)"
    and w: "w \<noteq> 0" "?cur \<le> c" "c = ?cur \<longrightarrow> w = ?word"
      "?cur < c \<longrightarrow> c < length (words ba) \<and> ?word = 0 \<and> w = words ba ! c XOR m \<and>
        (\<forall>k. ?cur < k \<and> k < c \<longrightarrow> words ba ! k XOR m = 0)"
    using find_first_loop_correct [of ?word ?cur "words ba" m] by blast
  have word: "bit ?word k \<longleftrightarrow> bit (words ba ! ?cur XOR m) k \<and> unat start mod 64 \<le> k" for k
    using bit_imp_le_length [of "words ba ! ?cur XOR m" k]
    by (auto simp: bit_and_iff bit_not_iff bit_array_word_mask_bit unat_bit_index_bit)
  have c: "c \<le> ?wc" using w cur ba_wf_lengthD [OF wf] by (cases "?cur < c") auto
  have pd: "(c * 64 + tzcnt w) div 64 = c" "(c * 64 + tzcnt w) mod 64 = tzcnt w"
    using tzcnt_least(1) [OF w(1)] by auto
  have eq: "bit_array_find_first ba start m = Inr (of_nat (c * 64 + tzcnt w))"
    using loop start
    by (simp add: bit_array_find_first_def word_le_nat_alt unat_bit_index_word Let_def)
  have pos: "unat start \<le> c * 64 + tzcnt w" "bit (words ba ! c XOR m) (tzcnt w)"
    "\<And>j. unat start \<le> j \<Longrightarrow> j < c * 64 + tzcnt w \<Longrightarrow>
       \<not> bit (words ba ! (j div 64) XOR m) (j mod 64)"
    using find_first_position [of ?word "words ba" "unat start" m w c] word w by auto
  show ?thesis using that [of "c * 64 + tzcnt w"] eq pos pd c by simp
qed

lemma sentinel_bits:
  assumes "ba_wf ba" and "p div 64 = bit_array_word_count (bit_count ba)"
  shows "bit (words ba ! (p div 64)) (p mod 64) \<longleftrightarrow> p mod 64 = 1"
proof -
  have "words ba ! (p div 64) = 2 ^ 1" using assms by (simp add: ba_wf_def)
  then show ?thesis by (simp only: bit_exp_iff) auto
qed

lemma first_index_stop:
  fixes ba :: spdk_bit_array
  assumes "p < 4294967296" and "unat start \<le> p"
    and "p < unat (bit_count ba) \<Longrightarrow> P p"
    and "\<And>j. unat start \<le> j \<Longrightarrow> j < p \<Longrightarrow> \<not> P j"
  shows "(if bit_count ba \<le> of_nat p then UINT32_MAX else of_nat p) =
    first_index P (unat start) (unat (bit_count ba))"
proof (cases "p < unat (bit_count ba)")
  case True
  with assms find_upt_Some [of "unat start" p _ P] show ?thesis
    by (simp add: first_index_def word_le_nat_alt unat_of_nat_u32)
next
  case False
  with assms find_upt_None [of "unat start" _ P] show ?thesis
    by (simp add: first_index_def word_le_nat_alt unat_of_nat_u32)
qed

lemma first_index_empty: "hi \<le> lo \<Longrightarrow> first_index P lo hi = UINT32_MAX"
  by (simp add: first_index_def)

lemma find_first_set_correct:
  assumes "ba_wf ba" and "unat (bit_count ba) \<le> 4294967232"
  shows "spdk_bit_array_find_first_set ba start =
    Inr (first_index (ba_bit ba) (unat start) (unat (bit_count ba)))"
proof (cases "unat start < unat (bit_count ba)")
  case True
  let ?wc = "bit_array_word_count (bit_count ba)"
  obtain p where p: "bit_array_find_first ba start 0 = Inr (of_nat p)" "unat start \<le> p"
    "p div 64 \<le> ?wc" "bit (words ba ! (p div 64) XOR 0) (p mod 64)"
    "\<And>j. unat start \<le> j \<Longrightarrow> j < p \<Longrightarrow> \<not> bit (words ba ! (j div 64) XOR 0) (j mod 64)"
    using bit_array_find_first_correct [OF assms(1) True, of 0] by auto
  have "p < 64 * ?wc + 2"
  proof (cases "p div 64 = ?wc")
    case True
    then have "p mod 64 = 1" using sentinel_bits [OF assms(1), of p] p(4) by simp
    with True show ?thesis using div_mult_mod_eq [of p 64] by simp
  next
    case False
    with p(3) have "p div 64 < (64 * ?wc) div 64" by simp
    from div_less_imp_less [OF this] show ?thesis by simp
  qed
  moreover have "?wc \<le> 67108863"
    using word_count_bounds(2) [of "bit_count ba"] assms(2) by linarith
  ultimately have "p < 4294967296" by simp
  with p show ?thesis
    using first_index_stop [of p start ba "ba_bit ba"]
    by (simp add: spdk_bit_array_find_first_set_def ba_bit_def)
next
  case False
  then show ?thesis
    by (simp add: spdk_bit_array_find_first_set_def bit_array_find_first_def word_le_nat_alt
        first_index_empty)
qed

lemma find_first_clear_correct:
  assumes "ba_wf ba" and "ba_clean ba"
  shows "spdk_bit_array_find_first_clear ba start =
    Inr (first_index (\<lambda>i. \<not> ba_bit ba i) (unat start) (unat (bit_count ba)))"
proof (cases "unat start < unat (bit_count ba)")
  case True
  let ?wc = "bit_array_word_count (bit_count ba)"
  have xor: "bit (w XOR (- 1)) (i mod 64) \<longleftrightarrow> \<not> bit w (i mod 64)" for w :: u64 and i :: nat
    by (simp add: bit_not_iff)
  have "(2 :: u64) XOR - 1 \<noteq> 0" by simp
  then obtain p where p: "bit_array_find_first ba start (- 1) = Inr (of_nat p)" "unat start \<le> p"
    "p div 64 \<le> ?wc" "\<not> ba_bit ba p"
    "\<And>j. unat start \<le> j \<Longrightarrow> j < p \<Longrightarrow> ba_bit ba j"
    using bit_array_find_first_correct [OF assms(1) True, of "- 1"] xor unfolding ba_bit_def by metis
  have "\<not> ba_bit ba (unat (bit_count ba))"
  proof (cases "unat (bit_count ba) < 64 * ?wc")
    case True
    with assms(2) show ?thesis by (simp add: ba_clean_def)
  next
    case False
    then have "unat (bit_count ba) = 64 * ?wc" using word_count_bounds(1) [of "bit_count ba"] by simp
    then show ?thesis
      using sentinel_bits [OF assms(1), of "unat (bit_count ba)"] by (simp add: ba_bit_def)
  qed
  with p(5) True have "p \<le> unat (bit_count ba)" by (meson not_le less_imp_le)
  then have "p < 4294967296" using unat_u32_bound le_less_trans by blast
  with p show ?thesis
    using first_index_stop [of p start ba "\<lambda>i. \<not> ba_bit ba i"]
    by (simp add: spdk_bit_array_find_first_clear_def)
next
  case False
  then show ?thesis
    by (simp add: spdk_bit_array_find_first_clear_def bit_array_find_first_def word_le_nat_alt
        first_index_empty)
qed

section \<open>Counting\<close>

definition ba_set_bits :: "spdk_bit_array \<Rightarrow> nat set" where
  "ba_set_bits ba = {i. i < unat (bit_count ba) \<and> ba_bit ba i}"

lemma finite_ba_set_bits [simp]: "finite (ba_set_bits ba)"
  by (simp add: ba_set_bits_def)

lemma popcnt_card: "popcnt w = card {k. k < 64 \<and> bit w k}"
proof -
  have "popcnt w = card (set (filter (bit w) [0 ..< 64]))"
    unfolding popcnt_def by (rule distinct_card [symmetric]) simp
  then show ?thesis by (simp add: conj_commute)
qed

lemma popcnt_words_card:
  "sum_list (map popcnt ws) =
     card {i. i < 64 * length ws \<and> bit (ws ! (i div 64)) (i mod 64)}"
proof (induction ws rule: rev_induct)
  case Nil
  then show ?case by simp
next
  case (snoc w ws)
  let ?n = "64 * length ws"
  let ?A = "{i. i < ?n \<and> bit (ws ! (i div 64)) (i mod 64)}" and ?B = "{k. k < 64 \<and> bit w k}"
  have "{i. i < 64 * length (ws @ [w]) \<and> bit ((ws @ [w]) ! (i div 64)) (i mod 64)} =
      ?A \<union> (\<lambda>k. ?n + k) ` ?B" (is "?L = _")
  proof (intro set_eqI iffI)
    fix i assume i: "i \<in> ?L"
    show "i \<in> ?A \<union> (\<lambda>k. ?n + k) ` ?B"
    proof (cases "i < ?n")
      case True
      then have "i div 64 < length ws" by (simp add: less_mult_imp_div_less mult.commute)
      with True i show ?thesis by (auto simp: nth_append)
    next
      case False
      with i have "i div 64 = length ws" by auto
      with i have "bit w (i mod 64)" "i = ?n + i mod 64"
        using mult_div_mod_eq [of 64 i] by (auto simp: nth_append)
      then show ?thesis by (intro UnI2 image_eqI [of _ _ "i mod 64"]) auto
    qed
  next
    fix i assume i: "i \<in> ?A \<union> (\<lambda>k. ?n + k) ` ?B"
    show "i \<in> ?L"
    proof (cases "i < ?n")
      case True
      then have "i div 64 < length ws" by (simp add: less_mult_imp_div_less mult.commute)
      with True i show ?thesis by (auto simp: nth_append)
    next
      case False
      with i show ?thesis by (auto simp: nth_append)
    qed
  qed
  moreover have "card (?A \<union> (\<lambda>k. ?n + k) ` ?B) = card ?A + card ?B"
    by (subst card_Un_disjoint) (auto simp: card_image inj_on_def)
  ultimately show ?case by (simp add: snoc.IH popcnt_card [of w])
qed

lemma count_set_fold:
  "fold (\<lambda>w c. c + of_nat (popcnt w)) ws c = c + of_nat (sum_list (map popcnt ws))"
  by (induction ws arbitrary: c) (simp_all add: add.assoc)

lemma count_set_words:
  assumes "ba_wf ba"
  shows "spdk_bit_array_count_set ba =
    of_nat (card {i. i < 64 * bit_array_word_count (bit_count ba) \<and> ba_bit ba i})"
proof -
  let ?n = "bit_array_word_count (bit_count ba)"
  have "sum_list (map popcnt (take ?n (words ba))) =
      card {i. i < 64 * ?n \<and> bit (take ?n (words ba) ! (i div 64)) (i mod 64)}"
    using assms by (simp add: popcnt_words_card ba_wf_def)
  also have "{i. i < 64 * ?n \<and> bit (take ?n (words ba) ! (i div 64)) (i mod 64)} =
      {i. i < 64 * ?n \<and> ba_bit ba i}"
    using word_count_div by (auto simp: ba_bit_def)
  finally show ?thesis by (simp add: spdk_bit_array_count_set_def count_set_fold)
qed

lemma count_set_correct:
  assumes "ba_wf ba" and "ba_clean ba"
  shows "spdk_bit_array_count_set ba = of_nat (card (ba_set_bits ba))"
proof -
  have "{i. i < 64 * bit_array_word_count (bit_count ba) \<and> ba_bit ba i} = ba_set_bits ba"
    using assms(2) word_count_bounds(1) [of "bit_count ba"]
    by (auto simp: ba_set_bits_def ba_clean_def intro: less_le_trans)
  with count_set_words [OF assms(1)] show ?thesis by simp
qed

lemma card_set_bits_le: "card (ba_set_bits ba) \<le> unat (bit_count ba)"
proof -
  have "ba_set_bits ba \<subseteq> {..< unat (bit_count ba)}" by (auto simp: ba_set_bits_def)
  from card_mono [OF _ this] show ?thesis by simp
qed

lemma count_clear_correct:
  assumes "ba_wf ba" and "ba_clean ba"
  shows "unat (spdk_bit_array_count_clear ba) = unat (bit_count ba) - card (ba_set_bits ba)"
proof -
  have "card (ba_set_bits ba) < 4294967296"
    using card_set_bits_le unat_u32_bound le_less_trans by blast
  then have c: "unat (spdk_bit_array_count_set ba) = card (ba_set_bits ba)"
    by (simp add: count_set_correct [OF assms] unat_of_nat_u32)
  then have "spdk_bit_array_count_set ba \<le> bit_count ba"
    using card_set_bits_le by (simp add: word_le_nat_alt)
  with c show ?thesis by (simp add: spdk_bit_array_count_clear_def unat_sub)
qed

section \<open>Masks\<close>

lemma bit_word_byte: "k < 8 \<Longrightarrow> n < 8 \<Longrightarrow> bit (word_byte w k) n \<longleftrightarrow> bit w (8 * k + n)"
  by (simp add: word_byte_def bit_ucast_iff bit_drop_bit_eq)

lemma bit_set_word_byte:
  assumes "k < 8" and "n < 64"
  shows "bit (set_word_byte w k b) n = (if n div 8 = k then bit b (n mod 8) else bit w n)"
proof -
  have "bit (255 :: u64) m \<longleftrightarrow> m < 8" for m
  proof -
    have "(255 :: u64) = mask 8" by (simp add: mask_eq_exp_minus_1)
    then show ?thesis by (simp only: bit_mask_iff) auto
  qed
  moreover have "n div 8 = k \<longleftrightarrow> 8 * k \<le> n \<and> n - 8 * k < 8" by auto
  moreover have "n div 8 = k \<Longrightarrow> n - 8 * k = n mod 8" by (auto simp: minus_mult_div_eq_mod)
  ultimately show ?thesis using assms bit_imp_le_length [of b "n - 8 * k"]
    by (auto simp: set_word_byte_def bit_or_iff bit_and_iff bit_not_iff bit_push_bit_iff
        bit_ucast_iff)
qed

lemma bit_poke_byte:
  assumes "i div 64 < length ws"
  shows "bit (poke_byte ws j b ! (i div 64)) (i mod 64) =
    (if i div 8 = j then bit b (i mod 8) else bit (ws ! (i div 64)) (i mod 64))"
proof -
  have "i mod (8 * 8) = 8 * (i div 8 mod 8) + i mod 8" by (rule mod_mult2_eq)
  moreover have "(8 * a + b) div 8 = a" "(8 * a + b) mod 8 = b" if "b < 8" for a b :: nat
    using that by auto
  ultimately have "(i mod (8 * 8)) div 8 = i div 8 mod 8" "(i mod (8 * 8)) mod 8 = i mod 8"
    by (metis mod_less_divisor zero_less_numeral)+
  then have d: "i div 8 div 8 = i div 64" "(i mod 64) div 8 = i div 8 mod 8"
      "i mod 64 mod 8 = i mod 8"
    by (simp_all only: div_mult2_eq [symmetric]) simp_all
  have "i div 8 = j \<longleftrightarrow> i div 8 div 8 = j div 8 \<and> i div 8 mod 8 = j mod 8"
    by (metis div_mult_mod_eq)
  then have j: "i div 8 = j \<longleftrightarrow> i div 64 = j div 8 \<and> (i mod 64) div 8 = j mod 8"
    by (simp only: d)
  have "bit (set_word_byte (ws ! (i div 64)) (j mod 8) b) (i mod 64) =
      (if (i mod 64) div 8 = j mod 8 then bit b (i mod 8) else bit (ws ! (i div 64)) (i mod 64))"
    by (subst bit_set_word_byte) (simp, simp, simp only: d(3))
  with assms j show ?thesis
    by (cases "i div 64 = j div 8") (simp_all only: poke_byte_def nth_list_update_eq
        nth_list_update_neq simp_thms if_True if_False)
qed

lemma poke_fold:
  assumes "i div 64 < length ws"
  shows "length (fold (\<lambda>j ws. poke_byte ws j (f j)) [0 ..< n] ws) = length ws"
    and "bit (fold (\<lambda>j ws. poke_byte ws j (f j)) [0 ..< n] ws ! (i div 64)) (i mod 64) =
      (if i div 8 < n then bit (f (i div 8)) (i mod 8) else bit (ws ! (i div 64)) (i mod 64))"
proof (induction n)
  case 0
  { case 1 show ?case by simp }
  { case 2 show ?case by simp }
next
  case (Suc n)
  { case 1 show ?case using Suc(1) by (simp add: poke_byte_def) }
  { case 2 show ?case using Suc assms by (auto simp: bit_poke_byte less_Suc_eq) }
qed

lemma poke_fold_out:
  "k < length ws \<Longrightarrow> n \<le> 8 * k \<Longrightarrow>
     fold (\<lambda>j ws. poke_byte ws j (f j)) [0 ..< n] ws ! k = ws ! k"
proof (induction n)
  case (Suc n)
  then show ?case by (auto simp: poke_byte_def nth_list_update)
qed simp

text \<open>The words after the byte copy at the start of \<^verbatim>\<open>load_mask\<close> and \<^verbatim>\<open>clear_mask\<close>.\<close>

lemma poke_prefix:
  fixes ba :: spdk_bit_array and f :: "nat \<Rightarrow> u8"
  defines "sz \<equiv> unat (bit_count ba) div 8"
  defines "ba' \<equiv> ba\<lparr>words := fold (\<lambda>j ws. poke_byte ws j (f j)) [0 ..< sz] (words ba)\<rparr>"
  assumes wf: "ba_wf ba"
  shows "ba_wf ba'"
    and "\<And>i. i < 64 * bit_array_word_count (bit_count ba) \<Longrightarrow>
      ba_bit ba' i = (if i div 8 < sz then bit (f (i div 8)) (i mod 8) else ba_bit ba i)"
proof -
  let ?wc = "bit_array_word_count (bit_count ba)"
  have "sz \<le> 8 * ?wc" using word_count_bounds(1) [of "bit_count ba"] by (simp add: sz_def)
  moreover have "0 div 64 < length (words ba)" using wf by (simp add: ba_wf_def)
  ultimately show "ba_wf ba'"
    using wf poke_fold(1) [of 0 "words ba" f sz] poke_fold_out [of ?wc "words ba" sz f]
    by (simp add: ba_wf_def ba'_def)
  fix i assume "i < 64 * ?wc"
  with wf have "i div 64 < length (words ba)" by (rule wf_word_index)
  from poke_fold(2) [OF this, of f sz]
  show "ba_bit ba' i = (if i div 8 < sz then bit (f (i div 8)) (i mod 8) else ba_bit ba i)"
    by (simp add: ba_bit_def ba'_def)
qed

text \<open>One bit after another: the loop over the last, partial byte.\<close>

definition put_bit :: "spdk_bit_array \<Rightarrow> u32 \<Rightarrow> bool \<Rightarrow> spdk_bit_array" where
  "put_bit b i v =
     (if v then (case spdk_bit_array_set b i of Inl _ \<Rightarrow> b | Inr b' \<Rightarrow> b')
      else spdk_bit_array_clear b i)"

lemma put_bit_frame:
  assumes "ba_wf b"
  shows "ba_wf (put_bit b i v)" and "bit_count (put_bit b i v) = bit_count b"
  using assms set_frame [OF assms] clear_frame [OF assms]
  by (auto simp: put_bit_def split: sum.splits)

lemma put_bit_bit:
  assumes "ba_wf b" "unat i < unat (bit_count b)" "j < 64 * bit_array_word_count (bit_count b)"
  shows "ba_bit (put_bit b i v) j = (if j = unat i then v else ba_bit b j)"
proof -
  note j = wf_word_index [OF assms(1,3)]
  obtain b' where "spdk_bit_array_set b i = Inr b'"
    using assms(2) by (auto simp: set_Inr_iff)
  then show ?thesis
    using assms(2) set_ba_bit [OF assms(1) _ j] clear_ba_bit [OF assms(1) j]
    by (auto simp: put_bit_def)
qed

lemma put_bits_fold:
  fixes v :: "nat \<Rightarrow> bool"
  assumes "ba_wf b" and "lo + n \<le> unat (bit_count b)"
  defines "r \<equiv> fold (\<lambda>i b. put_bit b (of_nat (i + lo)) (v i)) [0 ..< n] b"
  shows "ba_wf r \<and> bit_count r = bit_count b \<and>
    (\<forall>j < 64 * bit_array_word_count (bit_count b).
       ba_bit r j = (if lo \<le> j \<and> j < lo + n then v (j - lo) else ba_bit b j))"
  using assms(2) unfolding r_def
proof (induction n)
  case 0
  with assms(1) show ?case by auto
next
  case (Suc n)
  let ?b = "fold (\<lambda>i b. put_bit b (of_nat (i + lo)) (v i)) [0 ..< n] b"
  have IH: "ba_wf ?b" "bit_count ?b = bit_count b"
    "\<forall>j < 64 * bit_array_word_count (bit_count b).
       ba_bit ?b j = (if lo \<le> j \<and> j < lo + n then v (j - lo) else ba_bit b j)"
    using Suc by auto
  have idx: "unat (of_nat (n + lo) :: u32) = n + lo"
    using Suc.prems unat_u32_bound [of "bit_count b"] by (intro unat_of_nat_u32) linarith
  with Suc.prems IH put_bit_frame [OF IH(1)] put_bit_bit [OF IH(1), of "of_nat (n + lo)"]
  show ?case by (auto simp: less_Suc_eq add.commute)
qed

lemma load_mask_put_bits:
  "spdk_bit_array_load_mask ba msk =
     (let sz = unat (bit_count ba) div 8 in
      fold (\<lambda>i b. put_bit b (of_nat (i + sz * 8)) (bit (msk ! sz) i)) [0 ..< unat (bit_count ba) mod 8]
        (ba\<lparr>words := fold (\<lambda>j ws. poke_byte ws j (msk ! j)) [0 ..< sz] (words ba)\<rparr>))"
proof -
  have "(b :: u8) AND push_bit i 1 \<noteq> 0 \<longleftrightarrow> bit b i" for b i
    by (metis and_exp_eq_0_iff_not_bit push_bit_of_1)
  then show ?thesis
    by (simp only: spdk_bit_array_load_mask_def spdk_bit_array_capacity_def put_bit_def Let_def)
qed

lemma clear_mask_put_bits:
  "spdk_bit_array_clear_mask ba =
     (let sz = unat (bit_count ba) div 8 in
      fold (\<lambda>i b. put_bit b (of_nat (i + sz * 8)) False) [0 ..< unat (bit_count ba) mod 8]
        (ba\<lparr>words := fold (\<lambda>j ws. poke_byte ws j 0) [0 ..< sz] (words ba)\<rparr>))"
  by (simp only: if_False spdk_bit_array_clear_mask_def spdk_bit_array_capacity_def put_bit_def Let_def)

lemma put_mask_correct:
  fixes ba :: spdk_bit_array and f :: "nat \<Rightarrow> u8" and g :: "nat \<Rightarrow> bool"
  defines "sz \<equiv> unat (bit_count ba) div 8"
  assumes wf: "ba_wf ba" and fg: "\<And>k. k < 8 \<Longrightarrow> g k = bit (f sz) k"
  defines "r \<equiv> fold (\<lambda>i b. put_bit b (of_nat (i + sz * 8)) (g i)) [0 ..< unat (bit_count ba) mod 8]
        (ba\<lparr>words := fold (\<lambda>j ws. poke_byte ws j (f j)) [0 ..< sz] (words ba)\<rparr>)"
  shows "ba_wf r" and "bit_count r = bit_count ba"
    and "\<And>i. i < 64 * bit_array_word_count (bit_count ba) \<Longrightarrow>
      ba_bit r i = (if i < unat (bit_count ba) then bit (f (i div 8)) (i mod 8) else ba_bit ba i)"
proof -
  let ?n = "unat (bit_count ba)"
  let ?b = "ba\<lparr>words := fold (\<lambda>j ws. poke_byte ws j (f j)) [0 ..< sz] (words ba)\<rparr>"
  note b = poke_prefix [OF wf, where f = f, folded sz_def]
  have n: "sz * 8 + ?n mod 8 = ?n" by (simp add: sz_def)
  have r: "ba_wf r" "bit_count r = bit_count ba"
    "\<And>j. j < 64 * bit_array_word_count (bit_count ba) \<Longrightarrow>
       ba_bit r j = (if sz * 8 \<le> j \<and> j < ?n then g (j - sz * 8) else ba_bit ?b j)"
    using put_bits_fold [OF b(1), of "sz * 8" "?n mod 8" g] n by (simp_all add: r_def)
  then show "ba_wf r" "bit_count r = bit_count ba" by simp_all
  fix i assume i: "i < 64 * bit_array_word_count (bit_count ba)"
  show "ba_bit r i = (if i < ?n then bit (f (i div 8)) (i mod 8) else ba_bit ba i)"
  proof (cases "sz * 8 \<le> i \<and> i < ?n")
    case True
    then have "i div 8 = sz" by (auto simp: sz_def)
    moreover from this have "i - sz * 8 = i mod 8" by (metis minus_div_mult_eq_mod)
    moreover note True
    ultimately have "i div 8 = sz" "i - sz * 8 = i mod 8" "sz * 8 \<le> i" "i < ?n" by simp_all
    with r(3) [OF i] fg show ?thesis by simp
  next
    case False
    then have "i div 8 < sz \<longleftrightarrow> i < ?n"
      using n by (auto simp: sz_def)
    with False r(3) [OF i] b(2) [OF i] show ?thesis by auto
  qed
qed

text \<open>Loading a mask stores its bits below the bit count and no others.\<close>

lemma load_mask_correct:
  assumes "ba_wf ba"
  shows "ba_wf (spdk_bit_array_load_mask ba msk)"
    and "bit_count (spdk_bit_array_load_mask ba msk) = bit_count ba"
    and "\<And>i. i < 64 * bit_array_word_count (bit_count ba) \<Longrightarrow>
      ba_bit (spdk_bit_array_load_mask ba msk) i =
      (if i < unat (bit_count ba) then bit (msk ! (i div 8)) (i mod 8) else ba_bit ba i)"
  using put_mask_correct [OF assms, of _ "\<lambda>j. msk ! j"]
  by (simp_all add: load_mask_put_bits Let_def)

lemma clear_mask_correct:
  assumes "ba_wf ba"
  shows "ba_wf (spdk_bit_array_clear_mask ba)"
    and "bit_count (spdk_bit_array_clear_mask ba) = bit_count ba"
    and "\<And>i. i < 64 * bit_array_word_count (bit_count ba) \<Longrightarrow>
      ba_bit (spdk_bit_array_clear_mask ba) i = (unat (bit_count ba) \<le> i \<and> ba_bit ba i)"
  using put_mask_correct [OF assms, of "\<lambda>_. False" "\<lambda>_. 0"]
  by (simp_all add: clear_mask_put_bits Let_def)

lemma load_mask_clean: "ba_wf ba \<Longrightarrow> ba_clean ba \<Longrightarrow> ba_clean (spdk_bit_array_load_mask ba msk)"
  by (auto intro!: ba_cleanI simp: load_mask_correct ba_clean_def)

lemma clear_mask_clean: "ba_wf ba \<Longrightarrow> ba_clean ba \<Longrightarrow> ba_clean (spdk_bit_array_clear_mask ba)"
  by (auto intro!: ba_cleanI simp: clear_mask_correct ba_clean_def)

lemma store_tail_fold:
  fixes v :: "nat \<Rightarrow> bool" and m :: "u8 list"
  assumes "sz < length m" and "n \<le> 8"
  defines "r \<equiv> fold (\<lambda>i m. m[sz := (if v i then m ! sz OR push_bit i 1
      else m ! sz AND NOT (push_bit i 1))]) [0 ..< n] m"
  shows "length r = length m \<and> (\<forall>k. k \<noteq> sz \<longrightarrow> r ! k = m ! k) \<and> (\<forall>k < n. bit (r ! sz) k = v k)"
  using assms(2) unfolding r_def
proof (induction n)
  case 0
  show ?case by simp
next
  case (Suc n)
  then have "n < 8" by simp
  with Suc assms(1) show ?case
    by (auto simp: less_Suc_eq bit_or_iff bit_and_iff bit_not_iff bit_exp_iff)
qed

lemma store_mask_correct:
  assumes wf: "ba_wf ba" and room: "unat (bit_count ba) \<le> 8 * length msk"
    and i: "i < unat (bit_count ba)"
  shows "bit (spdk_bit_array_store_mask ba msk ! (i div 8)) (i mod 8) = ba_bit ba i"
proof -
  define n where "n = unat (bit_count ba)"
  define sz where "sz = n div 8"
  define copied where
    "copied = map (\<lambda>j. word_byte (words ba ! (j div 8)) (j mod 8)) [0 ..< sz] @ drop sz msk"
  define v where "v = (\<lambda>k. spdk_bit_array_get ba (of_nat (k + sz * 8)))"
  have store: "spdk_bit_array_store_mask ba msk =
      fold (\<lambda>i m. m[sz := (if v i then m ! sz OR push_bit i 1
        else m ! sz AND NOT (push_bit i 1))]) [0 ..< n mod 8] copied"
    by (simp only: spdk_bit_array_store_mask_def spdk_bit_array_capacity_def Let_def n_def sz_def
        copied_def v_def)
  have byte: "bit (copied ! (i div 8)) (i mod 8) = ba_bit ba i" if "i div 8 < sz"
    using that mod_mult2_eq [of i 8 8]
    by (simp add: copied_def nth_append bit_word_byte ba_bit_def div_mult2_eq [symmetric])
  have split: "i div 8 < sz \<or> i div 8 = sz \<and> i mod 8 < n mod 8"
    using i div_le_mono [of i n 8] div_eq_less_mod [of i 8 n] by (auto simp: n_def sz_def)
  show ?thesis
  proof (cases "n mod 8 = 0")
    case True
    with split store byte show ?thesis by auto
  next
    case False
    then have "sz < length msk"
      using room mult_div_mod_eq [of 8 n] unfolding n_def sz_def by linarith
    then have "sz < length copied" by (simp add: copied_def)
    from store_tail_fold [OF this, of "n mod 8" v]
    have tail: "\<forall>k. k \<noteq> sz \<longrightarrow> spdk_bit_array_store_mask ba msk ! k = copied ! k"
      "\<forall>k < n mod 8. bit (spdk_bit_array_store_mask ba msk ! sz) k = v k"
      by (simp_all only: store) auto
    show ?thesis
    proof (cases "i div 8 < sz")
      case True
      with tail(1) byte show ?thesis by simp
    next
      case False
      with split have eq: "i div 8 = sz" "i mod 8 < n mod 8" by auto
      then have "i mod 8 + sz * 8 = i" by (metis mod_div_mult_eq)
      then have "v (i mod 8) = ba_bit ba i"
        using i unat_of_nat_u32 [of i] less_trans [OF i unat_u32_bound]
        by (simp only: v_def get_eq_ba_bit) simp
      with tail(2) eq show ?thesis by simp
    qed
  qed
qed

section \<open>Properties\<close>

text \<open>C15 (functional). A well-formed array whose bit count is at most \<open>2 ^ 32 - 64\<close>:
  \<^verbatim>\<open>spdk_bit_array_find_first_set\<close> stops inside the words for every start index and
  returns the least set index from the start on, or \<^verbatim>\<open>UINT32_MAX\<close> if there is none.\<close>

theorem find_first_set_least:
  assumes "ba_wf ba" and "unat (bit_count ba) \<le> 4294967232"
  shows "spdk_bit_array_find_first_set ba start =
    Inr (first_index (spdk_bit_array_get ba \<circ> of_nat) (unat start) (unat (bit_count ba)))"
proof -
  have "find (ba_bit ba) [unat start ..< unat (bit_count ba)] =
      find (spdk_bit_array_get ba \<circ> of_nat) [unat start ..< unat (bit_count ba)]"
    using less_trans [OF _ unat_u32_bound [of "bit_count ba"]]
    by (intro find_cong) (auto simp: get_eq_ba_bit unat_of_nat_u32)
  with find_first_set_correct [OF assms] show ?thesis by (simp add: first_index_def)
qed

lemma find_first_set_least_witness:
  "ba_wf \<lparr>bit_count = 70, words = [0, 4, 2]\<rparr> \<and>
   spdk_bit_array_find_first_set \<lparr>bit_count = 70, words = [0, 4, 2]\<rparr> 60 = Inr 66"
proof -
  let ?ba = "\<lparr>bit_count = 70, words = [0, 4, 2]\<rparr> :: spdk_bit_array"
  have wf: "ba_wf ?ba" by code_simp
  have "unat (bit_count ?ba) \<le> 4294967232" by simp
  moreover have "first_index (spdk_bit_array_get ?ba \<circ> of_nat) (unat (60 :: u32))
      (unat (bit_count ?ba)) = 66" by code_simp
  ultimately show ?thesis using wf find_first_set_least [OF wf, of 60] by simp
qed

text \<open>A well-formed array whose bits past the count are clear:
  \<^verbatim>\<open>spdk_bit_array_find_first_clear\<close> returns the least clear index from the start on,
  or \<^verbatim>\<open>UINT32_MAX\<close> if every bit is set, for every bit count the array can have.\<close>

theorem find_first_clear_least:
  assumes "ba_wf ba" and "ba_clean ba"
  shows "spdk_bit_array_find_first_clear ba start =
    Inr (first_index (\<lambda>i. \<not> spdk_bit_array_get ba (of_nat i)) (unat start) (unat (bit_count ba)))"
proof -
  have "find (\<lambda>i. \<not> ba_bit ba i) [unat start ..< unat (bit_count ba)] =
      find (\<lambda>i. \<not> spdk_bit_array_get ba (of_nat i)) [unat start ..< unat (bit_count ba)]"
    using less_trans [OF _ unat_u32_bound [of "bit_count ba"]]
    by (intro find_cong) (auto simp: get_eq_ba_bit unat_of_nat_u32)
  with find_first_clear_correct [OF assms] show ?thesis by (simp add: first_index_def)
qed

lemma ba_clean_code:
  "ba_clean ba \<longleftrightarrow> list_all (\<lambda>i. \<not> ba_bit ba i)
     [unat (bit_count ba) ..< 64 * bit_array_word_count (bit_count ba)]"
  by (auto simp: ba_clean_def list_all_iff)

lemma find_first_clear_least_witness:
  "ba_wf \<lparr>bit_count = 66, words = [- 1, 1, 2]\<rparr> \<and> ba_clean \<lparr>bit_count = 66, words = [- 1, 1, 2]\<rparr> \<and>
   spdk_bit_array_find_first_clear \<lparr>bit_count = 66, words = [- 1, 1, 2]\<rparr> 3 = Inr 65"
proof -
  let ?ba = "\<lparr>bit_count = 66, words = [- 1, 1, 2]\<rparr> :: spdk_bit_array"
  have wf: "ba_wf ?ba" by code_simp
  have clean: "ba_clean ?ba" unfolding ba_clean_code by code_simp
  have "first_index (\<lambda>i. \<not> spdk_bit_array_get ?ba (of_nat i)) (unat (3 :: u32))
      (unat (bit_count ?ba)) = 65" by code_simp
  then show ?thesis using wf clean find_first_clear_least [OF wf clean, of 3] by simp
qed

text \<open>A mask stored from one array and loaded into another of the same bit
  count makes every \<^verbatim>\<open>spdk_bit_array_get\<close> of the second return what it returns on the
  first, whatever the buffer held, as long as the buffer has room for the bits.\<close>

theorem mask_roundtrip:
  assumes "ba_wf a" and "ba_wf b" and "bit_count b = bit_count a"
    and "unat (bit_count a) \<le> 8 * length msk"
  shows "spdk_bit_array_get (spdk_bit_array_load_mask b (spdk_bit_array_store_mask a msk)) i =
    spdk_bit_array_get a i"
proof (cases "unat i < unat (bit_count a)")
  case True
  then have "unat i < 64 * bit_array_word_count (bit_count b)"
    using word_count_bounds(1) [of "bit_count b"] assms(3) by simp
  with True assms show ?thesis
    by (simp add: get_eq_ba_bit load_mask_correct store_mask_correct)
next
  case False
  with assms show ?thesis by (simp add: get_eq_ba_bit load_mask_correct)
qed

lemma mask_roundtrip_witness:
  "spdk_bit_array_get (spdk_bit_array_load_mask \<lparr>bit_count = 11, words = [0, 2]\<rparr>
     (spdk_bit_array_store_mask \<lparr>bit_count = 11, words = [0x503, 2]\<rparr> [7, 7])) 10"
proof -
  let ?a = "\<lparr>bit_count = 11, words = [0x503, 2]\<rparr> :: spdk_bit_array"
  let ?b = "\<lparr>bit_count = 11, words = [0, 2]\<rparr> :: spdk_bit_array"
  have "ba_wf ?a" "ba_wf ?b" "unat (bit_count ?a) \<le> 8 * length [7, 7 :: u8]"
    "spdk_bit_array_get ?a 10" by code_simp+
  then show ?thesis using mask_roundtrip [of ?a ?b "[7, 7]" 10] by simp
qed

text \<open>Growing an array, or shrinking it without dropping a partial word,
  keeps every bit below both counts, reads every new bit as clear, and keeps the count of set
  bits exact.\<close>

theorem resize_grow_correct:
  assumes "ba_wf ba" and "ba_clean ba" and "bit_count ba \<le> n" and "n \<noteq> UINT32_MAX"
  shows "\<exists>ba'. spdk_bit_array_resize (Some g) (Some (Some ba)) n = Inr ba' \<and>
    ba_wf ba' \<and> ba_clean ba' \<and> bit_count ba' = n \<and>
    (\<forall>i. spdk_bit_array_get ba' i = spdk_bit_array_get ba i) \<and>
    spdk_bit_array_count_set ba' = spdk_bit_array_count_set ba"
proof -
  obtain ba' where r: "spdk_bit_array_resize (Some g) (Some (Some ba)) n = Inr ba'"
    using assms(4) by (simp add: spdk_bit_array_resize_def Let_def)
  let ?o = "bit_array_word_count (bit_count ba)" and ?n = "bit_array_word_count n"
  have le: "?o \<le> ?n" using assms(3) by (simp add: bit_array_word_count_def word_le_nat_alt div_le_mono)
  have clean: "ba_clean ba'" using resize_clean [OF assms(1,2) r] le by blast
  note wf = resize_wf [OF assms(1) r] and cnt = resize_words(1) [OF assms(1) r]
  have bits: "ba_bit ba' i \<longleftrightarrow> i < unat (bit_count ba) \<and> ba_bit ba i" if "i < unat n" for i
  proof (cases "i < unat (bit_count ba)")
    case True
    with that resize_keeps_bits [OF assms(1) r] show ?thesis by simp
  next
    case False
    have "i div 64 < ?n" using that by (rule index_in_words)
    moreover have "\<not> ba_bit ba i" if "i div 64 < ?o"
      using False assms(2) that by (simp add: ba_clean_def)
    ultimately show ?thesis using False
      by (auto simp: ba_bit_def resize_words(4) [OF assms(1) r] bit_and_iff)
  qed
  then have "ba_set_bits ba' = ba_set_bits ba"
    using assms(3) by (auto simp: ba_set_bits_def cnt word_le_nat_alt)
  then have "spdk_bit_array_count_set ba' = spdk_bit_array_count_set ba"
    using count_set_correct [OF wf clean] count_set_correct [OF assms(1,2)] by simp
  moreover have "\<forall>i. spdk_bit_array_get ba' i = spdk_bit_array_get ba i"
    using bits assms(3) by (auto simp: get_eq_ba_bit cnt word_le_nat_alt)
  ultimately show ?thesis using r wf clean cnt by blast
qed

lemma resize_grow_correct_witness:
  "\<exists>ba'. spdk_bit_array_resize (Some (\<lambda>_. 7)) (Some (Some \<lparr>bit_count = 3, words = [5, 2]\<rparr>)) 70 = Inr ba' \<and>
    bit_count ba' = 70 \<and> spdk_bit_array_get ba' 2 \<and> \<not> spdk_bit_array_get ba' 64"
proof -
  let ?ba = "\<lparr>bit_count = 3, words = [5, 2]\<rparr> :: spdk_bit_array"
  have h: "ba_wf ?ba" "bit_count ?ba \<le> 70" "(70 :: u32) \<noteq> UINT32_MAX"
    "spdk_bit_array_get ?ba 2" "\<not> spdk_bit_array_get ?ba 64" by code_simp+
  have clean: "ba_clean ?ba" unfolding ba_clean_code by code_simp
  show ?thesis using resize_grow_correct [OF h(1) clean h(2,3), of "\<lambda>_. 7"] h(4,5) by auto
qed

text \<open>The comment in \<^verbatim>\<open>spdk_bit_array_count_set\<close> says that resizing
  clears the bits past the count. Shrinking 200 bits with bit 100 set to 70 bits leaves bit 100
  in the second word: the count of set bits is 1 although no bit is set, and growing back to
  128 bits makes bit 100 set again.\<close>

theorem resize_shrink_keeps_stale_bits:
  "\<exists>ba ba'. spdk_bit_array_resize (Some g) (Some (Some \<lparr>bit_count = 200,
        words = [0, 0x1000000000, 0, 0, 2]\<rparr>)) 70 = Inr ba \<and>
     ba_set_bits ba = {} \<and> spdk_bit_array_count_set ba = 1 \<and>
     spdk_bit_array_resize (Some g) (Some (Some ba)) 128 = Inr ba' \<and>
     spdk_bit_array_get ba' 100"
proof (intro exI conjI)
  let ?ba = "\<lparr>bit_count = 70, words = [0, 0x1000000000, 2]\<rparr> :: spdk_bit_array"
  let ?ba' = "\<lparr>bit_count = 128, words = [0, 0x1000000000, 2]\<rparr> :: spdk_bit_array"
  show "spdk_bit_array_resize (Some g) (Some (Some \<lparr>bit_count = 200,
        words = [0, 0x1000000000, 0, 0, 2]\<rparr>)) 70 = Inr ?ba"
    by (simp add: spdk_bit_array_resize_def bit_array_word_count_def realloc_words_def Let_def)
  show "spdk_bit_array_resize (Some g) (Some (Some ?ba)) 128 = Inr ?ba'"
    by (simp add: spdk_bit_array_resize_def bit_array_word_count_def realloc_words_def Let_def)
  have "list_all (\<lambda>i. \<not> ba_bit ?ba i) [0 ..< unat (bit_count ?ba)]" by code_simp
  then show "ba_set_bits ?ba = {}" by (auto simp: ba_set_bits_def list_all_iff)
  show "spdk_bit_array_count_set ?ba = 1" by code_simp
  show "spdk_bit_array_get ?ba' 100" by code_simp
qed

text \<open>C16 (bounds). \<^verbatim>\<open>spdk_bit_array_resize\<close> accepts every count up to
  \<^verbatim>\<open>UINT32_MAX - 1\<close>, but with more than \<open>2 ^ 32 - 64\<close> bits the sentinel lies past
  the 32-bit range: on a fresh array of \<^verbatim>\<open>UINT32_MAX - 1\<close> clear bits the truncated
  position is 1, and \<^verbatim>\<open>spdk_bit_array_find_first_set\<close> reports bit 1 as set.\<close>

theorem find_first_set_wraps:
  assumes "spdk_bit_array_create (Some g) (UINT32_MAX - 1) = Some ba"
  shows "ba_set_bits ba = {} \<and> spdk_bit_array_find_first_set ba 0 = Inr 1"
proof -
  note c = create_ba [OF assms]
  have n: "unat (bit_count ba) = 4294967294" by (simp add: c(2))
  have wc: "bit_array_word_count (bit_count ba) = 67108864" by (simp add: bit_array_word_count_def n)
  have clear: "\<not> ba_bit ba i" if "i < 4294967296" for i using c(3) [of i] wc that by (simp add: c(2))
  have "unat (0 :: u32) < unat (bit_count ba)" "(2 :: u64) XOR 0 \<noteq> 0" using n by simp_all
  from bit_array_find_first_correct [OF c(1) this] obtain p where
    p: "bit_array_find_first ba 0 0 = Inr (of_nat p)" "p div 64 \<le> 67108864"
      "bit (words ba ! (p div 64)) (p mod 64)"
    by (metis wc xor.right_neutral)
  have "\<not> p < 4294967296" using p(3) clear [of p] by (auto simp: ba_bit_def)
  then have d: "p div 64 = 67108864" using p(2) div_le_mono [of 4294967296 p 64] by simp
  then have "p mod 64 = 1" using sentinel_bits [OF c(1), of p] p(3) wc by simp
  with d have "p = 4294967297" using div_mult_mod_eq [of p 64] by simp
  with p(1) have "bit_array_find_first ba 0 0 = Inr 1" by simp
  then show ?thesis
    using clear n by (auto simp: spdk_bit_array_find_first_set_def word_le_nat_alt ba_set_bits_def)
qed

lemma find_first_set_wraps_witness:
  "\<exists>ba. spdk_bit_array_create (Some (\<lambda>_. 0)) (UINT32_MAX - 1) = Some ba \<and>
     spdk_bit_array_find_first_set ba 0 = Inr 1"
proof -
  have "(- 1 - 1 :: u32) \<noteq> - 1" by simp
  then obtain ba where "spdk_bit_array_create (Some (\<lambda>_. 0)) (UINT32_MAX - 1) = Some ba"
    by (simp add: spdk_bit_array_create_def spdk_bit_array_resize_def Let_def)
  with find_first_set_wraps show ?thesis by blast
qed

end
