(* ===== verification/Bit_Pool.thy ===== *)
theory Bit_Pool
  imports Bit_Array
begin

text \<open>
  The bit pool of \<^verbatim>\<open>lib/util/bit_array.c\<close>: an allocator of indices over a bit array, with
  the lowest free index and the number of free indices cached. Its contract is the interface
  \<open>id_allocator\<close>, interpreted on the pool below and used by the blobstore's cluster allocator.
\<close>

section \<open>Model\<close>

record spdk_bit_pool =
  array :: spdk_bit_array
  lowest_free_bit :: u32
  free_count :: u32

text \<open>\<open>calloc_ok\<close> is whether the allocation of the pool object succeeds.\<close>

definition spdk_bit_pool_create ::
  "(nat \<Rightarrow> u64) option \<Rightarrow> bool \<Rightarrow> u32 \<Rightarrow> spdk_bit_pool option" where
  "spdk_bit_pool_create mem calloc_ok num_bits =
     (case spdk_bit_array_create mem num_bits of
        None \<Rightarrow> None
      | Some arr \<Rightarrow>
          if \<not> calloc_ok then None
          else Some \<lparr>array = arr, lowest_free_bit = 0, free_count = num_bits\<rparr>)"

definition spdk_bit_pool_create_from_array ::
  "bool \<Rightarrow> spdk_bit_array \<Rightarrow> spdk_bit_pool option res" where
  "spdk_bit_pool_create_from_array calloc_ok arr =
     (if \<not> calloc_ok then Inr None
      else map_sum id (\<lambda>low. Some \<lparr>array = arr, lowest_free_bit = low,
               free_count = spdk_bit_array_count_clear arr\<rparr>)
             (spdk_bit_array_find_first_clear arr 0))"

definition spdk_bit_pool_resize ::
  "(nat \<Rightarrow> u64) option \<Rightarrow> spdk_bit_pool \<Rightarrow> u32 \<Rightarrow> spdk_bit_pool res" where
  "spdk_bit_pool_resize mem pool num_bits =
     (case spdk_bit_array_resize mem (Some (Some (array pool))) num_bits of
        Inl e \<Rightarrow> Inl e
      | Inr arr \<Rightarrow>
          map_sum id (\<lambda>low. pool\<lparr>array := arr, lowest_free_bit := low,
                 free_count := spdk_bit_array_count_clear arr\<rparr>)
            (spdk_bit_array_find_first_clear arr 0))"

definition spdk_bit_pool_capacity :: "spdk_bit_pool \<Rightarrow> u32" where
  "spdk_bit_pool_capacity pool = spdk_bit_array_capacity (array pool)"

definition spdk_bit_pool_is_allocated :: "spdk_bit_pool \<Rightarrow> u32 \<Rightarrow> bool" where
  "spdk_bit_pool_is_allocated pool bit_index = spdk_bit_array_get (array pool) bit_index"

text \<open>The code ignores the result of \<^verbatim>\<open>spdk_bit_array_set\<close> here.\<close>

definition spdk_bit_pool_allocate_bit :: "spdk_bit_pool \<Rightarrow> (u32 \<times> spdk_bit_pool) res" where
  "spdk_bit_pool_allocate_bit pool =
     (let bit_index = lowest_free_bit pool in
      if bit_index = UINT32_MAX then Inr (UINT32_MAX, pool)
      else
        (let arr = (case spdk_bit_array_set (array pool) bit_index of
                      Inl _ \<Rightarrow> array pool | Inr arr \<Rightarrow> arr)
         in map_sum id (\<lambda>low. (bit_index, pool\<lparr>array := arr, lowest_free_bit := low,
                  free_count := free_count pool - 1\<rparr>))
              (spdk_bit_array_find_first_clear arr bit_index)))"

definition spdk_bit_pool_set_bit_allocated :: "spdk_bit_pool \<Rightarrow> u32 \<Rightarrow> spdk_bit_pool res" where
  "spdk_bit_pool_set_bit_allocated pool bit_index =
     (if spdk_bit_array_get (array pool) bit_index then Inl (Errno EBUSY)
      else case spdk_bit_array_set (array pool) bit_index of
        Inl e \<Rightarrow> Inl e
      | Inr arr \<Rightarrow>
          map_sum id (\<lambda>low. pool\<lparr>array := arr, lowest_free_bit := low,
                 free_count := free_count pool - 1\<rparr>)
            (if lowest_free_bit pool = bit_index
             then spdk_bit_array_find_first_clear arr bit_index
             else Inr (lowest_free_bit pool)))"

definition spdk_bit_pool_free_bit :: "spdk_bit_pool \<Rightarrow> u32 \<Rightarrow> spdk_bit_pool res" where
  "spdk_bit_pool_free_bit pool bit_index =
     (if \<not> spdk_bit_array_get (array pool) bit_index then Inl AssertFail
      else Inr (pool\<lparr>array := spdk_bit_array_clear (array pool) bit_index,
                  lowest_free_bit :=
                    (if bit_index < lowest_free_bit pool then bit_index else lowest_free_bit pool),
                  free_count := free_count pool + 1\<rparr>))"

definition spdk_bit_pool_count_allocated :: "spdk_bit_pool \<Rightarrow> u32" where
  "spdk_bit_pool_count_allocated pool = spdk_bit_array_capacity (array pool) - free_count pool"

definition spdk_bit_pool_count_free :: "spdk_bit_pool \<Rightarrow> u32" where
  "spdk_bit_pool_count_free pool = free_count pool"

definition spdk_bit_pool_store_mask :: "spdk_bit_pool \<Rightarrow> u8 list \<Rightarrow> u8 list" where
  "spdk_bit_pool_store_mask pool msk = spdk_bit_array_store_mask (array pool) msk"

definition spdk_bit_pool_load_mask :: "spdk_bit_pool \<Rightarrow> u8 list \<Rightarrow> spdk_bit_pool res" where
  "spdk_bit_pool_load_mask pool msk =
     (let arr = spdk_bit_array_load_mask (array pool) msk in
      map_sum id (\<lambda>low. pool\<lparr>array := arr, lowest_free_bit := low,
             free_count := spdk_bit_array_count_clear arr\<rparr>)
        (spdk_bit_array_find_first_clear arr 0))"

definition spdk_bit_pool_free_all_bits :: "spdk_bit_pool \<Rightarrow> spdk_bit_pool" where
  "spdk_bit_pool_free_all_bits pool =
     (let arr = spdk_bit_array_clear_mask (array pool) in
      pool\<lparr>array := arr, lowest_free_bit := 0, free_count := spdk_bit_array_capacity arr\<rparr>)"

section \<open>Invariant\<close>

text \<open>The cached fields are those of the array, and the pool has at least one bit.\<close>

definition pool_inv :: "spdk_bit_pool \<Rightarrow> bool" where
  "pool_inv p \<longleftrightarrow> ba_wf (array p) \<and> ba_clean (array p) \<and> bit_count (array p) \<noteq> 0 \<and>
     lowest_free_bit p = first_index (\<lambda>i. \<not> ba_bit (array p) i) 0 (unat (bit_count (array p))) \<and>
     unat (free_count p) = unat (bit_count (array p)) - card (ba_set_bits (array p))"

lemma first_index_cases:
  assumes "hi < 4294967295"
  obtains (None) "first_index P lo hi = UINT32_MAX" "\<And>j. lo \<le> j \<Longrightarrow> j < hi \<Longrightarrow> \<not> P j"
  | (Some) j where "first_index P lo hi = of_nat j" "unat (first_index P lo hi) = j"
      "first_index P lo hi \<noteq> UINT32_MAX" "lo \<le> j" "j < hi" "P j"
      "\<And>k. lo \<le> k \<Longrightarrow> k < j \<Longrightarrow> \<not> P k"
proof (cases "find P [lo ..< hi]")
  case None
  then have "\<not> P j" if "lo \<le> j" "j < hi" for j using that by (auto simp: find_None_iff)
  with None show ?thesis using that(1) by (simp add: first_index_def)
next
  case (Some j)
  then obtain i where i: "i < length [lo ..< hi]" "j = [lo ..< hi] ! i" "P j"
    "\<And>k. k < i \<Longrightarrow> \<not> P ([lo ..< hi] ! k)" by (auto simp: find_Some_iff)
  then have j: "j = lo + i" "lo \<le> j" "j < hi" by auto
  have u: "unat (of_nat j :: u32) = j" using j(3) assms by (simp add: unat_of_nat_u32)
  then have "(of_nat j :: u32) \<noteq> UINT32_MAX" using j(3) assms by (metis less_irrefl less_trans unat_uint32_max)
  moreover have "\<not> P k" if "lo \<le> k" "k < j" for k
    using i(4) [of "k - lo"] that j by auto
  ultimately show ?thesis using that(2) [of j] Some i(3) j u by (simp add: first_index_def)
qed

lemma first_index_eqI:
  "lo \<le> j \<Longrightarrow> j < hi \<Longrightarrow> P j \<Longrightarrow> (\<And>k. lo \<le> k \<Longrightarrow> k < j \<Longrightarrow> \<not> P k) \<Longrightarrow>
     first_index P lo hi = of_nat j"
  by (simp add: first_index_def find_upt_Some)

lemma first_index_none: "(\<And>j. lo \<le> j \<Longrightarrow> j < hi \<Longrightarrow> \<not> P j) \<Longrightarrow> first_index P lo hi = UINT32_MAX"
  by (simp add: first_index_def find_upt_None)

lemma first_index_skip:
  assumes "lo \<le> m" and "\<And>j. lo \<le> j \<Longrightarrow> j < m \<Longrightarrow> \<not> P j" and "hi < 4294967295"
  shows "first_index P lo hi = first_index P m hi"
  using assms(3)
proof (cases rule: first_index_cases [of hi P m])
  case None
  then show ?thesis using assms(2) by (metis first_index_none not_le)
next
  case (Some j)
  then show ?thesis using assms(1,2) by (metis first_index_eqI le_trans not_le)
qed

lemma first_index_add:
  assumes hi: "hi < 4294967295" and i: "unat i < hi"
    and Q: "\<And>j. j < hi \<Longrightarrow> Q j = (j = unat i \<or> P j)"
  shows "first_index Q 0 hi = (if i < first_index P 0 hi then i else first_index P 0 hi)"
  using hi
proof (cases rule: first_index_cases [of hi P 0])
  case None
  then have "i < first_index P 0 hi" using i hi by (simp add: word_less_nat_alt)
  moreover have "first_index Q 0 hi = of_nat (unat i)"
    using None(2) Q i by (intro first_index_eqI) auto
  ultimately show ?thesis by simp
next
  case (Some j)
  have lt: "i < first_index P 0 hi \<longleftrightarrow> unat i < j" using Some(2) by (simp add: word_less_nat_alt)
  show ?thesis
  proof (cases "unat i < j")
    case True
    then have "first_index Q 0 hi = of_nat (unat i)"
      using Some(5,7) Q i by (intro first_index_eqI) auto
    with True lt show ?thesis by simp
  next
    case False
    then have "first_index Q 0 hi = of_nat j"
      using Some(5,6,7) Q by (intro first_index_eqI) auto
    with False lt Some(1) show ?thesis by simp
  qed
qed

lemma wf_bit_count: "ba_wf ba \<Longrightarrow> unat (bit_count ba) < 4294967295"
proof -
  assume "ba_wf ba"
  then have "unat (bit_count ba) \<noteq> unat UINT32_MAX"
    by (simp add: ba_wf_def word_unat_eq_iff del: unat_uint32_max)
  then show ?thesis using unat_u32_bound [of "bit_count ba"] unfolding unat_uint32_max by linarith
qed

section \<open>Operations on the set of allocated bits\<close>

lemma pool_invD:
  assumes "pool_inv p"
  shows "ba_wf (array p)" and "ba_clean (array p)" and "bit_count (array p) \<noteq> 0"
    and "lowest_free_bit p = first_index (\<lambda>i. \<not> ba_bit (array p) i) 0 (unat (bit_count (array p)))"
    and "unat (free_count p) = unat (bit_count (array p)) - card (ba_set_bits (array p))"
  using assms by (simp_all add: pool_inv_def)

lemma set_bits_set:
  assumes "ba_wf ba" and "spdk_bit_array_set ba i = Inr ba'"
  shows "ba_set_bits ba' = insert (unat i) (ba_set_bits ba)"
proof -
  have "unat i < unat (bit_count ba)" using assms(2) by (simp add: set_Inr_iff)
  then show ?thesis
    using set_ba_bit [OF assms] set_frame(2) [OF assms] wf_bit_index [OF assms(1)]
    by (auto simp: ba_set_bits_def)
qed

lemma set_bits_clear:
  assumes "ba_wf ba" and "unat i < unat (bit_count ba)"
  shows "ba_set_bits (spdk_bit_array_clear ba i) = ba_set_bits ba - {unat i}"
  using clear_ba_bit [OF assms(1)] clear_frame(2) [OF assms(1)] wf_bit_index [OF assms(1)] assms(2)
  by (auto simp: ba_set_bits_def)

text \<open>Both ways of taking a free bit: the array gets the bit, the caches follow.\<close>

lemma take_free_bit:
  assumes inv: "pool_inv p" and i: "unat i < unat (bit_count (array p))" "\<not> ba_bit (array p) (unat i)"
  obtains arr where "spdk_bit_array_set (array p) i = Inr arr" and "ba_wf arr" and "ba_clean arr"
    and "bit_count arr = bit_count (array p)"
    and "unat (free_count p - 1) = unat (bit_count arr) - card (ba_set_bits arr)"
    and "\<And>j. j < unat (bit_count arr) \<Longrightarrow> ba_bit arr j = (j = unat i \<or> ba_bit (array p) j)"
proof -
  note p = pool_invD [OF inv]
  obtain arr where arr: "spdk_bit_array_set (array p) i = Inr arr"
    using i(1) by (auto simp: set_Inr_iff)
  note fr = set_frame [OF p(1) arr]
  have "unat i \<notin> ba_set_bits (array p)" using i(2) by (simp add: ba_set_bits_def)
  then have card: "card (ba_set_bits arr) = card (ba_set_bits (array p)) + 1"
    by (simp add: set_bits_set [OF p(1) arr])
  then have "card (ba_set_bits (array p)) < unat (bit_count (array p))"
    using card_set_bits_le [of arr] fr(2) by simp
  then have "1 \<le> free_count p" using p(5) by (simp add: word_le_nat_alt)
  then have "unat (free_count p - 1) = unat (free_count p) - 1" by (simp add: unat_sub)
  with card p(5) fr(2) have "unat (free_count p - 1) = unat (bit_count arr) - card (ba_set_bits arr)"
    by simp
  moreover have "ba_bit arr j = (j = unat i \<or> ba_bit (array p) j)" if "j < unat (bit_count arr)" for j
    using set_ba_bit [OF p(1) arr] that fr(2) wf_bit_index [OF p(1)] by simp
  ultimately show ?thesis using that arr fr set_clean [OF p(1,2) arr] by blast
qed

lemma allocate_bit_full:
  assumes "pool_inv p" and "\<And>i. i < unat (bit_count (array p)) \<Longrightarrow> ba_bit (array p) i"
  shows "spdk_bit_pool_allocate_bit p = Inr (UINT32_MAX, p)"
  using pool_invD(4) [OF assms(1)] assms(2) first_index_none [of 0 _ "\<lambda>i. \<not> ba_bit (array p) i"]
  by (simp add: spdk_bit_pool_allocate_bit_def)

lemma allocate_bit_free:
  assumes inv: "pool_inv p" and "k < unat (bit_count (array p))" and "\<not> ba_bit (array p) k"
  obtains i p' where "spdk_bit_pool_allocate_bit p = Inr (i, p')" and "pool_inv p'"
    and "bit_count (array p') = bit_count (array p)" and "unat i < unat (bit_count (array p))"
    and "\<not> ba_bit (array p) (unat i)" and "unat i \<le> k"
    and "\<And>j. j < unat (bit_count (array p)) \<Longrightarrow>
      ba_bit (array p') j = (j = unat i \<or> ba_bit (array p) j)"
proof -
  note p = pool_invD [OF inv]
  let ?n = "unat (bit_count (array p))" and ?i = "lowest_free_bit p"
  note n = wf_bit_count [OF p(1)]
  from n have i: "?i \<noteq> UINT32_MAX \<and> unat ?i < ?n \<and> \<not> ba_bit (array p) (unat ?i) \<and> unat ?i \<le> k \<and>
      (\<forall>j < unat ?i. ba_bit (array p) j)"
  proof (cases rule: first_index_cases [of ?n "\<lambda>i. \<not> ba_bit (array p) i" 0])
    case None
    with assms(2,3) show ?thesis by blast
  next
    case (Some j)
    with p(4) assms(2,3) show ?thesis by (metis bot_nat_0.extremum not_le)
  qed
  obtain arr where arr: "spdk_bit_array_set (array p) ?i = Inr arr" "ba_wf arr" "ba_clean arr"
    "bit_count arr = bit_count (array p)"
    "unat (free_count p - 1) = unat (bit_count arr) - card (ba_set_bits arr)"
    "\<And>j. j < unat (bit_count arr) \<Longrightarrow> ba_bit arr j = (j = unat ?i \<or> ba_bit (array p) j)"
    using take_free_bit [OF inv] i by blast
  let ?low = "first_index (\<lambda>i. \<not> ba_bit arr i) (unat ?i) (unat (bit_count arr))"
  let ?p = "p\<lparr>array := arr, lowest_free_bit := ?low, free_count := free_count p - 1\<rparr>"
  have "spdk_bit_pool_allocate_bit p = Inr (?i, ?p)"
    using i arr by (simp add: spdk_bit_pool_allocate_bit_def find_first_clear_correct Let_def)
  moreover have "?low = first_index (\<lambda>i. \<not> ba_bit arr i) 0 (unat (bit_count arr))"
    using i arr(4,6) n by (intro first_index_skip [symmetric]) auto
  then have "pool_inv ?p" using arr p(3) by (simp add: pool_inv_def)
  ultimately show ?thesis using that i arr by simp
qed

lemma free_bit_allocated:
  assumes inv: "pool_inv p" and i: "spdk_bit_pool_is_allocated p i"
  obtains p' where "spdk_bit_pool_free_bit p i = Inr p'" and "pool_inv p'"
    and "bit_count (array p') = bit_count (array p)"
    and "\<And>j. j < unat (bit_count (array p)) \<Longrightarrow>
      ba_bit (array p') j = (j \<noteq> unat i \<and> ba_bit (array p) j)"
proof -
  note p = pool_invD [OF inv]
  let ?n = "unat (bit_count (array p))" and ?arr = "spdk_bit_array_clear (array p) i"
  have i': "unat i < ?n" "ba_bit (array p) (unat i)"
    using i by (simp_all add: spdk_bit_pool_is_allocated_def get_eq_ba_bit)
  note fr = clear_frame [OF p(1), of i] and n = wf_bit_count [OF p(1)]
  have bits: "ba_bit ?arr j = (j \<noteq> unat i \<and> ba_bit (array p) j)" if "j < ?n" for j
    using clear_ba_bit [OF p(1)] wf_bit_index [OF p(1) that] i'(1) by auto
  let ?low = "if i < lowest_free_bit p then i else lowest_free_bit p"
  let ?p = "p\<lparr>array := ?arr, lowest_free_bit := ?low, free_count := free_count p + 1\<rparr>"
  have low: "first_index (\<lambda>j. \<not> ba_bit ?arr j) 0 ?n = ?low"
    unfolding p(4) by (rule first_index_add [OF n i'(1)]) (use bits in auto)
  have "unat i \<in> ba_set_bits (array p)" using i' by (simp add: ba_set_bits_def)
  then have card: "card (ba_set_bits ?arr) + 1 = card (ba_set_bits (array p))"
    using card_Suc_Diff1 [OF finite_ba_set_bits] set_bits_clear [OF p(1) i'(1)] by simp
  have "unat (free_count p + 1) = unat (free_count p) + 1"
    using p(5) card n by (subst unat_add_u32) simp_all
  then have "unat (free_count p + 1) = ?n - card (ba_set_bits ?arr)"
    using p(5) card card_set_bits_le [of "array p"] by simp
  then have "pool_inv ?p" using p fr low clear_clean [OF p(1,2)] by (simp add: pool_inv_def)
  moreover have "spdk_bit_pool_free_bit p i = Inr ?p"
    using i by (simp add: spdk_bit_pool_free_bit_def spdk_bit_pool_is_allocated_def)
  ultimately show ?thesis using that fr bits by simp
qed

section \<open>The allocator interface\<close>

text \<open>
  What a client of an index allocator may rely on: an allocation returns an index that was
  free, or \<^verbatim>\<open>UINT32_MAX\<close> and the pool unchanged when none is; releasing an allocated
  index frees it and nothing else; no call fails.
\<close>

locale id_allocator =
  fixes alloc :: "'p \<Rightarrow> (u32 \<times> 'p) res"
    and release :: "'p \<Rightarrow> u32 \<Rightarrow> 'p res"
    and allocated :: "'p \<Rightarrow> u32 \<Rightarrow> bool"
    and capacity :: "'p \<Rightarrow> u32"
    and invar :: "'p \<Rightarrow> bool"
  assumes allocated_range: "allocated p i \<Longrightarrow> i < capacity p"
    and alloc_full: "invar p \<Longrightarrow> (\<And>i. i < capacity p \<Longrightarrow> allocated p i) \<Longrightarrow>
      alloc p = Inr (UINT32_MAX, p)"
    and alloc_free: "invar p \<Longrightarrow> k < capacity p \<Longrightarrow> \<not> allocated p k \<Longrightarrow>
      \<exists>i p'. alloc p = Inr (i, p') \<and> invar p' \<and> capacity p' = capacity p \<and> i < capacity p \<and>
        \<not> allocated p i \<and> (\<forall>j. allocated p' j = (j = i \<or> allocated p j))"
    and release_allocated: "invar p \<Longrightarrow> allocated p i \<Longrightarrow>
      \<exists>p'. release p i = Inr p' \<and> invar p' \<and> capacity p' = capacity p \<and>
        (\<forall>j. allocated p' j = (j \<noteq> i \<and> allocated p j))"
begin

lemma alloc_total:
  assumes "invar p"
  obtains (full) "alloc p = Inr (UINT32_MAX, p)" "\<And>i. i < capacity p \<Longrightarrow> allocated p i"
  | (free) i p' where "alloc p = Inr (i, p')" "invar p'" "capacity p' = capacity p"
      "i < capacity p" "i \<noteq> UINT32_MAX" "\<not> allocated p i"
      "\<And>j. allocated p' j = (j = i \<or> allocated p j)"
proof (cases "\<forall>i. i < capacity p \<longrightarrow> allocated p i")
  case True
  with full alloc_full [OF assms] show ?thesis by blast
next
  case False
  then obtain i p' where r: "alloc p = Inr (i, p')" "invar p'" "capacity p' = capacity p"
    "i < capacity p" "\<not> allocated p i" "\<forall>j. allocated p' j = (j = i \<or> allocated p j)"
    using alloc_free [OF assms] by blast
  have "i \<noteq> UINT32_MAX" using r(4) unat_u32_bound [of "capacity p"]
    by (auto simp: word_less_nat_alt simp del: unat_u32_bound)
  with r free show ?thesis by blast
qed

text \<open>Releasing what was just allocated brings back the set of allocated indices.\<close>

lemma alloc_release:
  assumes "invar p" "alloc p = Inr (i, p')" "i \<noteq> UINT32_MAX"
  shows "\<exists>p''. release p' i = Inr p'' \<and> invar p'' \<and> capacity p'' = capacity p \<and>
    (\<forall>j. allocated p'' j = allocated p j)"
  using assms(1)
proof (cases rule: alloc_total)
  case full
  with assms show ?thesis by simp
next
  case (free i' q)
  then have eq: "i' = i" "q = p'" using assms(2) by simp_all
  then have "allocated p' i" using free(7) by simp
  from release_allocated [OF _ this] free eq show ?thesis by auto
qed

end

text \<open>An allocator that also counts its free indices.\<close>

locale counted_allocator = id_allocator alloc release allocated capacity invar
  for alloc :: "'p \<Rightarrow> (u32 \<times> 'p) res" and release allocated capacity invar +
  fixes nfree :: "'p \<Rightarrow> nat"
  assumes nfree_eq: "invar p \<Longrightarrow> nfree p = card {i. i < capacity p \<and> \<not> allocated p i}"
begin

lemma alloc_nfree:
  assumes "invar p" "alloc p = Inr (i, p')" "i \<noteq> UINT32_MAX"
  shows "nfree p = nfree p' + 1"
  using assms(1)
proof (cases rule: alloc_total)
  case full
  with assms show ?thesis by simp
next
  case (free i' q)
  then have eq: "i' = i" "q = p'" using assms(2) by simp_all
  have "{j. j < capacity p \<and> \<not> allocated p j} = insert i {j. j < capacity p' \<and> \<not> allocated p' j}"
    using free eq by auto
  then show ?thesis using free eq assms(1) nfree_eq by simp
qed

lemma release_nfree:
  assumes "invar p" "allocated p i" "release p i = Inr p'"
  shows "nfree p' = nfree p + 1"
proof -
  have r: "invar p'" "capacity p' = capacity p" "\<And>j. allocated p' j = (j \<noteq> i \<and> allocated p j)"
    using release_allocated [OF assms(1,2)] assms(3) by auto
  then have "{j. j < capacity p' \<and> \<not> allocated p' j} = insert i {j. j < capacity p \<and> \<not> allocated p j}"
    using allocated_range [OF assms(2)] by auto
  then show ?thesis using r(1) assms(1,2) nfree_eq by simp
qed

lemma allocated_nfree_less:
  assumes "invar p" "allocated p i"
  shows "nfree p < unat (capacity p)"
proof -
  have "unat ` {j. j < capacity p \<and> \<not> allocated p j} \<subseteq> {..< unat (capacity p)} - {unat i}"
    using assms(2) by (auto simp: word_less_nat_alt simp flip: word_unat_eq_iff)
  from card_mono [OF _ this] have "nfree p \<le> unat (capacity p) - 1"
    using assms allocated_range [OF assms(2)] nfree_eq
    by (simp add: card_image inj_on_def word_unat_eq_iff word_less_nat_alt)
  then show ?thesis using allocated_range [OF assms(2)] by (simp add: word_less_nat_alt)
qed

end

section \<open>Interpretation\<close>

lemma is_allocated_iff:
  "spdk_bit_pool_is_allocated p i \<longleftrightarrow>
     i < spdk_bit_pool_capacity p \<and> ba_bit (array p) (unat i)"
  by (simp add: spdk_bit_pool_is_allocated_def spdk_bit_pool_capacity_def
      spdk_bit_array_capacity_def get_eq_ba_bit word_less_nat_alt)

lemma capacity_eq: "spdk_bit_pool_capacity p = bit_count (array p)"
  by (simp add: spdk_bit_pool_capacity_def spdk_bit_array_capacity_def)

interpretation bit_pool: id_allocator spdk_bit_pool_allocate_bit spdk_bit_pool_free_bit
  spdk_bit_pool_is_allocated spdk_bit_pool_capacity pool_inv
proof
  fix p i assume "spdk_bit_pool_is_allocated p i"
  then show "i < spdk_bit_pool_capacity p" by (simp add: is_allocated_iff)
next
  fix p assume inv: "pool_inv p"
    and all: "\<And>i. i < spdk_bit_pool_capacity p \<Longrightarrow> spdk_bit_pool_is_allocated p i"
  have "ba_bit (array p) j" if "j < unat (bit_count (array p))" for j
  proof -
    have "unat (of_nat j :: u32) = j"
      using that unat_u32_bound [of "bit_count (array p)"] by (intro unat_of_nat_u32) linarith
    with all [of "of_nat j"] that show ?thesis
      by (simp add: is_allocated_iff capacity_eq word_less_nat_alt)
  qed
  then show "spdk_bit_pool_allocate_bit p = Inr (UINT32_MAX, p)"
    by (rule allocate_bit_full [OF inv])
next
  fix p k assume inv: "pool_inv p" and k: "k < spdk_bit_pool_capacity p"
    "\<not> spdk_bit_pool_is_allocated p k"
  then have "unat k < unat (bit_count (array p))" "\<not> ba_bit (array p) (unat k)"
    by (auto simp: is_allocated_iff capacity_eq word_less_nat_alt)
  from allocate_bit_free [OF inv this] obtain i p' where
    "spdk_bit_pool_allocate_bit p = Inr (i, p')" "pool_inv p'"
    "bit_count (array p') = bit_count (array p)" "unat i < unat (bit_count (array p))"
    "\<not> ba_bit (array p) (unat i)"
    "\<And>j. j < unat (bit_count (array p)) \<Longrightarrow> ba_bit (array p') j = (j = unat i \<or> ba_bit (array p) j)"
    by metis
  then show "\<exists>i p'. spdk_bit_pool_allocate_bit p = Inr (i, p') \<and> pool_inv p' \<and>
      spdk_bit_pool_capacity p' = spdk_bit_pool_capacity p \<and> i < spdk_bit_pool_capacity p \<and>
      \<not> spdk_bit_pool_is_allocated p i \<and>
      (\<forall>j. spdk_bit_pool_is_allocated p' j = (j = i \<or> spdk_bit_pool_is_allocated p j))"
    by (auto simp: is_allocated_iff capacity_eq word_less_nat_alt word_unat_eq_iff)
next
  fix p i assume inv: "pool_inv p" and i: "spdk_bit_pool_is_allocated p i"
  from free_bit_allocated [OF this] obtain p' where
    "spdk_bit_pool_free_bit p i = Inr p'" "pool_inv p'" "bit_count (array p') = bit_count (array p)"
    "\<And>j. j < unat (bit_count (array p)) \<Longrightarrow> ba_bit (array p') j = (j \<noteq> unat i \<and> ba_bit (array p) j)"
    by metis
  then show "\<exists>p'. spdk_bit_pool_free_bit p i = Inr p' \<and> pool_inv p' \<and>
      spdk_bit_pool_capacity p' = spdk_bit_pool_capacity p \<and>
      (\<forall>j. spdk_bit_pool_is_allocated p' j = (j \<noteq> i \<and> spdk_bit_pool_is_allocated p j))"
    by (auto simp: is_allocated_iff capacity_eq word_less_nat_alt word_unat_eq_iff)
qed

lemma pool_index:
  "pool_inv q \<Longrightarrow> j < unat (bit_count (array q)) \<Longrightarrow> unat (of_nat j :: u32) = j"
  using wf_bit_count [OF pool_invD(1)] by (simp add: unat_of_nat_u32 order.strict_trans)

lemma pool_count_free_card:
  assumes inv: "pool_inv q"
  shows "unat (spdk_bit_pool_count_free q) =
    card {i. i < spdk_bit_pool_capacity q \<and> \<not> spdk_bit_pool_is_allocated q i}"
proof -
  let ?n = "unat (bit_count (array q))"
  have "unat ` {i. i < spdk_bit_pool_capacity q \<and> \<not> spdk_bit_pool_is_allocated q i} =
      {..< ?n} - ba_set_bits (array q)" (is "?f ` ?A = ?B")
  proof (intro set_eqI iffI)
    fix j assume "j \<in> ?B"
    then have "of_nat j \<in> ?A" "unat (of_nat j :: u32) = j"
      using pool_index [OF inv]
      by (auto simp: ba_set_bits_def is_allocated_iff capacity_eq word_less_nat_alt)
    then show "j \<in> ?f ` ?A" by force
  qed (auto simp: ba_set_bits_def is_allocated_iff capacity_eq word_less_nat_alt)
  moreover have "inj_on ?f ?A" by (auto simp: inj_on_def word_unat_eq_iff)
  moreover have "ba_set_bits (array q) \<subseteq> {..< ?n}" by (auto simp: ba_set_bits_def)
  ultimately show ?thesis
    using card_image [of ?f ?A] card_Diff_subset [of "ba_set_bits (array q)" "{..< ?n}"]
      pool_invD(5) [OF inv]
    by (simp add: spdk_bit_pool_count_free_def)
qed

interpretation bit_pool: counted_allocator spdk_bit_pool_allocate_bit spdk_bit_pool_free_bit
  spdk_bit_pool_is_allocated spdk_bit_pool_capacity pool_inv
  "\<lambda>p. unat (spdk_bit_pool_count_free p)"
  by unfold_locales (rule pool_count_free_card)

section \<open>Preservation of the invariant\<close>

text \<open>Recomputing both caches from a clean array establishes the invariant.\<close>

lemma pool_inv_recomputed:
  assumes "ba_wf arr" "ba_clean arr" "bit_count arr \<noteq> 0"
    and "spdk_bit_array_find_first_clear arr 0 = Inr low"
  shows "pool_inv (p\<lparr>array := arr, lowest_free_bit := low,
    free_count := spdk_bit_array_count_clear arr\<rparr>)"
  using assms find_first_clear_correct [OF assms(1,2), of 0] count_clear_correct [OF assms(1,2)]
  by (simp add: pool_inv_def)

lemma create_pool_inv:
  assumes "spdk_bit_pool_create mem ok n = Some p" and "n \<noteq> 0"
  shows "pool_inv p" and "spdk_bit_pool_capacity p = n"
    and "\<And>i. \<not> spdk_bit_pool_is_allocated p i"
proof -
  obtain arr where arr: "spdk_bit_array_create mem n = Some arr"
    and p: "p = \<lparr>array = arr, lowest_free_bit = 0, free_count = n\<rparr>"
    using assms(1) by (auto simp: spdk_bit_pool_create_def split: option.splits if_splits)
  obtain g where mem: "mem = Some g"
    using arr by (cases mem) (auto simp: spdk_bit_array_create_def spdk_bit_array_resize_def Let_def
        split: if_splits)
  note c = create_ba [OF arr [unfolded mem]] and cl = create_clean [OF arr [unfolded mem]]
  have bits: "\<not> ba_bit arr i" if "i < unat n" for i
    using c(3) that word_count_bounds(1) [of n] by (meson less_le_trans)
  then have "ba_set_bits arr = {}" using c(2) by (auto simp: ba_set_bits_def)
  moreover have "0 < unat n" using assms(2) by (simp add: unat_gt_0)
  then have "first_index (\<lambda>i. \<not> ba_bit arr i) 0 (unat n) = of_nat 0"
    using bits by (intro first_index_eqI) auto
  ultimately show "pool_inv p" using p c cl assms(2) by (simp add: pool_inv_def)
  show "spdk_bit_pool_capacity p = n" using p c(2) by (simp add: capacity_eq)
  show "\<not> spdk_bit_pool_is_allocated p i" for i
    using p c(2) bits by (simp add: is_allocated_iff capacity_eq word_less_nat_alt)
qed

lemma set_bit_allocated_inv [step_inv]:
  assumes inv: "pool_inv p" and r: "spdk_bit_pool_set_bit_allocated p i = Inr p'"
  shows "pool_inv p'"
proof -
  note p = pool_invD [OF inv]
  let ?n = "unat (bit_count (array p))"
  note n = wf_bit_count [OF p(1)]
  have i: "unat i < ?n" "\<not> ba_bit (array p) (unat i)"
    using r by (auto simp: spdk_bit_pool_set_bit_allocated_def get_eq_ba_bit spdk_bit_array_set_def
        bit_array_get_word_eq split: if_splits sum.splits)
  obtain arr where arr: "spdk_bit_array_set (array p) i = Inr arr" "ba_wf arr" "ba_clean arr"
    "bit_count arr = bit_count (array p)"
    "unat (free_count p - 1) = unat (bit_count arr) - card (ba_set_bits arr)"
    "\<And>j. j < unat (bit_count arr) \<Longrightarrow> ba_bit arr j = (j = unat i \<or> ba_bit (array p) j)"
    using take_free_bit [OF inv i] by blast
  define low where "low = first_index (\<lambda>j. \<not> ba_bit arr j) 0 ?n"
  have old: "lowest_free_bit p \<noteq> UINT32_MAX \<and> unat (lowest_free_bit p) \<le> unat i \<and>
      unat (lowest_free_bit p) < ?n \<and> \<not> ba_bit (array p) (unat (lowest_free_bit p)) \<and>
      (\<forall>j < unat (lowest_free_bit p). ba_bit (array p) j)"
    using n
  proof (cases rule: first_index_cases [of ?n "\<lambda>i. \<not> ba_bit (array p) i" 0])
    case None
    with i show ?thesis by blast
  next
    case (Some j)
    with i p(4) show ?thesis by (metis bot_nat_0.extremum not_le)
  qed
  have same: "low = first_index (\<lambda>j. \<not> ba_bit arr j) (unat i) ?n" if "lowest_free_bit p = i"
    unfolding low_def using that old arr(4,6) i(1) n by (intro first_index_skip) auto
  have other: "low = lowest_free_bit p" if "lowest_free_bit p \<noteq> i"
  proof -
    have ne: "unat (lowest_free_bit p) \<noteq> unat i" using that by (simp add: word_unat_eq_iff)
    have "low = of_nat (unat (lowest_free_bit p))"
      unfolding low_def using old arr(4,6) ne by (intro first_index_eqI) auto
    then show ?thesis by simp
  qed
  have "p' = p\<lparr>array := arr, lowest_free_bit := low, free_count := free_count p - 1\<rparr>"
    using r i arr same other
    by (auto simp: spdk_bit_pool_set_bit_allocated_def get_eq_ba_bit find_first_clear_correct
        split: if_splits)
  with arr p(3) show ?thesis by (simp add: pool_inv_def low_def)
qed

lemma load_mask_inv [step_inv]:
  assumes "pool_inv p" and "spdk_bit_pool_load_mask p msk = Inr p'"
  shows "pool_inv p'"
proof -
  note p = pool_invD [OF assms(1)]
  obtain low where low: "spdk_bit_array_find_first_clear (spdk_bit_array_load_mask (array p) msk) 0 = Inr low"
    and p': "p' = p\<lparr>array := spdk_bit_array_load_mask (array p) msk, lowest_free_bit := low,
      free_count := spdk_bit_array_count_clear (spdk_bit_array_load_mask (array p) msk)\<rparr>"
    using assms(2)
    by (cases "spdk_bit_array_find_first_clear (spdk_bit_array_load_mask (array p) msk) 0")
      (auto simp: spdk_bit_pool_load_mask_def Let_def)
  show ?thesis unfolding p'
    using low p load_mask_correct [OF p(1)] load_mask_clean [OF p(1,2)]
    by (intro pool_inv_recomputed) simp_all
qed

lemma free_all_bits_inv [step_inv]:
  assumes "pool_inv p"
  shows "pool_inv (spdk_bit_pool_free_all_bits p)"
    and "\<not> spdk_bit_pool_is_allocated (spdk_bit_pool_free_all_bits p) i"
proof -
  note p = pool_invD [OF assms]
  let ?arr = "spdk_bit_array_clear_mask (array p)"
  note c = clear_mask_correct [OF p(1)]
  have bits: "\<not> ba_bit ?arr j" if "j < unat (bit_count (array p))" for j
    using c(3) [of j] that word_count_bounds(1) [of "bit_count (array p)"] by simp
  then have e: "ba_set_bits ?arr = {}" using c(2) by (auto simp: ba_set_bits_def)
  have "0 < unat (bit_count (array p))" using p(3) by (simp add: unat_gt_0)
  then have "first_index (\<lambda>i. \<not> ba_bit ?arr i) 0 (unat (bit_count (array p))) = of_nat 0"
    using bits by (intro first_index_eqI) auto
  then show "pool_inv (spdk_bit_pool_free_all_bits p)"
    using e c clear_mask_clean [OF p(1,2)] p(3)
    by (simp add: pool_inv_def spdk_bit_pool_free_all_bits_def Let_def spdk_bit_array_capacity_def)
  show "\<not> spdk_bit_pool_is_allocated (spdk_bit_pool_free_all_bits p) i"
    using bits c(2)
    by (simp add: is_allocated_iff capacity_eq spdk_bit_pool_free_all_bits_def Let_def word_less_nat_alt)
qed

lemma resize_pool_inv [step_inv]:
  assumes inv: "pool_inv p" and r: "spdk_bit_pool_resize mem p n = Inr p'" and "n \<noteq> 0"
    and cover: "bit_array_word_count (bit_count (array p)) \<le> bit_array_word_count n \<or> 64 dvd unat n"
  shows "pool_inv p'"
proof -
  note p = pool_invD [OF inv]
  obtain arr low where arr: "spdk_bit_array_resize mem (Some (Some (array p))) n = Inr arr"
    and low: "spdk_bit_array_find_first_clear arr 0 = Inr low"
    and p': "p' = p\<lparr>array := arr, lowest_free_bit := low,
      free_count := spdk_bit_array_count_clear arr\<rparr>"
    using r by (cases "spdk_bit_array_resize mem (Some (Some (array p))) n";
        cases "spdk_bit_array_find_first_clear (projr (spdk_bit_array_resize mem (Some (Some (array p))) n)) 0")
      (auto simp: spdk_bit_pool_resize_def)
  obtain g where mem: "mem = Some g"
    using arr by (cases mem) (auto simp: spdk_bit_array_resize_def Let_def split: if_splits)
  note arr = arr [unfolded mem]
  show ?thesis unfolding p'
    using low resize_wf [OF p(1) arr] resize_clean [OF p(1,2) arr cover]
      resize_words(1) [OF p(1) arr] \<open>n \<noteq> 0\<close>
    by (intro pool_inv_recomputed) simp_all
qed

section \<open>Reachable pools\<close>

text \<open>The operations of the pool, in any order, but for a resize that makes it smaller: the code accepts
  one, and it leaves stale bits in the array (\<open>resize_shrink_keeps_stale_bits\<close>). Growing keeps
  the array exact (\<open>resize_grow_correct\<close>). A pool of 0 indices is left out too
  (\<open>empty_pool_allocates\<close>).\<close>

inductive pool_step :: "spdk_bit_pool \<Rightarrow> spdk_bit_pool \<Rightarrow> bool" where
  allocate: "spdk_bit_pool_allocate_bit p = Inr (i, p') \<Longrightarrow> pool_step p p'"
| set_allocated: "spdk_bit_pool_set_bit_allocated p i = Inr p' \<Longrightarrow> pool_step p p'"
| free: "spdk_bit_pool_free_bit p i = Inr p' \<Longrightarrow> pool_step p p'"
| load: "spdk_bit_pool_load_mask p msk = Inr p' \<Longrightarrow> pool_step p p'"
| free_all: "pool_step p (spdk_bit_pool_free_all_bits p)"
| grow: "spdk_bit_pool_capacity p \<le> n \<Longrightarrow> spdk_bit_pool_resize mem p n = Inr p' \<Longrightarrow> pool_step p p'"

definition pool_init :: "spdk_bit_pool \<Rightarrow> bool" where
  "pool_init p \<longleftrightarrow> (\<exists>mem ok n. n \<noteq> 0 \<and> spdk_bit_pool_create mem ok n = Some p)"

lemma allocate_bit_inv [step_inv]:
  assumes "pool_inv p" "spdk_bit_pool_allocate_bit p = Inr (i, p')"
  shows "pool_inv p'"
  using assms(1) by (cases rule: bit_pool.alloc_total) (use assms in auto)

lemma free_bit_inv [step_inv]:
  assumes "pool_inv p" "spdk_bit_pool_free_bit p i = Inr p'"
  shows "pool_inv p'"
proof -
  have "spdk_bit_pool_is_allocated p i"
    using assms(2) by (auto simp: spdk_bit_pool_free_bit_def spdk_bit_pool_is_allocated_def
        split: if_splits)
  from bit_pool.release_allocated [OF assms(1) this] assms(2) show ?thesis by auto
qed

interpretation pool_machine: transition_invariant pool_step pool_init pool_inv
proof
  fix p assume "pool_init p"
  then show "pool_inv p" by (auto simp: pool_init_def dest: create_pool_inv)
next
  fix p p' assume inv: "pool_inv p" and "pool_step p p'"
  from this(2) show "pool_inv p'"
  proof cases
    case (grow n mem)
    have "n \<noteq> 0" using grow(1) pool_invD(3) [OF inv] by (auto simp: capacity_eq word_le_nat_alt unat_eq_0)
    moreover have "bit_array_word_count (bit_count (array p)) \<le> bit_array_word_count n"
      using grow(1) by (simp add: capacity_eq word_le_nat_alt bit_array_word_count_def div_le_mono)
    ultimately show ?thesis using resize_pool_inv [OF inv grow(2)] by blast
  qed (use inv step_inv in blast)+
qed

section \<open>Properties\<close>

text \<open>C17 (invariant). In every pool that a successful creation with at least one bit and any
  sequence of operations that never makes it smaller can produce, the cached free count is the number of indices that are
  not allocated and the cached lowest free bit is the least of them, or \<^verbatim>\<open>UINT32_MAX\<close>.\<close>

theorem pool_caches_exact:
  assumes "spdk_bit_pool_create mem ok n = Some p" and "n \<noteq> 0" and "pool_step\<^sup>*\<^sup>* p q"
  shows "unat (spdk_bit_pool_count_free q) =
      card {i. i < spdk_bit_pool_capacity q \<and> \<not> spdk_bit_pool_is_allocated q i} \<and>
    lowest_free_bit q = first_index (\<lambda>i. \<not> spdk_bit_pool_is_allocated q (of_nat i)) 0
      (unat (spdk_bit_pool_capacity q))"
proof -
  have "pool_init p" using assms(1,2) by (auto simp: pool_init_def)
  from pool_machine.reachable_inv [OF this assms(3)] have inv: "pool_inv q" .
  let ?n = "unat (bit_count (array q))"
  have "find (\<lambda>i. \<not> ba_bit (array q) i) [0 ..< ?n] =
      find (\<lambda>i. \<not> spdk_bit_pool_is_allocated q (of_nat i)) [0 ..< ?n]"
    using pool_index [OF inv]
    by (intro find_cong) (auto simp: is_allocated_iff capacity_eq word_less_nat_alt)
  then show ?thesis
    using pool_invD(4) [OF inv] pool_count_free_card [OF inv]
    by (simp add: first_index_def capacity_eq)
qed

definition example_pool :: spdk_bit_pool where
  "example_pool = \<lparr>array = \<lparr>bit_count = 2, words = [0, 2]\<rparr>, lowest_free_bit = 0, free_count = 2\<rparr>"

lemma pool_caches_exact_witness:
  "\<exists>q. pool_step\<^sup>*\<^sup>* example_pool q \<and> spdk_bit_pool_is_allocated q 0 \<and>
     lowest_free_bit q = first_index (\<lambda>i. \<not> spdk_bit_pool_is_allocated q (of_nat i)) 0
      (unat (spdk_bit_pool_capacity q))"
proof -
  let ?q = "\<lparr>array = \<lparr>bit_count = 2, words = [1, 2]\<rparr>, lowest_free_bit = 1, free_count = 1\<rparr>"
  have c: "spdk_bit_pool_create (Some (\<lambda>_. 0)) True 2 = Some example_pool"
    by (simp add: spdk_bit_pool_create_def spdk_bit_array_create_def spdk_bit_array_resize_def
        bit_array_word_count_def realloc_words_def example_pool_def Let_def)
  have "spdk_bit_pool_allocate_bit example_pool = Inr (0, ?q)" by code_simp
  then have s: "pool_step\<^sup>*\<^sup>* example_pool ?q" by (blast intro: pool_step.allocate)
  have "spdk_bit_pool_is_allocated ?q 0" by code_simp
  with s pool_caches_exact [OF c _ s] show ?thesis by auto
qed

text \<open>From a pool that satisfies the invariant an allocation never fails:
  it returns \<^verbatim>\<open>UINT32_MAX\<close> and changes nothing when every index is allocated, and
  otherwise an index below the capacity that was free, after which exactly that index is
  allocated in addition; freeing it again restores the allocated indices.\<close>

theorem allocate_then_free:
  assumes "pool_inv p"
  shows "\<exists>i p'. spdk_bit_pool_allocate_bit p = Inr (i, p') \<and> pool_inv p' \<and>
    (if i = UINT32_MAX then p' = p \<and> (\<forall>j < spdk_bit_pool_capacity p. spdk_bit_pool_is_allocated p j)
     else i < spdk_bit_pool_capacity p \<and> \<not> spdk_bit_pool_is_allocated p i \<and>
       (\<forall>j. spdk_bit_pool_is_allocated p' j = (j = i \<or> spdk_bit_pool_is_allocated p j)) \<and>
       (\<exists>p''. spdk_bit_pool_free_bit p' i = Inr p'' \<and> pool_inv p'' \<and>
          (\<forall>j. spdk_bit_pool_is_allocated p'' j = spdk_bit_pool_is_allocated p j)))"
  using assms
proof (cases rule: bit_pool.alloc_total)
  case full
  with assms show ?thesis by auto
next
  case (free i p')
  with bit_pool.alloc_release [OF assms free(1,5)] show ?thesis by auto
qed

lemma allocate_then_free_witness:
  "pool_inv example_pool \<and> (\<exists>i p'. spdk_bit_pool_allocate_bit example_pool = Inr (i, p') \<and> pool_inv p')"
proof -
  have "spdk_bit_pool_create (Some (\<lambda>_. 0)) True 2 = Some example_pool"
    by (simp add: spdk_bit_pool_create_def spdk_bit_array_create_def spdk_bit_array_resize_def
        bit_array_word_count_def realloc_words_def example_pool_def Let_def)
  from create_pool_inv(1) [OF this] have inv: "pool_inv example_pool" by simp
  with allocate_then_free [OF inv] show ?thesis by blast
qed

text \<open>A pool of zero bits is created with 0 as its lowest free bit: its first
  allocation hands out index 0, past its capacity, and the free count wraps to
  \<^verbatim>\<open>UINT32_MAX\<close>.\<close>

theorem empty_pool_allocates:
  "\<exists>p q. spdk_bit_pool_create (Some g) True 0 = Some p \<and> spdk_bit_pool_capacity p = 0 \<and>
     spdk_bit_pool_allocate_bit p = Inr (0, q) \<and> free_count q = UINT32_MAX"
  by (simp add: spdk_bit_pool_create_def spdk_bit_array_create_def spdk_bit_array_resize_def
      bit_array_word_count_def realloc_words_def Let_def spdk_bit_pool_allocate_bit_def
      spdk_bit_pool_capacity_def spdk_bit_array_capacity_def spdk_bit_array_set_def
      bit_array_get_word_def spdk_bit_array_find_first_clear_def bit_array_find_first_def)

end
