(* ===== verification/Blob_Clusters.thy ===== *)
theory Blob_Clusters
  imports Bit_Pool
begin

text \<open>
  The blobstore's cluster and metadata-page allocation (\<^verbatim>\<open>lib/blob/blobstore.c\<close>), the
  main client of the bit pool. The pool is used only through the facts of the interface
  \<open>id_allocator\<close>.
\<close>

section \<open>Model\<close>

record spdk_blob_store =
  used_lock_held :: bool
  used_md_pages :: spdk_bit_array
  used_clusters :: spdk_bit_pool
  num_free_clusters :: u64
  total_clusters :: u64
  cluster_sz :: u32
  blocklen :: u32

record spdk_blob =
  md_op_ok :: bool \<comment> \<open>the assertions of \<^verbatim>\<open>blob_verify_md_op\<close>: md thread, blob not loading\<close>
  use_extent_table :: bool
  clusters :: "u64 list"
  num_allocated_clusters :: u64
  extent_pages :: "u32 list"

definition bs_claim_md_page :: "spdk_blob_store \<Rightarrow> u32 \<Rightarrow> spdk_blob_store res" where
  "bs_claim_md_page bs page =
     c_assert (used_lock_held bs)
       (c_assert (page < spdk_bit_array_capacity (used_md_pages bs))
         (c_assert (\<not> spdk_bit_array_get (used_md_pages bs) page)
           (Inr (bs\<lparr>used_md_pages :=
              (case spdk_bit_array_set (used_md_pages bs) page of
                 Inl _ \<Rightarrow> used_md_pages bs | Inr a \<Rightarrow> a)\<rparr>))))"

definition bs_release_md_page :: "spdk_blob_store \<Rightarrow> u32 \<Rightarrow> spdk_blob_store res" where
  "bs_release_md_page bs page =
     c_assert (used_lock_held bs)
       (c_assert (page < spdk_bit_array_capacity (used_md_pages bs))
         (c_assert (spdk_bit_array_get (used_md_pages bs) page)
           (Inr (bs\<lparr>used_md_pages := spdk_bit_array_clear (used_md_pages bs) page\<rparr>))))"

definition bs_claim_cluster :: "spdk_blob_store \<Rightarrow> (u32 \<times> spdk_blob_store) res" where
  "bs_claim_cluster bs =
     c_assert (used_lock_held bs)
       (case spdk_bit_pool_allocate_bit (used_clusters bs) of
          Inl e \<Rightarrow> Inl e
        | Inr (cluster_num, pool) \<Rightarrow>
            if cluster_num = UINT32_MAX then Inr (UINT32_MAX, bs\<lparr>used_clusters := pool\<rparr>)
            else Inr (cluster_num, bs\<lparr>used_clusters := pool,
                        num_free_clusters := num_free_clusters bs - 1\<rparr>))"

definition bs_release_cluster :: "spdk_blob_store \<Rightarrow> u32 \<Rightarrow> spdk_blob_store res" where
  "bs_release_cluster bs cluster_num =
     c_assert (used_lock_held bs)
       (c_assert (cluster_num < spdk_bit_pool_capacity (used_clusters bs))
         (c_assert (spdk_bit_pool_is_allocated (used_clusters bs) cluster_num)
           (c_assert (num_free_clusters bs < total_clusters bs)
             (map_sum id (\<lambda>pool. bs\<lparr>used_clusters := pool,
                    num_free_clusters := num_free_clusters bs + 1\<rparr>)
               (spdk_bit_pool_free_bit (used_clusters bs) cluster_num)))))"

definition bs_cluster_to_lba :: "spdk_blob_store \<Rightarrow> u32 \<Rightarrow> u64 res" where
  "bs_cluster_to_lba bs cluster =
     (if blocklen bs = 0 then Inl Undefined
      else c_assert (0 < cluster_sz bs div blocklen bs)
        (Inr (ucast cluster * ucast (cluster_sz bs div blocklen bs))))"

text \<open>\<^verbatim>\<open>SPDK_EXTENTS_PER_EP\<close> is 512 for the 4 KiB metadata page.\<close>

definition bs_cluster_to_extent_table_id :: "u32 \<Rightarrow> nat" where
  "bs_cluster_to_extent_table_id cluster_num = unat cluster_num div 512"

text \<open>The C function returns a pointer into the extent page array; the model its index.\<close>

definition bs_cluster_to_extent_page :: "spdk_blob \<Rightarrow> u32 \<Rightarrow> nat res" where
  "bs_cluster_to_extent_page blob cluster_num =
     (let extent_table_id = bs_cluster_to_extent_table_id cluster_num in
      c_assert (use_extent_table blob)
        (c_assert (extent_table_id < length (extent_pages blob)) (Inr extent_table_id)))"

definition blob_insert_cluster ::
  "spdk_blob_store \<Rightarrow> spdk_blob \<Rightarrow> u32 \<Rightarrow> u32 \<Rightarrow> (errno option \<times> spdk_blob) res" where
  "blob_insert_cluster bs blob cluster_num cluster =
     c_assert (md_op_ok blob)
       (if length (clusters blob) \<le> unat cluster_num then Inl Undefined
        else if clusters blob ! unat cluster_num \<noteq> 0 then Inr (Some EEXIST, blob)
        else map_sum id (\<lambda>lba. (None, blob\<lparr>clusters := (clusters blob)[unat cluster_num := lba],
                 num_allocated_clusters := num_allocated_clusters blob + 1\<rparr>))
               (bs_cluster_to_lba bs cluster))"

text \<open>The result: the return code, \<^verbatim>\<open>*cluster\<close>, \<^verbatim>\<open>*lowest_free_md_page\<close> and the new
  state; the code of \<^verbatim>\<open>blob_insert_cluster\<close> is ignored, as in the source.\<close>

record alloc_out =
  rc :: "errno option"
  out_cluster :: u32
  out_md_page :: u32
  out_blob :: spdk_blob
  out_bs :: spdk_blob_store

definition bs_alloc_md_page ::
  "spdk_blob_store \<Rightarrow> u32 \<Rightarrow> (u32 \<times> spdk_blob_store) res" where
  "bs_alloc_md_page bs lowest_free_md_page =
     (let start = (if lowest_free_md_page = 0 then 1 else lowest_free_md_page) in
      case spdk_bit_array_find_first_clear (used_md_pages bs) start of
        Inl e \<Rightarrow> Inl e
      | Inr page \<Rightarrow>
          if page = UINT32_MAX then Inr (UINT32_MAX, bs)
          else map_sum id (\<lambda>bs'. (page, bs')) (bs_claim_md_page bs page))"

definition bs_update_map ::
  "spdk_blob_store \<Rightarrow> spdk_blob \<Rightarrow> u32 \<Rightarrow> u32 \<Rightarrow> u32 \<Rightarrow> nat option \<Rightarrow> spdk_blob res" where
  "bs_update_map bs blob cluster_num cluster md_page extent_page =
     (case blob_insert_cluster bs blob cluster_num cluster of
        Inl e \<Rightarrow> Inl e
      | Inr (_, blob') \<Rightarrow>
          (case extent_page of
             None \<Rightarrow> Inr blob'
           | Some ep \<Rightarrow>
               if extent_pages blob' ! ep = 0
               then Inr (blob'\<lparr>extent_pages := (extent_pages blob')[ep := md_page]\<rparr>)
               else Inr blob'))"

text \<open>The tail of \<^verbatim>\<open>bs_allocate_cluster\<close>: the map update when asked for, and the result.\<close>

definition bs_allocate_finish ::
  "spdk_blob_store \<Rightarrow> spdk_blob \<Rightarrow> u32 \<Rightarrow> u32 \<Rightarrow> bool \<Rightarrow> nat option \<Rightarrow> u32 \<Rightarrow> alloc_out res" where
  "bs_allocate_finish bs blob cluster_num cluster update_map extent_page md_page =
     (if update_map then
        map_sum id (\<lambda>blob'. \<lparr>rc = None, out_cluster = cluster,
               out_md_page = md_page, out_blob = blob', out_bs = bs\<rparr>)
          (bs_update_map bs blob cluster_num cluster md_page extent_page)
      else Inr \<lparr>rc = None, out_cluster = cluster, out_md_page = md_page,
               out_blob = blob, out_bs = bs\<rparr>)"

definition bs_allocate_cluster ::
  "spdk_blob_store \<Rightarrow> spdk_blob \<Rightarrow> u32 \<Rightarrow> u32 \<Rightarrow> bool \<Rightarrow> alloc_out res" where
  "bs_allocate_cluster bs blob cluster_num lowest_free_md_page update_map =
     c_assert (used_lock_held bs)
       (case bs_claim_cluster bs of
          Inl e \<Rightarrow> Inl e
        | Inr (cluster, bs1) \<Rightarrow>
            if cluster = UINT32_MAX then
              Inr \<lparr>rc = Some ENOSPC, out_cluster = cluster, out_md_page = lowest_free_md_page,
                   out_blob = blob, out_bs = bs1\<rparr>
            else if use_extent_table blob then
              (case bs_cluster_to_extent_page blob cluster_num of
                 Inl e \<Rightarrow> Inl e
               | Inr ep \<Rightarrow>
                   if extent_pages blob ! ep = 0 then
                     (case bs_alloc_md_page bs1 lowest_free_md_page of
                        Inl e \<Rightarrow> Inl e
                      | Inr (page, bs2) \<Rightarrow>
                          if page = UINT32_MAX then
                            map_sum id (\<lambda>bs3. \<lparr>rc = Some ENOSPC, out_cluster = cluster,
                                   out_md_page = page, out_blob = blob, out_bs = bs3\<rparr>)
                              (bs_release_cluster bs2 cluster)
                          else bs_allocate_finish bs2 blob cluster_num cluster update_map
                                 (Some ep) page)
                   else bs_allocate_finish bs1 blob cluster_num cluster update_map
                          (Some ep) lowest_free_md_page)
            else bs_allocate_finish bs1 blob cluster_num cluster update_map
                   None lowest_free_md_page)"

section \<open>Invariant\<close>

text \<open>The pool is consistent, the blobstore's free-cluster counter agrees with it, and the
  metadata page map is a clean bit array.\<close>

definition bs_inv :: "spdk_blob_store \<Rightarrow> bool" where
  "bs_inv bs \<longleftrightarrow> used_lock_held bs \<and> pool_inv (used_clusters bs) \<and>
     unat (num_free_clusters bs) = unat (spdk_bit_pool_count_free (used_clusters bs)) \<and>
     total_clusters bs = ucast (spdk_bit_pool_capacity (used_clusters bs)) \<and>
     ba_wf (used_md_pages bs) \<and> ba_clean (used_md_pages bs)"

lemma bs_invD:
  assumes "bs_inv bs"
  shows "used_lock_held bs" and "pool_inv (used_clusters bs)"
    and "unat (num_free_clusters bs) = unat (spdk_bit_pool_count_free (used_clusters bs))"
    and "total_clusters bs = ucast (spdk_bit_pool_capacity (used_clusters bs))"
    and "ba_wf (used_md_pages bs)" and "ba_clean (used_md_pages bs)"
  using assms by (simp_all add: bs_inv_def)

abbreviation cluster_used :: "spdk_blob_store \<Rightarrow> u32 \<Rightarrow> bool" where
  "cluster_used bs \<equiv> spdk_bit_pool_is_allocated (used_clusters bs)"

abbreviation md_page_used :: "spdk_blob_store \<Rightarrow> u32 \<Rightarrow> bool" where
  "md_page_used bs \<equiv> spdk_bit_array_get (used_md_pages bs)"

lemma claim_cluster_cases:
  assumes inv: "bs_inv bs"
  obtains (full) "bs_claim_cluster bs = Inr (UINT32_MAX, bs)"
      "\<And>i. i < spdk_bit_pool_capacity (used_clusters bs) \<Longrightarrow> cluster_used bs i"
  | (ok) c bs' where "bs_claim_cluster bs = Inr (c, bs')" "c \<noteq> UINT32_MAX" "bs_inv bs'"
      "\<not> cluster_used bs c" "\<And>j. cluster_used bs' j = (j = c \<or> cluster_used bs j)"
      "used_md_pages bs' = used_md_pages bs"
      "unat (num_free_clusters bs) = unat (num_free_clusters bs') + 1"
proof -
  note b = bs_invD [OF inv]
  from b(2) show thesis
  proof (cases rule: bit_pool.alloc_total)
    case full
    then show ?thesis using that(1) b(1) by (simp add: bs_claim_cluster_def c_assert_def)
  next
    case (free c q)
    let ?bs = "bs\<lparr>used_clusters := q, num_free_clusters := num_free_clusters bs - 1\<rparr>"
    have nf: "unat (spdk_bit_pool_count_free (used_clusters bs)) = unat (spdk_bit_pool_count_free q) + 1"
      by (rule bit_pool.alloc_nfree [OF b(2) free(1,5)])
    then have "1 \<le> num_free_clusters bs" using b(3) by (simp add: word_le_nat_alt)
    then have "unat (num_free_clusters bs - 1) = unat (num_free_clusters bs) - 1"
      by (simp add: unat_sub)
    then have "bs_inv ?bs" "unat (num_free_clusters bs) = unat (num_free_clusters ?bs) + 1"
      using b free(2,3) nf by (simp_all add: bs_inv_def)
    with free b(1) show ?thesis
      by (intro that(2) [of c ?bs]) (simp_all add: bs_claim_cluster_def c_assert_def)
  qed
qed

lemma release_cluster_used:
  assumes inv: "bs_inv bs" and c: "cluster_used bs c"
  obtains bs' where "bs_release_cluster bs c = Inr bs'" and "bs_inv bs'"
    and "\<And>j. cluster_used bs' j = (j \<noteq> c \<and> cluster_used bs j)"
    and "used_md_pages bs' = used_md_pages bs"
    and "unat (num_free_clusters bs') = unat (num_free_clusters bs) + 1"
proof -
  note b = bs_invD [OF inv]
  obtain q where q: "spdk_bit_pool_free_bit (used_clusters bs) c = Inr q" "pool_inv q"
    "spdk_bit_pool_capacity q = spdk_bit_pool_capacity (used_clusters bs)"
    "\<And>j. spdk_bit_pool_is_allocated q j = (j \<noteq> c \<and> cluster_used bs j)"
    using bit_pool.release_allocated [OF b(2) c] by auto
  let ?bs = "bs\<lparr>used_clusters := q, num_free_clusters := num_free_clusters bs + 1\<rparr>"
  have lt: "unat (num_free_clusters bs) < unat (spdk_bit_pool_capacity (used_clusters bs))"
    using bit_pool.allocated_nfree_less [OF b(2) c] b(3) by simp
  have tot: "unat (total_clusters bs) = unat (spdk_bit_pool_capacity (used_clusters bs))"
    using b(4) by simp
  have nf: "unat (spdk_bit_pool_count_free q) = unat (spdk_bit_pool_count_free (used_clusters bs)) + 1"
    by (rule bit_pool.release_nfree [OF b(2) c q(1)])
  have "unat (num_free_clusters bs + 1) = unat (num_free_clusters bs) + 1"
    using lt unat_u32_bound [of "spdk_bit_pool_capacity (used_clusters bs)"]
      unat_add_u64 [of "num_free_clusters bs" 1] by (simp del: unat_u32_bound)
  with b q nf have "bs_inv ?bs" "unat (num_free_clusters ?bs) = unat (num_free_clusters bs) + 1"
    by (simp_all add: bs_inv_def)
  moreover have "bs_release_cluster bs c = Inr ?bs"
    using b(1) c lt tot q(1) bit_pool.allocated_range [OF c]
    by (simp add: bs_release_cluster_def c_assert_def word_less_nat_alt)
  ultimately show ?thesis using that q(4) by simp
qed

lemma alloc_md_page_cases:
  assumes inv: "bs_inv bs"
  obtains (full) "bs_alloc_md_page bs low = Inr (UINT32_MAX, bs)"
  | (ok) page bs' where "bs_alloc_md_page bs low = Inr (page, bs')" "page \<noteq> UINT32_MAX"
      "page \<noteq> 0" "bs_inv bs'" "\<not> md_page_used bs page"
      "\<And>j. md_page_used bs' j = (j = page \<or> md_page_used bs j)"
      "used_clusters bs' = used_clusters bs" "num_free_clusters bs' = num_free_clusters bs"
proof -
  note b = bs_invD [OF inv]
  let ?a = "used_md_pages bs" and ?start = "if low = 0 then 1 else low"
  let ?n = "unat (bit_count ?a)"
  have find: "spdk_bit_array_find_first_clear ?a ?start =
      Inr (first_index (\<lambda>i. \<not> ba_bit ?a i) (unat ?start) ?n)"
    by (rule find_first_clear_correct [OF b(5,6)])
  from wf_bit_count [OF b(5)] show thesis
  proof (cases rule: first_index_cases [of ?n "\<lambda>i. \<not> ba_bit ?a i" "unat ?start"])
    case None
    with find show ?thesis using that(1) by (simp add: bs_alloc_md_page_def Let_def)
  next
    case (Some j)
    let ?page = "of_nat j :: u32"
    have j: "unat ?page = j" using Some(1,2) by simp
    obtain a' where a': "spdk_bit_array_set ?a ?page = Inr a'" using Some(5) j
      by (auto simp: set_Inr_iff)
    note fr = set_frame [OF b(5) a']
    have used: "spdk_bit_array_get a' i = (i = ?page \<or> spdk_bit_array_get ?a i)" for i
      using set_ba_bit [OF b(5) a'] wf_bit_index [OF b(5)] fr(2) Some(5) j
      by (auto simp: get_eq_ba_bit word_unat_eq_iff)
    have "0 < unat ?start" by (simp add: unat_gt_0)
    with Some(4) j have "?page \<noteq> 0" by auto
    moreover have "bs_alloc_md_page bs low = Inr (?page, bs\<lparr>used_md_pages := a'\<rparr>)"
      using find Some b(1) j a'
      by (simp add: bs_alloc_md_page_def Let_def bs_claim_md_page_def c_assert_def
          spdk_bit_array_capacity_def word_less_nat_alt get_eq_ba_bit)
    moreover have "bs_inv (bs\<lparr>used_md_pages := a'\<rparr>)"
      using b fr(1) set_clean [OF b(5,6) a'] by (simp add: bs_inv_def)
    ultimately show ?thesis
      using that(2) [of ?page "bs\<lparr>used_md_pages := a'\<rparr>"] Some used j
      by (simp add: get_eq_ba_bit)
  qed
qed

section \<open>Properties\<close>

text \<open>The blob's own fields play no part in what the allocation does to the blobstore.\<close>

definition alloc_effect :: "spdk_blob_store \<Rightarrow> spdk_blob \<Rightarrow> alloc_out \<Rightarrow> bool" where
  "alloc_effect bs blob out \<longleftrightarrow> bs_inv (out_bs out) \<and>
     (case rc out of
        Some e \<Rightarrow> e = ENOSPC \<and> out_blob out = blob \<and>
          (\<forall>j. cluster_used (out_bs out) j = cluster_used bs j) \<and>
          (\<forall>j. md_page_used (out_bs out) j = md_page_used bs j) \<and>
          num_free_clusters (out_bs out) = num_free_clusters bs
      | None \<Rightarrow> \<not> cluster_used bs (out_cluster out) \<and>
          (\<forall>j. cluster_used (out_bs out) j = (j = out_cluster out \<or> cluster_used bs j)) \<and>
          ((\<forall>j. md_page_used (out_bs out) j = md_page_used bs j) \<or>
           out_md_page out \<noteq> 0 \<and> \<not> md_page_used bs (out_md_page out) \<and>
           (\<forall>j. md_page_used (out_bs out) j = (j = out_md_page out \<or> md_page_used bs j))) \<and>
          unat (num_free_clusters bs) = unat (num_free_clusters (out_bs out)) + 1)"

lemma alloc_effect_okI:
  assumes "rc out = None" "bs_inv (out_bs out)" "\<not> cluster_used bs (out_cluster out)"
    and "\<And>j. cluster_used (out_bs out) j = (j = out_cluster out \<or> cluster_used bs j)"
    and "(\<forall>j. md_page_used (out_bs out) j = md_page_used bs j) \<or>
      out_md_page out \<noteq> 0 \<and> \<not> md_page_used bs (out_md_page out) \<and>
      (\<forall>j. md_page_used (out_bs out) j = (j = out_md_page out \<or> md_page_used bs j))"
    and "unat (num_free_clusters bs) = unat (num_free_clusters (out_bs out)) + 1"
  shows "alloc_effect bs blob out"
  unfolding alloc_effect_def assms(1) option.case using assms(2-6) by blast

lemma alloc_effect_nospcI:
  assumes "rc out = Some ENOSPC" "bs_inv (out_bs out)" "out_blob out = blob"
    and "\<And>j. cluster_used (out_bs out) j = cluster_used bs j"
    and "\<And>j. md_page_used (out_bs out) j = md_page_used bs j"
    and "num_free_clusters (out_bs out) = num_free_clusters bs"
  shows "alloc_effect bs blob out"
  unfolding alloc_effect_def assms(1) option.case using assms(2-6) by blast

lemma allocate_finish_out:
  "bs_allocate_finish bs blob cluster_num cluster update_map ep md_page = Inr out \<Longrightarrow>
    rc out = None \<and> out_cluster out = cluster \<and> out_md_page out = md_page \<and> out_bs out = bs"
  by (auto simp: bs_allocate_finish_def split: if_splits dest!: map_sum_InrD)

text \<open>What \<^verbatim>\<open>bs_allocate_cluster\<close> can return once a cluster has been claimed.\<close>

lemma allocate_cluster_claimed:
  assumes "bs_claim_cluster bs = Inr (c, bs1)" "c \<noteq> UINT32_MAX" "used_lock_held bs"
    and out: "bs_allocate_cluster bs blob cluster_num low update_map = Inr out"
  obtains (plain) ep where
      "bs_allocate_finish bs1 blob cluster_num c update_map ep low = Inr out"
  | (paged) ep page bs2 where "bs_alloc_md_page bs1 low = Inr (page, bs2)" "page \<noteq> UINT32_MAX"
      "bs_allocate_finish bs2 blob cluster_num c update_map ep page = Inr out"
  | (undone) bs2 bs3 where "bs_alloc_md_page bs1 low = Inr (UINT32_MAX, bs2)"
      "bs_release_cluster bs2 c = Inr bs3"
      "out = \<lparr>rc = Some ENOSPC, out_cluster = c, out_md_page = UINT32_MAX,
               out_blob = blob, out_bs = bs3\<rparr>"
  using out unfolding bs_allocate_cluster_def c_assert_def
  by (simp add: assms(1-3) split: if_splits sum.splits prod.splits)
    (blast dest: map_sum_InrD)+

lemma allocate_cluster_returns_effect:
  assumes inv: "bs_inv bs"
    and out: "bs_allocate_cluster bs blob cluster_num low update_map = Inr out"
  shows "alloc_effect bs blob out"
  using inv
proof (cases rule: claim_cluster_cases)
  case full
  then have "out = \<lparr>rc = Some ENOSPC, out_cluster = UINT32_MAX, out_md_page = low,
      out_blob = blob, out_bs = bs\<rparr>"
    using out bs_invD(1) [OF inv] by (simp add: bs_allocate_cluster_def c_assert_def)
  with inv show ?thesis by (intro alloc_effect_nospcI) simp_all
next
  case (ok c bs1)
  from ok(1,2) bs_invD(1) [OF inv] out show ?thesis
  proof (cases rule: allocate_cluster_claimed)
    case (plain ep)
    note o = allocate_finish_out [OF plain]
    from ok(3-7) show ?thesis by (intro alloc_effect_okI) (simp_all add: o)
  next
    case (paged ep page bs2)
    note o = allocate_finish_out [OF paged(3)]
    from ok(3) show ?thesis
    proof (cases rule: alloc_md_page_cases [where low = low])
      case full
      with paged(1,2) show ?thesis by simp
    next
      case md: (ok page' bs2')
      with paged(1) have "page' = page" "bs2' = bs2" by simp_all
      note md = md(3-) [unfolded this]
      have "md_page_used bs2 j = (j = page \<or> md_page_used bs j)" for j
        using md(4) [of j] ok(6) by simp
      moreover have "\<not> md_page_used bs page" using md(3) ok(6) by simp
      ultimately show ?thesis using ok(4,5,7) md(1,2,5,6)
        by (intro alloc_effect_okI) (simp_all add: o)
    qed
  next
    case (undone bs2 bs3)
    from ok(3) have "bs2 = bs1" 
      by (cases rule: alloc_md_page_cases [where low = low]) (use undone(1) in auto)
    obtain bs3' where r: "bs_release_cluster bs1 c = Inr bs3'" "bs_inv bs3'"
      "\<And>j. cluster_used bs3' j = (j \<noteq> c \<and> cluster_used bs1 j)"
      "used_md_pages bs3' = used_md_pages bs1"
      "unat (num_free_clusters bs3') = unat (num_free_clusters bs1) + 1"
      using release_cluster_used [OF ok(3), of c] ok(5) [of c] by blast
    with undone(2) \<open>bs2 = bs1\<close> have b3: "bs3' = bs3" by simp
    have "cluster_used bs3 j = cluster_used bs j" for j
      using r(3) [of j] ok(4) ok(5) [of j] unfolding b3 by blast
    moreover have "num_free_clusters bs3 = num_free_clusters bs"
      using r(5) ok(7) unfolding b3 word_unat_eq_iff by simp
    ultimately show ?thesis using r(2,4) ok(6) unfolding undone(3) b3
      by (intro alloc_effect_nospcI) simp_all
  qed
qed

text \<open>The precondition of the callers: the metadata thread, a cluster index within the blob's
  cluster array and its extent table, and a sane geometry.\<close>

definition alloc_ready :: "spdk_blob_store \<Rightarrow> spdk_blob \<Rightarrow> u32 \<Rightarrow> bool" where
  "alloc_ready bs blob cluster_num \<longleftrightarrow> md_op_ok blob \<and>
     unat cluster_num < length (clusters blob) \<and>
     (use_extent_table blob \<longrightarrow>
        bs_cluster_to_extent_table_id cluster_num < length (extent_pages blob)) \<and>
     blocklen bs \<noteq> 0 \<and> 0 < cluster_sz bs div blocklen bs"

lemma alloc_ready_cong:
  "alloc_ready bs blob n \<Longrightarrow> blocklen bs' = blocklen bs \<Longrightarrow> cluster_sz bs' = cluster_sz bs \<Longrightarrow>
    alloc_ready bs' blob n"
  by (simp add: alloc_ready_def)

lemma claim_cluster_geometry:
  "bs_claim_cluster bs = Inr (c, bs') \<Longrightarrow> blocklen bs' = blocklen bs \<and> cluster_sz bs' = cluster_sz bs"
  by (auto simp: bs_claim_cluster_def c_assert_def split: if_splits sum.splits)

lemma alloc_md_page_geometry:
  "bs_alloc_md_page bs low = Inr (page, bs') \<Longrightarrow>
    blocklen bs' = blocklen bs \<and> cluster_sz bs' = cluster_sz bs"
  by (auto simp: bs_alloc_md_page_def bs_claim_md_page_def c_assert_def Let_def
      split: if_splits sum.splits dest!: map_sum_InrD)

lemma allocate_finish_total:
  "alloc_ready bs blob n \<Longrightarrow> \<exists>out. bs_allocate_finish bs blob n c update_map ep page = Inr out"
  by (auto simp: bs_allocate_finish_def bs_update_map_def blob_insert_cluster_def c_assert_def
      bs_cluster_to_lba_def alloc_ready_def split: option.split)

lemma allocate_cluster_total:
  assumes inv: "bs_inv bs" and ready: "alloc_ready bs blob n"
  shows "\<exists>out. bs_allocate_cluster bs blob n low update_map = Inr out"
  using inv
proof (cases rule: claim_cluster_cases)
  case full
  then show ?thesis using bs_invD(1) [OF inv] by (simp add: bs_allocate_cluster_def c_assert_def)
next
  case (ok c bs1)
  have r1: "alloc_ready bs1 blob n"
    using ready claim_cluster_geometry [OF ok(1)] by (blast intro: alloc_ready_cong)
  note eq = bs_allocate_cluster_def c_assert_def ok(1,2) bs_invD(1) [OF inv]
  show ?thesis
  proof (cases "use_extent_table blob")
    case False
    then show ?thesis using allocate_finish_total [OF r1] by (simp add: eq)
  next
    case True
    with ready obtain ep where ep: "bs_cluster_to_extent_page blob n = Inr ep"
      by (auto simp: bs_cluster_to_extent_page_def alloc_ready_def c_assert_def Let_def)
    from ok(3) show ?thesis
    proof (cases rule: alloc_md_page_cases [where low = low])
      case full
      obtain bs3 where "bs_release_cluster bs1 c = Inr bs3"
        using release_cluster_used [OF ok(3), of c] ok(5) [of c] by blast
      with full True ep allocate_finish_total [OF r1] show ?thesis by (simp add: eq)
    next
      case md: (ok page bs2)
      have "alloc_ready bs2 blob n"
        using r1 alloc_md_page_geometry [OF md(1)] by (blast intro: alloc_ready_cong)
      with md(1,2) True ep allocate_finish_total allocate_finish_total [OF r1] show ?thesis
        by (simp add: eq)
    qed
  qed
qed

text \<open>C10 (safety). Under the callers' precondition, allocating a cluster for a blob never fails an
  assertion. It either succeeds, claiming exactly one
  cluster that was free and at most one free metadata page other than page 0, or returns
  \<^verbatim>\<open>-ENOSPC\<close> with the blob, the clusters, the metadata pages and the free count as they
  were: when no metadata page is left, the claimed cluster is given back.\<close>

theorem allocate_cluster_effect:
  assumes "bs_inv bs" and "alloc_ready bs blob cluster_num"
  shows "\<exists>out. bs_allocate_cluster bs blob cluster_num low update_map = Inr out \<and>
    alloc_effect bs blob out"
  using allocate_cluster_total [OF assms] allocate_cluster_returns_effect [OF assms(1)] by blast

definition example_bs :: spdk_blob_store where
  "example_bs = \<lparr>used_lock_held = True, used_md_pages = \<lparr>bit_count = 4, words = [1, 2]\<rparr>,
     used_clusters = example_pool, num_free_clusters = 2, total_clusters = 2,
     cluster_sz = 4096, blocklen = 512\<rparr>"

definition example_blob :: spdk_blob where
  "example_blob = \<lparr>md_op_ok = True, use_extent_table = True, clusters = [0, 0],
     num_allocated_clusters = 0, extent_pages = [0]\<rparr>"

lemma example_bs_inv: "bs_inv example_bs"
proof -
  have "spdk_bit_pool_create (Some (\<lambda>_. 0)) True 2 = Some example_pool"
    by (simp add: spdk_bit_pool_create_def spdk_bit_array_create_def spdk_bit_array_resize_def
        bit_array_word_count_def realloc_words_def example_pool_def Let_def)
  then have "pool_inv example_pool" by (rule create_pool_inv) simp
  moreover have "ba_wf (used_md_pages example_bs)" by code_simp
  moreover have "ba_clean (used_md_pages example_bs)" unfolding ba_clean_code by code_simp
  ultimately show ?thesis
    by (simp add: bs_inv_def example_bs_def spdk_bit_pool_count_free_def capacity_eq example_pool_def)
qed

lemma allocate_cluster_effect_witness:
  "\<exists>out. bs_allocate_cluster example_bs example_blob 1 0 True = Inr out \<and>
     extent_pages (out_blob out) = [1] \<and> alloc_effect example_bs example_blob out"
proof -
  have "alloc_ready example_bs example_blob 1" by code_simp
  from allocate_cluster_effect [OF example_bs_inv this]
  obtain out where o: "bs_allocate_cluster example_bs example_blob 1 0 True = Inr out"
    "alloc_effect example_bs example_blob out" by blast
  have "extent_pages (out_blob (projr (bs_allocate_cluster example_bs example_blob 1 0 True))) = [1]"
    by code_simp
  with o show ?thesis by simp
qed

end
