(* ===== verification/Bdev_Core.thy ===== *)
theory Bdev_Core
  imports SPDK_Prelude
begin

text \<open>
  The range check of the block device layer (\<^verbatim>\<open>lib/bdev/bdev.c\<close>), shared by the components that
  rely on it: an I/O or a quiesce request is passed on only if its blocks lie within the device.
\<close>

definition bdev_io_valid_blocks :: "u64 \<Rightarrow> u64 \<Rightarrow> u64 \<Rightarrow> bool" where
  "bdev_io_valid_blocks bcnt offset num =
     (if offset + num < offset then False else if bcnt < offset + num then False else True)"

lemma valid_blocks_iff: "bdev_io_valid_blocks bcnt offset num \<longleftrightarrow> unat offset + unat num \<le> unat bcnt"
proof (cases "unat offset + unat num < 18446744073709551616")
  case True
  then show ?thesis
    by (auto simp: bdev_io_valid_blocks_def word_less_nat_alt unat_add_u64)
next
  case False
  moreover have "unat (offset + num) < unat offset"
  proof -
    let ?s = "unat offset + unat num"
    have lt: "?s - 18446744073709551616 < 18446744073709551616" "?s - 18446744073709551616 < unat offset"
      using False unat_u64_bound [of offset] unat_u64_bound [of num] by linarith+
    then have "?s mod 18446744073709551616 = ?s - 18446744073709551616"
      using False by (simp add: le_mod_geq)
    then show ?thesis using lt(2) by (simp add: unat_word_ariths)
  qed
  moreover have "\<not> unat offset + unat num \<le> unat bcnt"
    using False unat_u64_bound [of bcnt] by linarith
  ultimately show ?thesis by (simp add: bdev_io_valid_blocks_def word_less_nat_alt)
qed

end
