(* ===== verification/Zone_Block.thy ===== *)
theory Zone_Block
  imports Bdev_Core
begin

text \<open>
  The zoned block device emulated on a conventional one
  (\<^verbatim>\<open>module/bdev/zone_block/vbdev_zone_block.c\<close>): the zone state machine, the request
  handlers and the registration of a device. A handler changes a zone under the zone's spin lock
  and has released it when it submits a command to the base device. Requests on several channels
  interleave there: a handler returns how it ends or the command it is about to submit, and the
  step relation submits the command in a step of its own. The base device is a parameter: whether
  it supports unmap, and what the submission of a command to it returns.
\<close>

section \<open>Data\<close>

datatype zone_state =
    ZONE_STATE_EMPTY | ZONE_STATE_OPEN | ZONE_STATE_FULL | ZONE_STATE_CLOSED
  | ZONE_STATE_READ_ONLY | ZONE_STATE_OFFLINE | ZONE_STATE_EXP_OPEN | ZONE_STATE_NOT_WP

datatype zone_type = ZONE_TYPE_CNV | ZONE_TYPE_SEQWR | ZONE_TYPE_SEQWP

datatype zone_action = ZONE_CLOSE | ZONE_FINISH | ZONE_OPEN | ZONE_RESET | ZONE_OFFLINE

record spdk_bdev_zone_info =
  zone_id :: u64
  write_pointer :: u64
  capacity :: u64
  zstate :: zone_state
  ztype :: zone_type

record bdev_zone_block =
  bdev_name :: string
  base_name :: string
  blockcnt :: u64
  zone_size :: u64
  optimal_open_zones :: u64
  zones :: "spdk_bdev_zone_info list"
  num_zones :: u64
  zone_capacity :: u64
  zone_shift :: u64

text \<open>The I/O types the module distinguishes; \<open>IO_OTHER\<close> stands for the remaining ones.\<close>

datatype io_type =
    IO_READ | IO_WRITE | IO_GET_ZONE_INFO | IO_ZONE_MANAGEMENT | IO_ZONE_APPEND | IO_OTHER

text \<open>The members of \<^verbatim>\<open>u.bdev\<close> and \<^verbatim>\<open>u.zone_mgmt\<close> the module reads; the data buffers
  are passed on untouched.\<close>

record spdk_bdev_io =
  iotype :: io_type
  offset_blocks :: u64
  num_blocks :: u64
  mgmt_zone_id :: u64
  mgmt_num_zones :: u64
  mgmt_action :: zone_action

datatype io_status = STATUS_SUCCESS | STATUS_FAILED | STATUS_NOMEM

datatype base_cmd = BaseUnmap u64 u64 | BaseWrite u64 u64 | BaseRead u64 u64

datatype io_effect = Complete io_status | Submit base_cmd

record base_bdev =
  unmap_supported :: bool
  submit_rc :: "base_cmd \<Rightarrow> errno option"

text \<open>Where a handler is when it has released the lock: at its end, with its code (\<open>None\<close> is 0) and what
  it did to the request, or before the submission of a command whose code it will return.\<close>

datatype half = Ended "errno option" "io_effect list" | Base base_cmd

text \<open>A command whose submission fails is never executed and its callback never called.\<close>

definition submit_base :: "base_bdev \<Rightarrow> base_cmd \<Rightarrow> errno option \<times> io_effect list" where
  "submit_base base cmd =
     (case submit_rc base cmd of None \<Rightarrow> (None, [Submit cmd]) | Some e \<Rightarrow> (Some e, []))"

definition finish_half :: "base_bdev \<Rightarrow> half \<Rightarrow> errno option \<times> io_effect list" where
  "finish_half base h = (case h of Ended rc effs \<Rightarrow> (rc, effs) | Base cmd \<Rightarrow> submit_base base cmd)"

lemma finish_half_simps [simp]:
  "finish_half base (Ended rc effs) = (rc, effs)" "finish_half base (Base cmd) = submit_base base cmd"
  by (simp_all add: finish_half_def)

section \<open>Zone lookup\<close>

definition zone_block_get_zone_containing_lba :: "bdev_zone_block \<Rightarrow> u64 \<Rightarrow> nat option" where
  "zone_block_get_zone_containing_lba node lba =
     (let index = drop_bit (unat (zone_shift node)) lba in
      if num_zones node \<le> index then None else Some (unat index))"

definition zone_block_get_zone_by_slba :: "bdev_zone_block \<Rightarrow> u64 \<Rightarrow> nat option" where
  "zone_block_get_zone_by_slba node start_lba =
     (case zone_block_get_zone_containing_lba node start_lba of
        None \<Rightarrow> None
      | Some i \<Rightarrow> if zone_id (zones node ! i) = start_lba then Some i else None)"

section \<open>Handlers\<close>

text \<open>The loop copies zone after zone; \<open>buf\<close> is what the caller's buffer has received.\<close>

fun get_zone_info_loop ::
  "bdev_zone_block \<Rightarrow> nat \<Rightarrow> u64 \<Rightarrow> spdk_bdev_zone_info list \<Rightarrow>
    errno option \<times> spdk_bdev_zone_info list" where
  "get_zone_info_loop node 0 zid buf = (None, buf)"
| "get_zone_info_loop node (Suc n) zid buf =
     (case zone_block_get_zone_by_slba node zid of
        None \<Rightarrow> (Some EINVAL, buf)
      | Some i \<Rightarrow> get_zone_info_loop node n (zid + zone_size node) (buf @ [zones node ! i]))"

definition zone_block_get_zone_info ::
  "bdev_zone_block \<Rightarrow> spdk_bdev_io \<Rightarrow> half \<times> spdk_bdev_zone_info list" where
  "zone_block_get_zone_info node io =
     (case get_zone_info_loop node (unat (mgmt_num_zones io)) (mgmt_zone_id io) [] of
        (None, buf) \<Rightarrow> (Ended None [Complete STATUS_SUCCESS], buf)
      | (Some e, buf) \<Rightarrow> (Ended (Some e) [], buf))"

definition zone_block_open_zone :: "spdk_bdev_zone_info \<Rightarrow> half \<times> spdk_bdev_zone_info" where
  "zone_block_open_zone zone =
     (if zstate zone \<in> {ZONE_STATE_EMPTY, ZONE_STATE_OPEN, ZONE_STATE_CLOSED}
      then (Ended None [Complete STATUS_SUCCESS], zone\<lparr>zstate := ZONE_STATE_OPEN\<rparr>)
      else (Ended (Some EINVAL) [], zone))"

text \<open>Whether the base device supports unmap is asked after the lock has been released; its answer is
  always the same.\<close>

definition zone_block_reset_zone ::
  "base_bdev \<Rightarrow> spdk_bdev_zone_info \<Rightarrow> half \<times> spdk_bdev_zone_info" where
  "zone_block_reset_zone base zone =
     (if zstate zone = ZONE_STATE_EMPTY then (Ended None [Complete STATUS_SUCCESS], zone)
      else if zstate zone \<in> {ZONE_STATE_OPEN, ZONE_STATE_FULL, ZONE_STATE_CLOSED} then
        (let zone' = zone\<lparr>zstate := ZONE_STATE_EMPTY, write_pointer := zone_id zone\<rparr> in
         if \<not> unmap_supported base then (Ended None [Complete STATUS_SUCCESS], zone')
         else (Base (BaseUnmap (zone_id zone') (capacity zone')), zone'))
      else (Ended (Some EINVAL) [], zone))"

definition zone_block_close_zone :: "spdk_bdev_zone_info \<Rightarrow> half \<times> spdk_bdev_zone_info" where
  "zone_block_close_zone zone =
     (if zstate zone \<in> {ZONE_STATE_OPEN, ZONE_STATE_CLOSED}
      then (Ended None [Complete STATUS_SUCCESS], zone\<lparr>zstate := ZONE_STATE_CLOSED\<rparr>)
      else (Ended (Some EINVAL) [], zone))"

definition zone_block_finish_zone :: "spdk_bdev_zone_info \<Rightarrow> half \<times> spdk_bdev_zone_info" where
  "zone_block_finish_zone zone =
     (Ended None [Complete STATUS_SUCCESS],
      zone\<lparr>write_pointer := zone_id zone + capacity zone, zstate := ZONE_STATE_FULL\<rparr>)"

definition zone_block_zone_management ::
  "base_bdev \<Rightarrow> bdev_zone_block \<Rightarrow> spdk_bdev_io \<Rightarrow> half \<times> bdev_zone_block" where
  "zone_block_zone_management base node io =
     (case zone_block_get_zone_by_slba node (mgmt_zone_id io) of
        None \<Rightarrow> (Ended (Some EINVAL) [], node)
      | Some i \<Rightarrow>
          (let zone = zones node ! i;
               (h, zone') =
                 (case mgmt_action io of
                    ZONE_RESET \<Rightarrow> zone_block_reset_zone base zone
                  | ZONE_OPEN \<Rightarrow> zone_block_open_zone zone
                  | ZONE_CLOSE \<Rightarrow> zone_block_close_zone zone
                  | ZONE_FINISH \<Rightarrow> zone_block_finish_zone zone
                  | ZONE_OFFLINE \<Rightarrow> (Ended (Some EINVAL) [], zone))
           in (h, node\<lparr>zones := (zones node)[i := zone']\<rparr>)))"

text \<open>The locked section of \<^verbatim>\<open>zone_block_write\<close>: either \<^verbatim>\<open>-EINVAL\<close>, or the address to
  write at on the base device; in both cases with the zone as it is left.\<close>

definition zone_write_locked ::
  "spdk_bdev_zone_info \<Rightarrow> bool \<Rightarrow> u64 \<Rightarrow> u64 \<Rightarrow> (u64 option \<times> spdk_bdev_zone_info) res" where
  "zone_write_locked zone is_append lba len =
     (if zstate zone \<in> {ZONE_STATE_OPEN, ZONE_STATE_EMPTY, ZONE_STATE_CLOSED} then
        (let zone1 = zone\<lparr>zstate := ZONE_STATE_OPEN\<rparr>;
             wp = write_pointer zone1;
             num_blocks_left = zone_id zone1 + capacity zone1 - wp
         in if \<not> is_append \<and> lba \<noteq> wp then Inr (None, zone1)
            else if num_blocks_left < len then Inr (None, zone1)
            else
              (let zone2 = zone1\<lparr>write_pointer := wp + len\<rparr> in
               c_assert (write_pointer zone2 \<le> zone_id zone2 + capacity zone2)
                 (Inr (Some (if is_append then wp else lba),
                       if write_pointer zone2 = zone_id zone2 + capacity zone2
                       then zone2\<lparr>zstate := ZONE_STATE_FULL\<rparr> else zone2))))
      else Inr (None, zone))"

definition zone_block_write :: "bdev_zone_block \<Rightarrow> spdk_bdev_io \<Rightarrow> (half \<times> bdev_zone_block) res" where
  "zone_block_write node io =
     (let is_append = (iotype io = IO_ZONE_APPEND);
          lba = offset_blocks io;
          zone = (if is_append then zone_block_get_zone_by_slba node lba
                  else zone_block_get_zone_containing_lba node lba)
      in case zone of
           None \<Rightarrow> Inr (Ended (Some EINVAL) [], node)
         | Some i \<Rightarrow>
             map_sum id (\<lambda>(addr, zone').
               (case addr of
                  None \<Rightarrow> Ended (Some EINVAL) []
                | Some a \<Rightarrow> Base (BaseWrite a (num_blocks io)),
                node\<lparr>zones := (zones node)[i := zone']\<rparr>))
               (zone_write_locked (zones node ! i) is_append lba (num_blocks io)))"

text \<open>The completion of the base write: the appended address is reported to the request.\<close>

definition zone_block_complete_write ::
  "spdk_bdev_io \<Rightarrow> bool \<Rightarrow> u64 \<Rightarrow> spdk_bdev_io \<times> io_status" where
  "zone_block_complete_write orig_io success base_offset =
     (if success \<and> iotype orig_io = IO_ZONE_APPEND
      then orig_io\<lparr>offset_blocks := base_offset\<rparr> else orig_io,
      if success then STATUS_SUCCESS else STATUS_FAILED)"

definition zone_block_read :: "bdev_zone_block \<Rightarrow> spdk_bdev_io \<Rightarrow> half" where
  "zone_block_read node io =
     (let len = num_blocks io; lba = offset_blocks io in
      case zone_block_get_zone_containing_lba node lba of
        None \<Rightarrow> Ended (Some EINVAL) []
      | Some i \<Rightarrow>
          if zone_id (zones node ! i) + capacity (zones node ! i) < lba + len
          then Ended (Some EINVAL) []
          else Base (BaseRead lba len))"

definition submit_status :: "errno option \<Rightarrow> io_effect list" where
  "submit_status rc =
     (case rc of
        None \<Rightarrow> []
      | Some e \<Rightarrow> [Complete (if e = ENOMEM then STATUS_NOMEM else STATUS_FAILED)])"

text \<open>The switch of \<^verbatim>\<open>zone_block_submit_request\<close> up to the submission, with the zone information
  that is copied out and the new state; then the submission and what follows it.\<close>

definition zone_block_request ::
  "base_bdev \<Rightarrow> bdev_zone_block \<Rightarrow> spdk_bdev_io \<Rightarrow>
    (half \<times> spdk_bdev_zone_info list \<times> bdev_zone_block) res" where
  "zone_block_request base node io =
     (case iotype io of
        IO_GET_ZONE_INFO \<Rightarrow> (let (h, buf) = zone_block_get_zone_info node io in Inr (h, buf, node))
      | IO_ZONE_MANAGEMENT \<Rightarrow> (let (h, node') = zone_block_zone_management base node io in Inr (h, [], node'))
      | IO_READ \<Rightarrow> Inr (zone_block_read node io, [], node)
      | IO_OTHER \<Rightarrow> Inr (Ended (Some ENOTSUP) [], [], node)
      | _ \<Rightarrow> map_sum id (\<lambda>(h, node'). (h, [], node')) (zone_block_write node io))"

definition zone_block_submit_request ::
  "base_bdev \<Rightarrow> bdev_zone_block \<Rightarrow> spdk_bdev_io \<Rightarrow>
    (io_effect list \<times> spdk_bdev_zone_info list \<times> bdev_zone_block) res" where
  "zone_block_submit_request base node io =
     map_sum id (\<lambda>(h, buf, node').
         let (rc, effs) = finish_half base h in (effs @ submit_status rc, buf, node'))
       (zone_block_request base node io)"

definition zone_block_io_type_supported :: "io_type \<Rightarrow> bool" where
  "zone_block_io_type_supported t =
     (t \<in> {IO_ZONE_MANAGEMENT, IO_WRITE, IO_READ, IO_ZONE_APPEND})"

section \<open>Claims\<close>

text \<open>The claim the bdev layer keeps of a device: its kind and, for a claim of the first version, the
  module that holds it. A device is born and registered without one.\<close>

datatype claim_type =
    CLAIM_NONE | CLAIM_EXCL_WRITE | CLAIM_READ_MANY_WRITE_ONE | CLAIM_READ_MANY_WRITE_NONE
  | CLAIM_READ_MANY_WRITE_SHARED

record bdev_claim =
  claim_type :: claim_type
  claim_module :: "string option"

definition unclaimed :: bdev_claim where
  "unclaimed = \<lparr>claim_type = CLAIM_NONE, claim_module = None\<rparr>"

text \<open>\<open>desc\<close> is the write flag of the descriptor that is passed, if one is.\<close>

definition spdk_bdev_module_claim_bdev ::
  "bool option \<Rightarrow> string \<Rightarrow> bdev_claim \<Rightarrow> errno option \<times> bool option \<times> bdev_claim" where
  "spdk_bdev_module_claim_bdev desc module c =
     (if claim_type c \<noteq> CLAIM_NONE then (Some EPERM, desc, c)
      else (None, map_option (\<lambda>_. True) desc,
            c\<lparr>claim_type := CLAIM_EXCL_WRITE, claim_module := Some module\<rparr>))"

definition spdk_bdev_module_release_bdev :: "bdev_claim \<Rightarrow> bdev_claim res" where
  "spdk_bdev_module_release_bdev c =
     c_assert (claim_module c \<noteq> None)
       (c_assert (claim_type c = CLAIM_EXCL_WRITE)
         (Inr (c\<lparr>claim_type := CLAIM_NONE, claim_module := None\<rparr>)))"

definition claimed_by :: "string \<Rightarrow> bdev_claim" where
  "claimed_by module = \<lparr>claim_type = CLAIM_EXCL_WRITE, claim_module = Some module\<rparr>"

lemma claim_unclaimed [simp]:
  "spdk_bdev_module_claim_bdev desc module unclaimed =
    (None, map_option (\<lambda>_. True) desc, claimed_by module)"
  by (simp add: spdk_bdev_module_claim_bdev_def unclaimed_def claimed_by_def)

lemma release_claimed [simp]: "spdk_bdev_module_release_bdev (claimed_by module) = Inr unclaimed"
  by (simp add: spdk_bdev_module_release_bdev_def unclaimed_def claimed_by_def c_assert_def)

lemma release_asserts_iff:
  "spdk_bdev_module_release_bdev c = Inl AssertFail \<longleftrightarrow>
    claim_module c = None \<or> claim_type c \<noteq> CLAIM_EXCL_WRITE"
  by (auto simp: spdk_bdev_module_release_bdev_def c_assert_def)

section \<open>Creation\<close>

record bdev_zone_block_config =
  cfg_vbdev_name :: string
  cfg_bdev_name :: string
  cfg_zone_capacity :: u64
  cfg_optimal_open_zones :: u64

text \<open>The module's two global lists, and the claims of the devices it can be built on, by name.\<close>

record zone_module =
  g_bdev_configs :: "bdev_zone_block_config list"
  g_bdev_nodes :: "bdev_zone_block list"
  base_claims :: "string \<Rightarrow> bdev_claim"

definition bdev_zoned_if :: string where
  "bdev_zoned_if = ''bdev_zoned_block''"

definition zone_block_insert_name ::
  "bool \<Rightarrow> string \<Rightarrow> string \<Rightarrow> u64 \<Rightarrow> u64 \<Rightarrow> zone_module \<Rightarrow> errno option \<times> zone_module" where
  "zone_block_insert_name alloc_ok bname vname cap optimal m =
     (if \<exists>c \<in> set (g_bdev_configs m). cfg_vbdev_name c = vname \<or> cfg_bdev_name c = bname
      then (Some EEXIST, m)
      else if \<not> alloc_ok then (Some ENOMEM, m)
      else (None, m\<lparr>g_bdev_configs := g_bdev_configs m @
              [\<lparr>cfg_vbdev_name = vname, cfg_bdev_name = bname, cfg_zone_capacity = cap,
                cfg_optimal_open_zones = optimal\<rparr>]\<rparr>))"

definition spdk_u64log2 :: "u64 \<Rightarrow> nat" where
  "spdk_u64log2 x =
     (if x = 0 then 0 else 63 - length (takeWhile (\<lambda>i. \<not> bit x i) (rev [0 ..< 64])))"

text \<open>A shift by the width of the type is undefined.\<close>

definition spdk_align64pow2 :: "u64 \<Rightarrow> u64 res" where
  "spdk_align64pow2 x =
     (let n = 1 + spdk_u64log2 (x - 1) in
      if 64 \<le> n then Inl Undefined else Inr (push_bit n 1))"

text \<open>\<open>spin_fail\<close> is the first zone whose \<^verbatim>\<open>pthread_spin_init\<close> fails, if any; the memory of
  the zones is released by the caller then.\<close>

definition zone_block_init_zone_info ::
  "nat option \<Rightarrow> bdev_zone_block \<Rightarrow> errno option \<times> bdev_zone_block" where
  "zone_block_init_zone_info spin_fail node =
     (if (case spin_fail of None \<Rightarrow> False | Some i \<Rightarrow> i < unat (num_zones node))
      then (Some ENOMEM, node)
      else (None, node\<lparr>zones := map (\<lambda>i.
             \<lparr>zone_id = zone_size node * of_nat i,
              write_pointer = zone_size node * of_nat i + zone_capacity node,
              capacity = zone_capacity node,
              zstate = ZONE_STATE_FULL, ztype = ZONE_TYPE_SEQWR\<rparr>)
             [0 ..< unat (num_zones node)]\<rparr>))"

text \<open>What the bdev layer and the allocator answer during a registration. \<open>new_claim\<close> is the claim
  of the new device when \<^verbatim>\<open>spdk_bdev_register\<close> returns: none, unless a module has
  examined and claimed the device meanwhile.\<close>

record register_env =
  open_rc :: "errno option"
  base_is_zoned :: bool
  base_blockcnt :: u64
  node_alloc_ok :: bool
  name_alloc_ok :: bool
  zones_alloc_ok :: bool
  uuid_rc :: "errno option"
  spin_fail :: "nat option"
  bdev_register_rc :: "errno option"
  new_claim :: bdev_claim

definition zone_block_remove_config :: "string \<Rightarrow> zone_module \<Rightarrow> zone_module" where
  "zone_block_remove_config vname m =
     m\<lparr>g_bdev_configs := filter (\<lambda>c. cfg_vbdev_name c \<noteq> vname) (g_bdev_configs m)\<rparr>"

text \<open>
  The body of the loop of \<^verbatim>\<open>zone_block_register\<close> for a matching entry. Every failure but
  \<^verbatim>\<open>-ENODEV\<close> removes the entry. The base device is claimed for the module; when
  \<^verbatim>\<open>spdk_bdev_register\<close> fails then, the code releases the claim of the new device, not the base
  device's.
\<close>

definition zone_block_register_one ::
  "register_env \<Rightarrow> bdev_zone_block_config \<Rightarrow> zone_module \<Rightarrow> (errno option \<times> zone_module) res" where
  "zone_block_register_one env name m =
     (let fail = (\<lambda>e. Inr (Some e, zone_block_remove_config (cfg_vbdev_name name) m));
          bname = cfg_bdev_name name
      in
      case open_rc env of
        Some e \<Rightarrow> if e = ENODEV then Inr (Some ENODEV, m) else fail e
      | None \<Rightarrow>
        if base_is_zoned env then fail EEXIST
        else if \<not> node_alloc_ok env then fail ENOMEM
        else if \<not> name_alloc_ok env then fail ENOMEM
        else
          (case spdk_align64pow2 (cfg_zone_capacity name) of
             Inl e \<Rightarrow> Inl e
           | Inr zsize \<Rightarrow>
             if zsize = 0 then fail EINVAL
             else if \<not> zones_alloc_ok env then fail ENOMEM
             else
               (case uuid_rc env of
                  Some e \<Rightarrow> fail e
                | None \<Rightarrow>
                  (let nz = base_blockcnt env div zsize;
                       node0 = \<lparr>bdev_name = cfg_vbdev_name name, base_name = bname,
                          blockcnt = nz * zsize, zone_size = zsize,
                          optimal_open_zones = cfg_optimal_open_zones name,
                          zones = [], num_zones = nz, zone_capacity = cfg_zone_capacity name,
                          zone_shift = of_nat (spdk_u64log2 zsize)\<rparr>
                   in case zone_block_init_zone_info (spin_fail env) node0 of
                        (Some e, _) \<Rightarrow> fail e
                      | (None, node) \<Rightarrow>
                          (case spdk_bdev_module_claim_bdev (Some True) bdev_zoned_if (base_claims m bname) of
                             (Some e, _, _) \<Rightarrow> fail e
                           | (None, _, c) \<Rightarrow>
                             (let m1 = m\<lparr>base_claims := (base_claims m)(bname := c)\<rparr> in
                              case bdev_register_rc env of
                                Some e \<Rightarrow>
                                  res_bind (spdk_bdev_module_release_bdev (new_claim env)) (\<lambda>_.
                                    Inr (Some e, zone_block_remove_config (cfg_vbdev_name name) m1))
                              | None \<Rightarrow>
                                  Inr (None, m1\<lparr>g_bdev_nodes := g_bdev_nodes m @ [node]\<rparr>)))))))"

fun register_loop ::
  "register_env \<Rightarrow> string \<Rightarrow> bdev_zone_block_config list \<Rightarrow> zone_module \<Rightarrow>
    (errno option \<times> zone_module) res" where
  "register_loop env bname [] m = Inr (None, m)"
| "register_loop env bname (c # cs) m =
     (if cfg_bdev_name c \<noteq> bname then register_loop env bname cs m
      else (case zone_block_register_one env c m of
              Inl e \<Rightarrow> Inl e
            | Inr (Some e, m') \<Rightarrow> Inr (Some e, m')
            | Inr (None, m') \<Rightarrow> register_loop env bname cs m'))"

definition zone_block_register ::
  "register_env \<Rightarrow> string \<Rightarrow> zone_module \<Rightarrow> (errno option \<times> zone_module) res" where
  "zone_block_register env bname m = register_loop env bname (g_bdev_configs m) m"

definition vbdev_zone_block_create ::
  "bool \<Rightarrow> register_env \<Rightarrow> string \<Rightarrow> string \<Rightarrow> u64 \<Rightarrow> u64 \<Rightarrow> zone_module \<Rightarrow>
    (errno option \<times> zone_module) res" where
  "vbdev_zone_block_create alloc_ok env bname vname cap optimal m =
     (if cap = 0 then Inr (Some EINVAL, m)
      else if optimal = 0 then Inr (Some EINVAL, m)
      else (case zone_block_insert_name alloc_ok bname vname cap optimal m of
              (Some e, m') \<Rightarrow> Inr (Some e, m')
            | (None, m') \<Rightarrow>
                map_sum id (\<lambda>(rc, m''). (if rc = Some ENODEV then None else rc, m''))
                  (zone_block_register env bname m')))"

text \<open>Deletion: \<open>unregister_rc\<close> is what \<^verbatim>\<open>spdk_bdev_unregister_by_name\<close> returns; when it
  fails the callback gets its code, when it succeeds the device is destructed later.\<close>

definition vbdev_zone_block_delete ::
  "errno option \<Rightarrow> string \<Rightarrow> zone_module \<Rightarrow> errno option \<times> zone_module" where
  "vbdev_zone_block_delete unregister_rc vname m =
     (case unregister_rc of
        None \<Rightarrow> (None, zone_block_remove_config vname m)
      | Some e \<Rightarrow> (Some e, m))"

text \<open>The node is unlinked and the claim of its base device released.\<close>

definition zone_block_destruct :: "bdev_zone_block \<Rightarrow> zone_module \<Rightarrow> zone_module res" where
  "zone_block_destruct node m =
     res_bind (spdk_bdev_module_release_bdev (base_claims m (base_name node))) (\<lambda>c.
       Inr (m\<lparr>g_bdev_nodes := remove1 node (g_bdev_nodes m),
              base_claims := (base_claims m)(base_name node := c)\<rparr>))"

section \<open>Invariant\<close>

definition zone_end :: "spdk_bdev_zone_info \<Rightarrow> nat" where
  "zone_end z = unat (zone_id z) + unat (capacity z)"

definition zone_ok :: "spdk_bdev_zone_info \<Rightarrow> bool" where
  "zone_ok z \<longleftrightarrow> zone_end z < 2 ^ 64 \<and> 0 < capacity z \<and>
     zone_id z \<le> write_pointer z \<and> unat (write_pointer z) \<le> zone_end z \<and>
     zstate z \<in> {ZONE_STATE_EMPTY, ZONE_STATE_OPEN, ZONE_STATE_FULL, ZONE_STATE_CLOSED} \<and>
     (zstate z = ZONE_STATE_FULL \<longleftrightarrow> unat (write_pointer z) = zone_end z) \<and>
     (zstate z = ZONE_STATE_EMPTY \<longrightarrow> write_pointer z = zone_id z)"

definition node_wf :: "bdev_zone_block \<Rightarrow> bool" where
  "node_wf node \<longleftrightarrow> unat (zone_shift node) < 64 \<and>
     unat (zone_size node) = 2 ^ unat (zone_shift node) \<and>
     length (zones node) = unat (num_zones node) \<and>
     length (zones node) * unat (zone_size node) < 2 ^ 64 \<and>
     0 < zone_capacity node \<and> zone_capacity node \<le> zone_size node \<and>
     (\<forall>i < length (zones node). zone_ok (zones node ! i) \<and>
        unat (zone_id (zones node ! i)) = i * unat (zone_size node) \<and>
        capacity (zones node ! i) = zone_capacity node)"

lemma node_wfD:
  assumes "node_wf node"
  shows "unat (zone_shift node) < 64" "unat (zone_size node) = 2 ^ unat (zone_shift node)"
    "length (zones node) = unat (num_zones node)"
    "length (zones node) * unat (zone_size node) < 2 ^ 64"
    "0 < zone_capacity node" "zone_capacity node \<le> zone_size node"
    "\<And>i. i < length (zones node) \<Longrightarrow> zone_ok (zones node ! i)"
    "\<And>i. i < length (zones node) \<Longrightarrow> unat (zone_id (zones node ! i)) = i * unat (zone_size node)"
    "\<And>i. i < length (zones node) \<Longrightarrow> capacity (zones node ! i) = zone_capacity node"
  using assms unfolding node_wf_def by blast+

lemma node_wf_update:
  assumes "node_wf node" and "i < length (zones node)" and "zone_ok z"
    and "zone_id z = zone_id (zones node ! i)" and "capacity z = capacity (zones node ! i)"
  shows "node_wf (node\<lparr>zones := (zones node)[i := z]\<rparr>)"
  using assms by (auto simp: node_wf_def nth_list_update)

lemma unat_drop_bit_u64: "unat (drop_bit n (w :: u64)) = unat w div 2 ^ n"
  by (simp only: unat_drop_bit_eq) (simp only: drop_bit_eq_div)

lemma zone_containing_eq:
  assumes "node_wf node"
  shows "zone_block_get_zone_containing_lba node lba =
    (let i = unat lba div unat (zone_size node) in
     if i < length (zones node) then Some i else None)"
  using node_wfD(2,3) [OF assms]
  by (simp add: zone_block_get_zone_containing_lba_def Let_def unat_drop_bit_u64 word_le_nat_alt not_le)

lemma zone_by_slba_Some:
  assumes "node_wf node" and "zone_block_get_zone_by_slba node lba = Some i"
  shows "i < length (zones node)" and "zone_id (zones node ! i) = lba"
  using assms by (auto simp: zone_block_get_zone_by_slba_def zone_containing_eq Let_def
      split: option.splits if_splits)

lemma zone_containing_Some:
  assumes "node_wf node" and "zone_block_get_zone_containing_lba node lba = Some i"
  shows "i < length (zones node)" and "unat (zone_id (zones node ! i)) \<le> unat lba"
    and "unat lba < unat (zone_id (zones node ! i)) + unat (zone_size node)"
proof -
  have i: "i = unat lba div unat (zone_size node)" "i < length (zones node)"
    using assms by (auto simp: zone_containing_eq Let_def split: if_splits)
  have pos: "0 < unat (zone_size node)" using node_wfD(2) [OF assms(1)] by simp
  show "i < length (zones node)" by (rule i(2))
  show "unat (zone_id (zones node ! i)) \<le> unat lba"
    using node_wfD(8) [OF assms(1) i(2)] i(1) by simp
  show "unat lba < unat (zone_id (zones node ! i)) + unat (zone_size node)"
    using node_wfD(8) [OF assms(1) i(2)] i(1) pos
    by (metis dividend_less_div_times add.commute mult.commute)
qed

lemma zone_containing_iff:
  assumes wf: "node_wf node"
  shows "zone_block_get_zone_containing_lba node lba = Some i \<longleftrightarrow>
    i < length (zones node) \<and> unat (zone_id (zones node ! i)) \<le> unat lba \<and>
    unat lba < unat (zone_id (zones node ! i)) + unat (zone_size node)" (is "?l \<longleftrightarrow> ?r")
proof
  assume r: ?r
  then have "i * unat (zone_size node) \<le> unat lba" "unat lba < Suc i * unat (zone_size node)"
    using node_wfD(8) [OF wf, of i] by auto
  then have "unat lba div unat (zone_size node) = i" by (intro div_nat_eqI) (simp_all add: mult.commute)
  with r show ?l by (simp add: zone_containing_eq [OF wf])
qed (use zone_containing_Some [OF wf] in blast)

lemma unat_zone_end:
  "zone_ok z \<Longrightarrow> unat (zone_id z + capacity z) = zone_end z"
  by (simp add: zone_ok_def zone_end_def unat_add_u64)

subsection \<open>The write path\<close>

definition write_accepted :: "spdk_bdev_zone_info \<Rightarrow> bool \<Rightarrow> u64 \<Rightarrow> u64 \<Rightarrow> bool" where
  "write_accepted z is_append lba len \<longleftrightarrow> zstate z \<noteq> ZONE_STATE_FULL \<and>
     (is_append \<or> lba = write_pointer z) \<and>
     unat (write_pointer z) + unat len \<le> zone_end z"

definition zone_after_write :: "spdk_bdev_zone_info \<Rightarrow> u64 \<Rightarrow> spdk_bdev_zone_info" where
  "zone_after_write z len = z\<lparr>write_pointer := write_pointer z + len,
     zstate := if unat (write_pointer z) + unat len = zone_end z
               then ZONE_STATE_FULL else ZONE_STATE_OPEN\<rparr>"

definition zone_after_refusal :: "spdk_bdev_zone_info \<Rightarrow> spdk_bdev_zone_info" where
  "zone_after_refusal z =
     (if zstate z = ZONE_STATE_FULL then z else z\<lparr>zstate := ZONE_STATE_OPEN\<rparr>)"

lemma write_locked_eq:
  assumes ok: "zone_ok z"
  shows "zone_write_locked z is_append lba len =
    Inr (if write_accepted z is_append lba len
         then (Some (write_pointer z), zone_after_write z len)
         else (None, zone_after_refusal z))"
proof (cases "zstate z = ZONE_STATE_FULL")
  case True
  then show ?thesis
    by (simp add: zone_write_locked_def write_accepted_def zone_after_refusal_def)
next
  case False
  have st: "zstate z \<in> {ZONE_STATE_OPEN, ZONE_STATE_EMPTY, ZONE_STATE_CLOSED}"
    using ok False by (auto simp: zone_ok_def)
  have wp: "unat (write_pointer z) \<le> zone_end z" "zone_end z < 2 ^ 64"
    using ok by (auto simp: zone_ok_def)
  have left: "unat (zone_id z + capacity z - write_pointer z) = zone_end z - unat (write_pointer z)"
    using wp by (simp add: unat_sub word_le_nat_alt unat_zone_end [OF ok])
  show ?thesis
  proof (cases "unat (write_pointer z) + unat len \<le> zone_end z")
    case True
    then have "unat (write_pointer z + len) = unat (write_pointer z) + unat len"
      using wp by (simp add: unat_add_u64)
    with True False st left wp show ?thesis
      by (auto simp: zone_write_locked_def write_accepted_def zone_after_write_def
          zone_after_refusal_def Let_def c_assert_def word_less_nat_alt word_le_nat_alt
          word_unat_eq_iff unat_zone_end [OF ok])
  next
    case exceeds: False
    with False st left wp show ?thesis
      by (auto simp: zone_write_locked_def write_accepted_def zone_after_refusal_def Let_def
          word_less_nat_alt)
  qed
qed

lemma zone_after_write_ok:
  assumes "zone_ok z" and "write_accepted z is_append lba len"
  shows "zone_ok (zone_after_write z len)"
    and "unat (write_pointer (zone_after_write z len)) = unat (write_pointer z) + unat len"
proof -
  have "unat (write_pointer z + len) = unat (write_pointer z) + unat len"
    using assms by (simp add: zone_ok_def write_accepted_def unat_add_u64)
  with assms show "zone_ok (zone_after_write z len)"
    and "unat (write_pointer (zone_after_write z len)) = unat (write_pointer z) + unat len"
    by (auto simp: zone_ok_def write_accepted_def zone_after_write_def zone_end_def
        word_le_nat_alt)
qed

lemma zone_after_refusal_ok: "zone_ok z \<Longrightarrow> zone_ok (zone_after_refusal z)"
  by (auto simp: zone_ok_def zone_after_refusal_def zone_end_def)

lemma zone_after_frame [simp]:
  "zone_id (zone_after_write z len) = zone_id z" "capacity (zone_after_write z len) = capacity z"
  "zone_id (zone_after_refusal z) = zone_id z" "capacity (zone_after_refusal z) = capacity z"
  by (simp_all add: zone_after_write_def zone_after_refusal_def)

definition write_target :: "bdev_zone_block \<Rightarrow> spdk_bdev_io \<Rightarrow> nat option" where
  "write_target node io =
     (if iotype io = IO_ZONE_APPEND then zone_block_get_zone_by_slba node (offset_blocks io)
      else zone_block_get_zone_containing_lba node (offset_blocks io))"

lemma write_target_Some:
  "node_wf node \<Longrightarrow> write_target node io = Some i \<Longrightarrow> i < length (zones node)"
  by (auto simp: write_target_def split: if_splits dest: zone_by_slba_Some zone_containing_Some)

abbreviation io_accepted :: "bdev_zone_block \<Rightarrow> spdk_bdev_io \<Rightarrow> nat \<Rightarrow> bool" where
  "io_accepted node io i \<equiv> write_accepted (zones node ! i) (iotype io = IO_ZONE_APPEND)
     (offset_blocks io) (num_blocks io)"

lemma zone_block_write_eq:
  assumes wf: "node_wf node"
  shows "zone_block_write node io = Inr
    (case write_target node io of
       None \<Rightarrow> (Ended (Some EINVAL) [], node)
     | Some i \<Rightarrow>
         if io_accepted node io i then
           (Base (BaseWrite (write_pointer (zones node ! i)) (num_blocks io)),
            node\<lparr>zones := (zones node)[i := zone_after_write (zones node ! i) (num_blocks io)]\<rparr>)
         else (Ended (Some EINVAL) [],
               node\<lparr>zones := (zones node)[i := zone_after_refusal (zones node ! i)]\<rparr>))"
proof (cases "write_target node io")
  case None
  then show ?thesis by (simp add: zone_block_write_def write_target_def Let_def)
next
  case (Some i)
  note ok = node_wfD(7) [OF wf write_target_Some [OF wf Some]]
  from Some show ?thesis
    by (simp add: zone_block_write_def write_target_def Let_def write_locked_eq [OF ok] split_beta)
qed

subsection \<open>The management path\<close>

definition zone_action_result ::
  "base_bdev \<Rightarrow> zone_action \<Rightarrow> spdk_bdev_zone_info \<Rightarrow> half \<times> spdk_bdev_zone_info" where
  "zone_action_result base a z =
     (case a of
        ZONE_RESET \<Rightarrow> zone_block_reset_zone base z
      | ZONE_OPEN \<Rightarrow> zone_block_open_zone z
      | ZONE_CLOSE \<Rightarrow> zone_block_close_zone z
      | ZONE_FINISH \<Rightarrow> zone_block_finish_zone z
      | ZONE_OFFLINE \<Rightarrow> (Ended (Some EINVAL) [], z))"

lemmas zone_action_defs = zone_action_result_def zone_block_reset_zone_def
  zone_block_open_zone_def zone_block_close_zone_def zone_block_finish_zone_def

lemma zone_ok_emptied:
  "zone_ok z \<Longrightarrow> zone_ok (z\<lparr>zstate := ZONE_STATE_EMPTY, write_pointer := zone_id z\<rparr>)"
  by (simp add: zone_ok_def zone_end_def word_less_nat_alt)

lemma zone_ok_filled:
  assumes "zone_ok z"
  shows "zone_ok (z\<lparr>write_pointer := zone_id z + capacity z, zstate := ZONE_STATE_FULL\<rparr>)"
  using assms unat_zone_end [OF assms]
  by (simp add: zone_ok_def zone_end_def word_le_nat_alt)

lemma zone_ok_state:
  "zone_ok z \<Longrightarrow> zstate z \<noteq> ZONE_STATE_FULL \<Longrightarrow> st \<in> {ZONE_STATE_OPEN, ZONE_STATE_CLOSED} \<Longrightarrow>
    zone_ok (z\<lparr>zstate := st\<rparr>)"
  by (auto simp: zone_ok_def zone_end_def)

lemma zone_action_cases:
  assumes "zone_ok z" and "zone_action_result base a z = (h, z')"
  obtains (same) "z' = z"
  | (emptied) "z' = z\<lparr>zstate := ZONE_STATE_EMPTY, write_pointer := zone_id z\<rparr>"
  | (filled) "z' = z\<lparr>write_pointer := zone_id z + capacity z, zstate := ZONE_STATE_FULL\<rparr>"
  | (state) st where "z' = z\<lparr>zstate := st\<rparr>" "zstate z \<noteq> ZONE_STATE_FULL"
      "st \<in> {ZONE_STATE_OPEN, ZONE_STATE_CLOSED}"
proof (cases a)
  case ZONE_RESET
  with assms(2) that(1,2) show ?thesis
    by (auto simp: zone_action_defs Let_def split: if_splits prod.splits)
next
  case ZONE_OPEN
  with assms(2) that(1) that(4) [of ZONE_STATE_OPEN] show ?thesis
    by (auto simp: zone_action_defs split: if_splits)
next
  case ZONE_CLOSE
  with assms(2) that(1) that(4) [of ZONE_STATE_CLOSED] show ?thesis
    by (auto simp: zone_action_defs split: if_splits)
next
  case ZONE_FINISH
  with assms(2) that(3) show ?thesis by (simp add: zone_action_defs)
next
  case ZONE_OFFLINE
  with assms(2) that(1) show ?thesis by (simp add: zone_action_defs)
qed

lemma zone_action_ok:
  assumes ok: "zone_ok z" and r: "zone_action_result base a z = (h, z')"
  shows "zone_ok z' \<and> zone_id z' = zone_id z \<and> capacity z' = capacity z \<and>
    (zstate z' = ZONE_STATE_EMPTY \<or> write_pointer z \<le> write_pointer z')"
  using ok r
proof (cases rule: zone_action_cases)
  case filled
  moreover have "write_pointer z \<le> zone_id z + capacity z"
    using ok unat_zone_end [OF ok] by (simp add: zone_ok_def word_le_nat_alt)
  ultimately show ?thesis using zone_ok_filled [OF ok] by simp
qed (use ok in \<open>simp_all add: zone_ok_emptied zone_ok_state\<close>)

lemma zone_action_no_write: "zone_action_result base a z = (h, z') \<Longrightarrow> h \<noteq> Base (BaseWrite b n)"
  by (cases a) (auto simp: zone_action_defs Let_def split: if_splits)

lemma zone_management_eq:
  "zone_block_zone_management base node io =
    (case zone_block_get_zone_by_slba node (mgmt_zone_id io) of
       None \<Rightarrow> (Ended (Some EINVAL) [], node)
     | Some i \<Rightarrow> (case zone_action_result base (mgmt_action io) (zones node ! i) of
         (h, z') \<Rightarrow> (h, node\<lparr>zones := (zones node)[i := z']\<rparr>)))"
  by (simp add: zone_block_zone_management_def zone_action_result_def Let_def
      cong: option.case_cong)

subsection \<open>What one request does\<close>

text \<open>The writes a request is about to submit: at most one.\<close>

definition half_writes :: "half \<Rightarrow> base_cmd list" where
  "half_writes h = (case h of Base (BaseWrite a n) \<Rightarrow> [BaseWrite a n] | _ \<Rightarrow> [])"

lemma half_writes_simps [simp]:
  "half_writes (Ended rc effs) = []" "half_writes (Base (BaseWrite a n)) = [BaseWrite a n]"
  "half_writes (Base (BaseRead a n)) = []" "half_writes (Base (BaseUnmap a n)) = []"
  by (simp_all add: half_writes_def)

lemma half_writes_none: "(\<And>a n. h \<noteq> Base (BaseWrite a n)) \<Longrightarrow> half_writes h = []"
  by (auto simp: half_writes_def split: half.split base_cmd.split)

lemma management_cases:
  assumes wf: "node_wf node" and m: "zone_block_zone_management base node io = (h, node')"
  obtains "node' = node" "half_writes h = []"
  | i z where "i < length (zones node)" "node' = node\<lparr>zones := (zones node)[i := z]\<rparr>"
      "zone_ok z" "zone_id z = zone_id (zones node ! i)" "capacity z = capacity (zones node ! i)"
      "zstate z = ZONE_STATE_EMPTY \<or> write_pointer (zones node ! i) \<le> write_pointer z"
      "half_writes h = []"
proof (cases "zone_block_get_zone_by_slba node (mgmt_zone_id io)")
  case None
  with m show ?thesis using that(1) by (auto simp: zone_management_eq)
next
  case (Some i)
  obtain z where a: "zone_action_result base (mgmt_action io) (zones node ! i) = (h, z)"
    "node' = node\<lparr>zones := (zones node)[i := z]\<rparr>"
    using m Some by (auto simp: zone_management_eq split: prod.splits)
  note i = zone_by_slba_Some(1) [OF wf Some]
  note act = zone_action_ok [OF node_wfD(7) [OF wf i] a(1)]
  have "half_writes h = []" using zone_action_no_write [OF a(1)] by (rule half_writes_none)
  with i a(2) act show ?thesis by (intro that(2) [of i z]) simp_all
qed

lemma request_cases:
  assumes wf: "node_wf node" and r: "zone_block_request base node io = Inr (h, buf, node')"
  obtains (same) "node' = node" "half_writes h = []"
  | (moved) i z where "i < length (zones node)" "node' = node\<lparr>zones := (zones node)[i := z]\<rparr>"
      "zone_ok z" "zone_id z = zone_id (zones node ! i)" "capacity z = capacity (zones node ! i)"
      "zstate z = ZONE_STATE_EMPTY \<or> write_pointer (zones node ! i) \<le> write_pointer z"
      "half_writes h = []"
  | (written) i where "i < length (zones node)" "io_accepted node io i"
      "h = Base (BaseWrite (write_pointer (zones node ! i)) (num_blocks io))"
      "node' = node\<lparr>zones := (zones node)[i := zone_after_write (zones node ! i) (num_blocks io)]\<rparr>"
proof -
  have wr: thesis if w: "zone_block_write node io = Inr (h, node')"
  proof (cases "write_target node io")
    case None
    with w zone_block_write_eq [OF wf, of io] show ?thesis using same by auto
  next
    case (Some i)
    note i = write_target_Some [OF wf Some]
    note ok = node_wfD(7) [OF wf i]
    show ?thesis
    proof (cases "io_accepted node io i")
      case False
      with Some w zone_block_write_eq [OF wf, of io] i ok zone_after_refusal_ok [OF ok]
      show ?thesis by (intro moved [of i "zone_after_refusal (zones node ! i)"])
          (auto simp: zone_after_refusal_def)
    next
      case True
      with Some w zone_block_write_eq [OF wf, of io] i show ?thesis by (intro written [of i]) auto
    qed
  qed
  show thesis
  proof (cases "iotype io")
    case IO_READ
    with r show ?thesis
      by (intro same) (auto simp: zone_block_request_def zone_block_read_def Let_def split: option.splits if_splits)
  next
    case IO_GET_ZONE_INFO
    with r show ?thesis
      by (intro same) (auto simp: zone_block_request_def zone_block_get_zone_info_def
          split: prod.splits option.splits)
  next
    case IO_OTHER
    with r show ?thesis by (intro same) (auto simp: zone_block_request_def)
  next
    case IO_ZONE_MANAGEMENT
    then have "zone_block_zone_management base node io = (h, node')"
      using r by (auto simp: zone_block_request_def split: prod.splits)
    with wf show ?thesis by (cases rule: management_cases) (use same moved in blast)+
  next
    case IO_WRITE
    with r wr show ?thesis by (auto simp: zone_block_request_def split: prod.splits dest!: map_sum_InrD)
  next
    case IO_ZONE_APPEND
    with r wr show ?thesis by (auto simp: zone_block_request_def split: prod.splits dest!: map_sum_InrD)
  qed
qed

lemma request_node_wf [step_inv]:
  assumes wf: "node_wf node" and r: "zone_block_request base node io = Inr (h, buf, node')"
  shows "node_wf node'"
  using assms
proof (cases rule: request_cases)
  case (written i)
  from node_wf_update [OF wf written(1) zone_after_write_ok(1) [OF node_wfD(7) [OF wf written(1)] written(2)]]
  show ?thesis using written(4) by simp
qed (auto simp: wf node_wf_update)

lemma request_frame:
  assumes wf: "node_wf node" and r: "zone_block_request base node io = Inr (h, buf, node')"
  shows "length (zones node') = length (zones node)" "zone_size node' = zone_size node"
    "i < length (zones node) \<Longrightarrow> zone_id (zones node' ! i) = zone_id (zones node ! i) \<and>
       capacity (zones node' ! i) = capacity (zones node ! i)"
  using assms by (cases rule: request_cases; auto simp: nth_list_update)+

lemma submit_node_wf:
  assumes "node_wf node" and "zone_block_submit_request base node io = Inr (effs, buf, node')"
  shows "node_wf node'"
proof -
  obtain h where "zone_block_request base node io = Inr (h, buf, node')"
    using assms(2) by (auto simp: zone_block_submit_request_def split: prod.splits dest!: map_sum_InrD)
  with assms(1) show ?thesis by (rule request_node_wf)
qed

section \<open>Registration\<close>

lemma bit_unat_u64: "bit (unat (x :: u64)) i \<longleftrightarrow> bit x i"
  by (auto simp: bit_unsigned_iff dest: bit_imp_le_length)

lemma takeWhile_rev_upt:
  assumes "Q b" and "b < N"
  shows "length (takeWhile (\<lambda>i. \<not> Q i) (rev [0 ..< N])) < N \<and>
    Q (N - 1 - length (takeWhile (\<lambda>i. \<not> Q i) (rev [0 ..< N]))) \<and>
    (\<forall>i < N. N - 1 - length (takeWhile (\<lambda>i. \<not> Q i) (rev [0 ..< N])) < i \<longrightarrow> \<not> Q i)"
  using assms
proof (induction N)
  case (Suc N)
  show ?case
  proof (cases "Q N")
    case False
    with Suc.prems have "b < N" by (metis less_antisym)
    from Suc.IH [OF Suc.prems(1) this] False show ?thesis by (auto simp: less_Suc_eq)
  qed auto
qed simp

lemma u64log2_top:
  assumes "x \<noteq> 0"
  shows "spdk_u64log2 x < 64" and "bit x (spdk_u64log2 x)"
    and "\<And>i. spdk_u64log2 x < i \<Longrightarrow> \<not> bit x i"
proof -
  obtain b where b: "bit x b" "b < 64"
    using assms bit_eqI [of x 0] by (auto dest: bit_imp_le_length)
  note t = takeWhile_rev_upt [of "bit x", OF b]
  have l: "spdk_u64log2 x = 64 - 1 - length (takeWhile (\<lambda>i. \<not> bit x i) (rev [0 ..< 64]))"
    using assms unfolding spdk_u64log2_def by (simp del: upt_rec_numeral)
  show "spdk_u64log2 x < 64" unfolding l by linarith
  show "bit x (spdk_u64log2 x)" using t unfolding l by blast
  show "\<not> bit x i" if "spdk_u64log2 x < i" for i
    using t that bit_imp_le_length [of x i] unfolding l by auto
qed

lemma u64log2_bounds:
  assumes "x \<noteq> 0"
  shows "2 ^ spdk_u64log2 x \<le> unat x" and "unat x < 2 ^ Suc (spdk_u64log2 x)"
proof -
  note t = u64log2_top [OF assms]
  show "2 ^ spdk_u64log2 x \<le> unat x"
  proof (rule ccontr)
    assume "\<not> ?thesis"
    then have "unat x div 2 ^ spdk_u64log2 x = 0" by simp
    with t(2) show False by (simp add: bit_unat_u64 [symmetric] bit_iff_odd)
  qed
  have "take_bit (Suc (spdk_u64log2 x)) (unat x) = unat x"
    by (rule bit_eqI) (use t(3) in \<open>auto simp: bit_take_bit_iff bit_unat_u64 less_Suc_eq_le
        simp flip: not_less\<close>)
  then show "unat x < 2 ^ Suc (spdk_u64log2 x)"
    by (metis take_bit_nat_less_exp)
qed

lemma unat_exp_u64: "n < 64 \<Longrightarrow> unat (2 ^ n :: u64) = 2 ^ n"
proof -
  assume "n < 64"
  then have "(2 :: nat) ^ n < 2 ^ 64" by (rule power_strict_increasing) simp
  then have "unat (of_nat (2 ^ n) :: u64) = 2 ^ n"
    by (simp add: unat_of_nat take_bit_nat_eq_self del: of_nat_power)
  then show ?thesis by (simp only: of_nat_power of_nat_numeral)
qed

lemma u64log2_exp: "n < 64 \<Longrightarrow> spdk_u64log2 (2 ^ n) = n"
proof -
  assume n: "n < 64"
  then have u: "unat (2 ^ n :: u64) = 2 ^ n" by (rule unat_exp_u64)
  then have "(2 :: u64) ^ n \<noteq> 0" by (metis power_eq_0_iff unat_0 zero_neq_numeral)
  from u64log2_bounds [OF this] u
  have "2 ^ spdk_u64log2 (2 ^ n) \<le> (2 :: nat) ^ n" "(2 :: nat) ^ n < 2 ^ Suc (spdk_u64log2 (2 ^ n))"
    by simp_all
  then show ?thesis
    using power_le_imp_le_exp [of "2 :: nat"] power_less_imp_less_exp [of "2 :: nat"]
    by (metis le_antisym less_Suc_eq_le one_less_numeral_iff semiring_norm(76))
qed

lemma unat_pred_u64: "x \<noteq> 0 \<Longrightarrow> unat (x - 1 :: u64) = unat x - 1"
  by (simp add: unat_sub word_le_nat_alt unat_gt_0 Suc_leI)

text \<open>\<^verbatim>\<open>spdk_align64pow2\<close> rounds up to a power of two, except that 1 becomes 2; beyond
  \<open>2 ^ 63\<close> its shift is undefined.\<close>

lemma align64pow2_defined:
  assumes "x \<noteq> 0" and "unat x \<le> 2 ^ 63"
  obtains n where "spdk_align64pow2 x = Inr (2 ^ n)" "0 < n" "n < 64" "unat x \<le> 2 ^ n"
    "2 ^ n < 2 * unat x \<or> x = 1"
proof (cases "x = 1")
  case True
  then show ?thesis using that [of 1]
    by (simp add: spdk_align64pow2_def spdk_u64log2_def push_bit_eq_mult)
next
  case False
  let ?l = "spdk_u64log2 (x - 1)"
  have pos: "0 < unat x" using assms(1) by (simp add: unat_gt_0)
  have u: "unat (x - 1) = unat x - 1" by (rule unat_pred_u64 [OF assms(1)])
  have nz: "x - 1 \<noteq> 0" using False by simp
  note b = u64log2_bounds [OF nz]
  have "2 ^ ?l < (2 :: nat) ^ 63" using b(1) u pos assms(2) by linarith
  then have l: "?l < 63" by (rule power_less_imp_less_exp [rotated]) simp
  then have "spdk_align64pow2 x = Inr (2 ^ Suc ?l)"
    by (simp add: spdk_align64pow2_def Let_def push_bit_eq_mult)
  moreover have "unat x \<le> 2 ^ Suc ?l" using b(2) u by linarith
  moreover have "2 ^ Suc ?l < 2 * unat x" using b(1) u pos by simp
  ultimately show ?thesis using that [of "Suc ?l"] l by simp
qed

lemma align64pow2_undefined:
  assumes "2 ^ 63 < unat x"
  shows "spdk_align64pow2 x = Inl Undefined"
proof -
  have "x \<noteq> 0" using assms by auto
  then have u: "unat (x - 1) = unat x - 1" by (rule unat_pred_u64)
  with assms have "x - 1 \<noteq> 0" by (auto simp: word_unat_eq_iff)
  from u64log2_bounds(2) [OF this] u assms
  have "(2 :: nat) ^ 63 < 2 ^ Suc (spdk_u64log2 (x - 1))" by linarith
  then have "63 < Suc (spdk_u64log2 (x - 1))" by (rule power_less_imp_less_exp [rotated]) simp
  then show ?thesis by (simp add: spdk_align64pow2_def)
qed

text \<open>The device a successful registration builds.\<close>

definition fresh_zone :: "u64 \<Rightarrow> u64 \<Rightarrow> nat \<Rightarrow> spdk_bdev_zone_info" where
  "fresh_zone zsize cap i =
     \<lparr>zone_id = zsize * of_nat i, write_pointer = zsize * of_nat i + cap, capacity = cap,
      zstate = ZONE_STATE_FULL, ztype = ZONE_TYPE_SEQWR\<rparr>"

definition fresh_node :: "u64 \<Rightarrow> bdev_zone_block_config \<Rightarrow> u64 \<Rightarrow> bdev_zone_block" where
  "fresh_node bcnt name zsize =
     (let nz = bcnt div zsize in
      \<lparr>bdev_name = cfg_vbdev_name name, base_name = cfg_bdev_name name, blockcnt = nz * zsize,
       zone_size = zsize, optimal_open_zones = cfg_optimal_open_zones name,
       zones = map (fresh_zone zsize (cfg_zone_capacity name)) [0 ..< unat nz], num_zones = nz,
       zone_capacity = cfg_zone_capacity name, zone_shift = of_nat (spdk_u64log2 zsize)\<rparr>)"

lemma fresh_zone_ok:
  assumes "(i + 1) * unat zsize < 2 ^ 64" and "cap \<noteq> 0" and "cap \<le> zsize"
  shows "zone_ok (fresh_zone zsize cap i)"
    and "unat (zone_id (fresh_zone zsize cap i)) = i * unat zsize"
proof -
  have pos: "0 < unat zsize" using assms(2,3) by (metis unat_gt_0 word_le_0_iff)
  have m64: "i * unat zsize < 2 ^ 64" using assms(1) by (simp add: algebra_simps)
  have "i \<le> i * unat zsize" using pos by simp
  then have i: "i < 2 ^ 64" "unat zsize * i < 2 ^ 64"
    using m64 le_less_trans by (blast, simp only: mult.commute)
  then have "unat (of_nat i :: u64) = i" by (simp add: unat_of_nat take_bit_nat_eq_self)
  then have m: "unat (zsize * of_nat i) = i * unat zsize"
    using unat_mult_lem [of zsize "of_nat i"] i by (simp add: mult.commute)
  have "i * unat zsize + unat cap < 2 ^ 64"
    using assms(1,3) by (simp add: word_le_nat_alt algebra_simps)
  with m have "unat (zsize * of_nat i + cap) = i * unat zsize + unat cap" by (simp add: unat_add_u64)
  with m assms \<open>i * unat zsize + unat cap < 2 ^ 64\<close> show "zone_ok (fresh_zone zsize cap i)"
    by (simp add: zone_ok_def fresh_zone_def zone_end_def word_le_nat_alt word_less_nat_alt unat_gt_0)
  from m show "unat (zone_id (fresh_zone zsize cap i)) = i * unat zsize"
    by (simp add: fresh_zone_def)
qed

lemma fresh_node_wf:
  assumes cap: "cfg_zone_capacity name \<noteq> 0" and al: "spdk_align64pow2 (cfg_zone_capacity name) = Inr zsize"
  shows "node_wf (fresh_node bcnt name zsize)"
proof -
  have "unat (cfg_zone_capacity name) \<le> 2 ^ 63"
    using al align64pow2_undefined [of "cfg_zone_capacity name"] by (metis Inl_Inr_False not_le)
  from align64pow2_defined [OF cap this] al obtain n where n: "zsize = 2 ^ n" "n < 64"
    "unat (cfg_zone_capacity name) \<le> 2 ^ n" by (metis Inr_inject)
  have u: "unat zsize = 2 ^ n" using n unat_exp_u64 by simp
  have shift: "unat (of_nat (spdk_u64log2 zsize) :: u64) = n"
    using n u64log2_exp by (simp add: unat_of_nat take_bit_nat_eq_self)
  have nz: "unat (bcnt div zsize) * unat zsize \<le> unat bcnt" by (simp add: unat_div_distrib)
  then have lim: "unat (bcnt div zsize) * unat zsize < 2 ^ 64"
    by (rule le_less_trans) simp
  have capz: "cfg_zone_capacity name \<le> zsize" using n(3) u by (simp add: word_le_nat_alt)
  have "(i + 1) * unat zsize < 2 ^ 64" if "i < unat (bcnt div zsize)" for i
    using mult_le_mono1 [of "i + 1" "unat (bcnt div zsize)" "unat zsize"] that lim by linarith
  note z = fresh_zone_ok [OF this cap capz]
  have "capacity (fresh_zone zsize c i) = c" for c i by (simp add: fresh_zone_def)
  with z lim u shift n(2) cap capz show ?thesis
    by (simp add: node_wf_def fresh_node_def Let_def word_gt_0)
qed

text \<open>What the module looks like when it has claimed a base device, and when the device on it is
  registered.\<close>

definition with_claim :: "string \<Rightarrow> zone_module \<Rightarrow> zone_module" where
  "with_claim bname m = m\<lparr>base_claims := (base_claims m)(bname := claimed_by bdev_zoned_if)\<rparr>"

definition with_node :: "bdev_zone_block \<Rightarrow> zone_module \<Rightarrow> zone_module" where
  "with_node node m = (with_claim (base_name node) m)\<lparr>g_bdev_nodes := g_bdev_nodes m @ [node]\<rparr>"

lemma claim_cases:
  assumes "spdk_bdev_module_claim_bdev desc module c = (rc, desc', c')"
  obtains (refused) "rc = Some EPERM" "c' = c" "claim_type c \<noteq> CLAIM_NONE"
  | (claimed) "rc = None" "c' = claimed_by module" "claim_type c = CLAIM_NONE"
  using assms by (cases c) (auto simp: spdk_bdev_module_claim_bdev_def claimed_by_def split: if_splits)

lemma register_one_cases:
  assumes "zone_block_register_one env name m = Inr (rc, m')"
  obtains (absent) "rc = Some ENODEV" "m' = m"
  | (failed) "rc \<noteq> None" "m' = zone_block_remove_config (cfg_vbdev_name name) m"
  | (leaked) "rc \<noteq> None" "claim_type (base_claims m (cfg_bdev_name name)) = CLAIM_NONE"
      "m' = zone_block_remove_config (cfg_vbdev_name name) (with_claim (cfg_bdev_name name) m)"
  | (registered) zsize where "rc = None" "spdk_align64pow2 (cfg_zone_capacity name) = Inr zsize"
      "claim_type (base_claims m (cfg_bdev_name name)) = CLAIM_NONE"
      "m' = with_node (fresh_node (base_blockcnt env) name zsize) m"
proof -
  obtain rc1 d c where cl: "spdk_bdev_module_claim_bdev (Some True) bdev_zoned_if
      (base_claims m (cfg_bdev_name name)) = (rc1, d, c)" by (cases "spdk_bdev_module_claim_bdev (Some True)
        bdev_zoned_if (base_claims m (cfg_bdev_name name))") auto
  then show thesis
  proof (cases rule: claim_cases)
    case refused
    with assms cl absent failed show thesis
      unfolding zone_block_register_one_def Let_def zone_block_init_zone_info_def
      by (auto split: option.splits if_splits sum.splits) metis+
  next
    case claimed
    with assms cl absent failed leaked registered show thesis
      unfolding zone_block_register_one_def Let_def zone_block_init_zone_info_def
      by (auto simp: fresh_node_def fresh_zone_def [abs_def] with_node_def with_claim_def Let_def
          elim!: res_bind_InrE split: option.splits if_splits sum.splits) metis+
  qed
qed

text \<open>Nothing fails before the registration of the new device.\<close>

definition env_ok :: "register_env \<Rightarrow> bool" where
  "env_ok env \<longleftrightarrow> open_rc env = None \<and> \<not> base_is_zoned env \<and> node_alloc_ok env \<and>
     name_alloc_ok env \<and> zones_alloc_ok env \<and> uuid_rc env = None \<and> spin_fail env = None"

lemma register_one_eq:
  assumes "env_ok env" and "base_claims m (cfg_bdev_name name) = unclaimed"
    and al: "spdk_align64pow2 (cfg_zone_capacity name) = Inr (2 ^ n)" "n < 64"
  shows "zone_block_register_one env name m =
    (case bdev_register_rc env of
       Some e \<Rightarrow> res_bind (spdk_bdev_module_release_bdev (new_claim env)) (\<lambda>_.
         Inr (Some e, zone_block_remove_config (cfg_vbdev_name name) (with_claim (cfg_bdev_name name) m)))
     | None \<Rightarrow> Inr (None, with_node (fresh_node (base_blockcnt env) name (2 ^ n)) m))"
proof -
  have nz: "(2 :: u64) ^ n \<noteq> 0" using al(2) unat_exp_u64 [of n] by auto
  show ?thesis using assms(1,2) al(1) nz
    by (simp add: zone_block_register_one_def env_ok_def fresh_node_def fresh_zone_def [abs_def]
        zone_block_init_zone_info_def with_node_def with_claim_def Let_def cong: option.case_cong)
qed

text \<open>What holds of the module between operations: its devices are well formed, sit on different base
  devices, and each base device is claimed for the module.\<close>

definition module_ok :: "zone_module \<Rightarrow> bool" where
  "module_ok m \<longleftrightarrow> (\<forall>c \<in> set (g_bdev_configs m). cfg_zone_capacity c \<noteq> 0) \<and>
     (\<forall>node \<in> set (g_bdev_nodes m). node_wf node \<and>
        base_claims m (base_name node) = claimed_by bdev_zoned_if) \<and>
     distinct (map base_name (g_bdev_nodes m))"

lemma claimed_by_type [simp]: "claim_type (claimed_by module) = CLAIM_EXCL_WRITE"
  by (simp add: claimed_by_def)

lemma module_ok_unused:
  "module_ok m \<Longrightarrow> claim_type (base_claims m bname) = CLAIM_NONE \<Longrightarrow>
    bname \<notin> base_name ` set (g_bdev_nodes m)"
  by (auto simp: module_ok_def)

lemma with_claim_module_ok:
  "module_ok m \<Longrightarrow> claim_type (base_claims m bname) = CLAIM_NONE \<Longrightarrow> module_ok (with_claim bname m)"
  by (auto simp: module_ok_def with_claim_def)

lemma with_node_module_ok:
  assumes "module_ok m" and "claim_type (base_claims m (base_name node)) = CLAIM_NONE" and "node_wf node"
  shows "module_ok (with_node node m)"
  using assms module_ok_unused [OF assms(1,2)] with_claim_module_ok [OF assms(1,2)]
  by (auto simp: module_ok_def with_node_def with_claim_def)

lemma remove_config_module_ok: "module_ok m \<Longrightarrow> module_ok (zone_block_remove_config vname m)"
  by (simp add: module_ok_def zone_block_remove_config_def)

lemma register_one_module_ok:
  assumes "zone_block_register_one env c m = Inr (rc, m')" and "module_ok m" and "cfg_zone_capacity c \<noteq> 0"
  shows "module_ok m'"
  using assms(1)
proof (cases rule: register_one_cases)
  case (registered zsize)
  have "base_name (fresh_node (base_blockcnt env) c zsize) = cfg_bdev_name c"
    by (simp add: fresh_node_def Let_def)
  with registered with_node_module_ok [OF assms(2) _ fresh_node_wf [OF assms(3) registered(2)]]
  show ?thesis by simp
qed (use assms(2) in \<open>simp_all add: remove_config_module_ok with_claim_module_ok\<close>)

text \<open>The destruction of a device of the module finds the claim it releases.\<close>

lemma destruct_module_ok:
  assumes "module_ok m" and "node \<in> set (g_bdev_nodes m)"
  shows "\<exists>m'. zone_block_destruct node m = Inr m' \<and> module_ok m' \<and>
    base_claims m' (base_name node) = unclaimed"
proof -
  have "base_name n \<noteq> base_name node" if "n \<in> set (remove1 node (g_bdev_nodes m))" for n
    using assms that by (auto simp: module_ok_def distinct_map dest: inj_onD)
  moreover have "distinct (map base_name (remove1 node (g_bdev_nodes m)))"
    using assms(1) by (auto simp: module_ok_def distinct_map intro: inj_on_subset dest: set_remove1_subset [THEN subsetD])
  moreover have "set (remove1 node (g_bdev_nodes m)) \<subseteq> set (g_bdev_nodes m)" by (rule set_remove1_subset)
  ultimately show ?thesis using assms
    by (auto simp: zone_block_destruct_def module_ok_def)
qed

lemma register_loop_module_ok:
  assumes "register_loop env bname cs m = Inr (rc, m')" and "module_ok m"
    and "\<forall>c \<in> set cs. cfg_zone_capacity c \<noteq> 0"
  shows "module_ok m'"
  using assms
proof (induction cs arbitrary: m)
  case (Cons c cs)
  show ?case
  proof (cases "cfg_bdev_name c = bname")
    case False
    with Cons show ?thesis by simp
  next
    case True
    with Cons.prems(1) obtain rc1 m1 where one: "zone_block_register_one env c m = Inr (rc1, m1)"
      and rest: "if rc1 = None then register_loop env bname cs m1 = Inr (rc, m') else m' = m1"
      by (auto split: sum.splits prod.splits option.splits)
    from register_one_module_ok [OF one Cons.prems(2)] Cons.prems(3) have "module_ok m1" by simp
    with rest Cons show ?thesis by (auto split: if_splits)
  qed
qed simp

lemma create_module_ok:
  assumes "vbdev_zone_block_create ok env bname vname cap optimal m = Inr (rc, m')" and "module_ok m"
  shows "module_ok m'"
proof (cases "cap = 0 \<or> optimal = 0")
  case True
  then have "m' = m" using assms(1) by (auto simp: vbdev_zone_block_create_def split: if_splits)
  with assms(2) show ?thesis by simp
next
  case False
  obtain rc1 m1 where ins: "zone_block_insert_name ok bname vname cap optimal m = (rc1, m1)"
    by fastforce
  have m1: "module_ok m1" using ins assms(2) False
    by (auto simp: zone_block_insert_name_def module_ok_def split: if_splits)
  show ?thesis
  proof (cases rc1)
    case None
    with assms(1) ins False obtain rc2 where "zone_block_register env bname m1 = Inr (rc2, m')"
      by (auto simp: vbdev_zone_block_create_def dest!: map_sum_InrD split: prod.splits)
    with register_loop_module_ok [of env bname "g_bdev_configs m1" m1] m1 show ?thesis
      by (simp add: zone_block_register_def module_ok_def)
  next
    case (Some e)
    with assms(1) ins False m1 show ?thesis by (simp add: vbdev_zone_block_create_def)
  qed
qed

section \<open>Reachable devices\<close>

text \<open>
  The history of a zone: the base writes issued since it was last empty, as (address, length)
  pairs. \<open>ordered_from s log e\<close> says that they follow each other without overlap between
  \<open>s\<close> and \<open>e\<close>.
\<close>

type_synonym zone_log = "nat \<Rightarrow> (nat \<times> nat) list"

fun ordered_from :: "nat \<Rightarrow> (nat \<times> nat) list \<Rightarrow> nat \<Rightarrow> bool" where
  "ordered_from s [] e \<longleftrightarrow> s \<le> e"
| "ordered_from s ((a, n) # l) e \<longleftrightarrow> s \<le> a \<and> ordered_from (a + n) l e"

lemma ordered_from_mono: "ordered_from s l e \<Longrightarrow> e \<le> e' \<Longrightarrow> ordered_from s l e'"
  by (induction s l e rule: ordered_from.induct) auto

lemma ordered_from_snoc: "ordered_from s l a \<Longrightarrow> ordered_from s (l @ [(a, n)]) (a + n)"
  by (induction s l a rule: ordered_from.induct) auto

text \<open>
  A run of a device: its state; the history of each zone in the order in which the locked sections
  granted the writes; the commands handlers have been granted; those that wait, after their locked
  section, for their submission; and those the base device has accepted, in the order it received
  them. A step is a handler up to its submission or the submission of one waiting command,
  whichever channel they run on.
\<close>

record zone_run =
  zr_node :: bdev_zone_block
  zr_log :: zone_log
  zr_granted :: "base_cmd list"
  zr_pending :: "base_cmd list"
  zr_base :: "base_cmd list"

definition half_cmds :: "half \<Rightarrow> base_cmd list" where
  "half_cmds h = (case h of Base cmd \<Rightarrow> [cmd] | Ended rc effs \<Rightarrow> [])"

definition zone_writes :: "nat \<Rightarrow> nat \<Rightarrow> base_cmd list \<Rightarrow> (nat \<times> nat) list" where
  "zone_writes zsize i cmds = concat (map (\<lambda>c.
     case c of BaseWrite a n \<Rightarrow> if unat a div zsize = i then [(unat a, unat n)] else [] | _ \<Rightarrow> []) cmds)"

definition update_log :: "bdev_zone_block \<Rightarrow> half \<Rightarrow> zone_log \<Rightarrow> zone_log" where
  "update_log node h log i =
     (if zstate (zones node ! i) = ZONE_STATE_EMPTY then []
      else log i @ zone_writes (unat (zone_size node)) i (half_cmds h))"

definition after_request :: "half \<Rightarrow> bdev_zone_block \<Rightarrow> zone_run \<Rightarrow> zone_run" where
  "after_request h node s = s\<lparr>zr_node := node, zr_log := update_log node h (zr_log s),
     zr_granted := zr_granted s @ half_cmds h, zr_pending := zr_pending s @ half_cmds h\<rparr>"

definition after_submit :: "base_bdev \<Rightarrow> base_cmd \<Rightarrow> zone_run \<Rightarrow> zone_run" where
  "after_submit base cmd s = s\<lparr>zr_pending := remove1 cmd (zr_pending s),
     zr_base := zr_base s @ (if Submit cmd \<in> set (snd (submit_base base cmd)) then [cmd] else [])\<rparr>"

inductive dev_step :: "zone_run \<Rightarrow> zone_run \<Rightarrow> bool" where
  request: "zone_block_request base (zr_node s) io = Inr (h, buf, node') \<Longrightarrow>
    dev_step s (after_request h node' s)"
| submit: "cmd \<in> set (zr_pending s) \<Longrightarrow> dev_step s (after_submit base cmd s)"

lemma request_step:
  "zr_node s = node \<Longrightarrow> zone_block_request base node io = Inr (h, buf, node') \<Longrightarrow>
    dev_step s (after_request h node' s)"
  using dev_step.request by blast

definition fresh_run :: "bdev_zone_block \<Rightarrow> zone_run" where
  "fresh_run node =
     \<lparr>zr_node = node, zr_log = \<lambda>_. [], zr_granted = [], zr_pending = [], zr_base = []\<rparr>"

definition dev_init :: "zone_run \<Rightarrow> bool" where
  "dev_init s \<longleftrightarrow> (\<exists>ok env bname vname cap optimal m rc m' node. module_ok m \<and>
     vbdev_zone_block_create ok env bname vname cap optimal m = Inr (rc, m') \<and>
     node \<in> set (g_bdev_nodes m') \<and> s = fresh_run node)"

text \<open>A write or an unmap lies in the usable part of one zone.\<close>

definition cmd_in_zone :: "bdev_zone_block \<Rightarrow> base_cmd \<Rightarrow> bool" where
  "cmd_in_zone node cmd \<longleftrightarrow>
     (case cmd of
        BaseRead a n \<Rightarrow> True
      | BaseWrite a n \<Rightarrow> \<exists>i < length (zones node). zone_id (zones node ! i) \<le> a \<and>
          unat a + unat n \<le> zone_end (zones node ! i)
      | BaseUnmap a n \<Rightarrow> \<exists>i < length (zones node). zone_id (zones node ! i) = a \<and>
          capacity (zones node ! i) = n)"

definition zone_ordered :: "zone_run \<Rightarrow> nat \<Rightarrow> bool" where
  "zone_ordered s i \<longleftrightarrow> ordered_from (unat (zone_id (zones (zr_node s) ! i))) (zr_log s i)
     (unat (write_pointer (zones (zr_node s) ! i)))"

text \<open>What reached the base device or is on its way there was granted, each grant used at most once.\<close>

definition granted_once :: "zone_run \<Rightarrow> bool" where
  "granted_once s \<longleftrightarrow> (\<forall>cmd. count_list (zr_base s @ zr_pending s) cmd \<le> count_list (zr_granted s) cmd)"

definition dev_inv :: "zone_run \<Rightarrow> bool" where
  "dev_inv s \<longleftrightarrow> node_wf (zr_node s) \<and> (\<forall>i < length (zones (zr_node s)). zone_ordered s i) \<and>
     granted_once s \<and> list_all (cmd_in_zone (zr_node s)) (zr_granted s)"

lemma half_cmds_simps [simp]: "half_cmds (Base cmd) = [cmd]" "half_cmds (Ended rc effs) = []"
  by (simp_all add: half_cmds_def)

lemma zone_writes_none: "half_writes h = [] \<Longrightarrow> zone_writes zsize i (half_cmds h) = []"
  by (cases h) (auto simp: zone_writes_def half_writes_def split: base_cmd.splits)

lemma count_list_remove1: "count_list (remove1 x xs) y = count_list xs y - (if x = y then 1 else 0)"
  by (induction xs) auto

lemma count_list_pos: "x \<in> set xs \<Longrightarrow> 0 < count_list xs x"
  by (induction xs) auto

lemma accepted_in_zone:
  assumes wf: "node_wf node" and i: "i < length (zones node)" and acc: "io_accepted node io i"
  shows "unat (write_pointer (zones node ! i)) div unat (zone_size node) = i"
proof -
  let ?z = "zones node ! i" and ?s = "unat (zone_size node)"
  note ok = node_wfD(7) [OF wf i]
  have "unat (write_pointer ?z) < zone_end ?z"
    using ok acc by (auto simp: zone_ok_def write_accepted_def)
  moreover have "zone_end ?z \<le> i * ?s + ?s"
    using node_wfD(6,8,9) [OF wf] i by (simp add: zone_end_def word_le_nat_alt)
  moreover have "i * ?s \<le> unat (write_pointer ?z)"
    using ok node_wfD(8) [OF wf i] by (simp add: zone_ok_def word_le_nat_alt)
  ultimately show ?thesis
    by (intro div_nat_eqI) (simp_all add: algebra_simps)
qed

lemma cmd_in_zone_frame:
  assumes "length (zones node') = length (zones node)"
    and "\<And>i. i < length (zones node) \<Longrightarrow> zone_id (zones node' ! i) = zone_id (zones node ! i) \<and>
      capacity (zones node' ! i) = capacity (zones node ! i)"
  shows "cmd_in_zone node' cmd = cmd_in_zone node cmd"
  using assms by (auto simp: cmd_in_zone_def zone_end_def split: base_cmd.split)

lemma action_cmd:
  "zone_action_result base a z = (h, z') \<Longrightarrow> cmd \<in> set (half_cmds h) \<Longrightarrow>
    cmd = BaseUnmap (zone_id z) (capacity z)"
  by (cases a) (auto simp: zone_action_defs Let_def split: if_splits)

lemma request_cmd_in_zone:
  assumes wf: "node_wf node" and r: "zone_block_request base node io = Inr (h, buf, node')"
    and c: "cmd \<in> set (half_cmds h)"
  shows "cmd_in_zone node cmd"
proof (cases cmd)
  case (BaseWrite a n)
  then have "half_writes h \<noteq> []" using c by (cases h) auto
  with wf r show ?thesis
  proof (cases rule: request_cases)
    case (written i)
    then show ?thesis using c node_wfD(7) [OF wf written(1)]
      by (auto simp: cmd_in_zone_def write_accepted_def zone_ok_def)
  qed simp_all
next
  case (BaseUnmap a n)
  have "iotype io = IO_ZONE_MANAGEMENT"
    using r c BaseUnmap zone_block_write_eq [OF wf, of io]
    by (cases "iotype io") (auto simp: zone_block_request_def zone_block_read_def zone_block_get_zone_info_def
        Let_def split: prod.splits option.splits if_splits)
  then obtain i z' where i: "zone_block_get_zone_by_slba node (mgmt_zone_id io) = Some i"
    and a: "zone_action_result base (mgmt_action io) (zones node ! i) = (h, z')"
    using r c by (auto simp: zone_block_request_def zone_management_eq split: prod.splits option.splits)
  from action_cmd [OF a c] zone_by_slba_Some(1) [OF wf i] show ?thesis
    by (auto simp: cmd_in_zone_def)
qed (simp add: cmd_in_zone_def)

lemma request_zone_ordered:
  assumes wf: "node_wf (zr_node s)" and r: "zone_block_request base (zr_node s) io = Inr (h, buf, node')"
    and ord: "\<And>i. i < length (zones (zr_node s)) \<Longrightarrow> zone_ordered s i"
    and j: "j < length (zones node')"
  shows "zone_ordered (after_request h node' s) j"
proof (cases "zstate (zones node' ! j) = ZONE_STATE_EMPTY")
  case True
  then show ?thesis using node_wfD(7) [OF request_node_wf [OF wf r] j]
    by (simp add: zone_ordered_def after_request_def update_log_def zone_ok_def)
next
  case nonempty: False
  from wf r show ?thesis
  proof (cases rule: request_cases)
    case same
    with nonempty j ord show ?thesis
      by (simp add: zone_ordered_def after_request_def update_log_def zone_writes_none)
  next
    case (moved i z)
    then show ?thesis using nonempty j ord [of j]
      by (cases "j = i") (auto simp: zone_ordered_def after_request_def update_log_def zone_writes_none
          word_le_nat_alt intro: ordered_from_mono)
  next
    case (written i)
    let ?z = "zones (zr_node s) ! i"
    have w: "zone_writes (unat (zone_size node')) j (half_cmds h) =
        (if j = i then [(unat (write_pointer ?z), unat (num_blocks io))] else [])"
      using accepted_in_zone [OF wf written(1,2)] written(3,4) by (simp add: zone_writes_def)
    show ?thesis
    proof (cases "j = i")
      case True
      with w nonempty written j ord [of i] zone_after_write_ok(2) [OF node_wfD(7) [OF wf written(1)] written(2)]
      show ?thesis by (simp add: zone_ordered_def after_request_def update_log_def ordered_from_snoc)
    next
      case False
      with w nonempty written(4) j ord [of j] show ?thesis
        by (simp add: zone_ordered_def after_request_def update_log_def)
    qed
  qed
qed

lemma submit_granted_once:
  assumes "granted_once s" and "cmd \<in> set (zr_pending s)"
  shows "granted_once (after_submit base cmd s)"
  unfolding granted_once_def
proof
  fix c
  have "count_list (zr_base s) c + count_list (zr_pending s) c \<le> count_list (zr_granted s) c"
    using assms(1) by (simp add: granted_once_def)
  then show "count_list (zr_base (after_submit base cmd s) @ zr_pending (after_submit base cmd s)) c
      \<le> count_list (zr_granted (after_submit base cmd s)) c"
    using count_list_pos [OF assms(2)] by (auto simp: after_submit_def count_list_remove1)
qed

lemma dev_step_inv [step_inv]:
  assumes inv: "dev_inv s" and st: "dev_step s t"
  shows "dev_inv t"
  using st
proof (cases rule: dev_step.cases)
  case (request base io h buf node')
  have wf: "node_wf (zr_node s)" using inv by (simp add: dev_inv_def)
  note r = request(2)
  have z: "cmd_in_zone node' = cmd_in_zone (zr_node s)"
    by (rule ext, rule cmd_in_zone_frame) (use request_frame [OF wf r] in auto)
  have "list_all (cmd_in_zone node') (half_cmds h)"
    using request_cmd_in_zone [OF wf r] by (simp add: list_all_iff z)
  moreover have "granted_once t"
    using inv by (simp add: dev_inv_def granted_once_def request(1) after_request_def)
  moreover have "\<forall>i < length (zones node'). zone_ordered t i"
    using request_zone_ordered [OF wf r] inv by (simp add: dev_inv_def request(1))
  ultimately show ?thesis
    using inv request_node_wf [OF wf r] by (simp add: dev_inv_def request(1) after_request_def z)
next
  case (submit cmd base)
  with inv submit_granted_once show ?thesis
    by (simp add: dev_inv_def after_submit_def zone_ordered_def)
qed

lemma dev_init_inv: "dev_init s \<Longrightarrow> dev_inv s"
proof -
  assume "dev_init s"
  then obtain node where s: "s = fresh_run node" and wf: "node_wf node"
    unfolding dev_init_def using create_module_ok module_ok_def by blast
  have "zone_id (zones node ! i) \<le> write_pointer (zones node ! i)"
    if "i < length (zones node)" for i
    using node_wfD(7) [OF wf that] by (simp add: zone_ok_def)
  with wf s show ?thesis
    by (simp add: dev_inv_def fresh_run_def zone_ordered_def granted_once_def word_le_nat_alt)
qed

interpretation zone_machine: transition_invariant dev_step dev_init dev_inv
  by unfold_locales (auto intro: dev_init_inv dev_step_inv)

section \<open>Example device\<close>

text \<open>A base device of 8 blocks with zones of capacity 3: two zones of 4 blocks.\<close>

definition example_env :: register_env where
  "example_env = \<lparr>open_rc = None, base_is_zoned = False, base_blockcnt = 8, node_alloc_ok = True,
     name_alloc_ok = True, zones_alloc_ok = True, uuid_rc = None, spin_fail = None,
     bdev_register_rc = None, new_claim = unclaimed\<rparr>"

text \<open>No configuration, no device, nothing claimed.\<close>

definition empty_module :: zone_module where
  "empty_module = \<lparr>g_bdev_configs = [], g_bdev_nodes = [], base_claims = \<lambda>_. unclaimed\<rparr>"

definition example_cfg :: bdev_zone_block_config where
  "example_cfg = \<lparr>cfg_vbdev_name = ''v'', cfg_bdev_name = ''b'', cfg_zone_capacity = 3,
     cfg_optimal_open_zones = 1\<rparr>"

definition example_node :: bdev_zone_block where
  "example_node = fresh_node 8 example_cfg 4"

definition example_base :: base_bdev where
  "example_base = \<lparr>unmap_supported = False, submit_rc = \<lambda>_. None\<rparr>"

definition example_io :: "io_type \<Rightarrow> u64 \<Rightarrow> u64 \<Rightarrow> spdk_bdev_io" where
  "example_io t lba n = \<lparr>iotype = t, offset_blocks = lba, num_blocks = n, mgmt_zone_id = lba,
     mgmt_num_zones = n, mgmt_action = ZONE_RESET\<rparr>"

text \<open>The device after its first zone has been reset.\<close>

definition example_reset :: bdev_zone_block where
  "example_reset = example_node\<lparr>zones := (zones example_node)[0 :=
     (zones example_node ! 0)\<lparr>zstate := ZONE_STATE_EMPTY, write_pointer := 0\<rparr>]\<rparr>"

lemma example_node_wf: "node_wf example_node"
  unfolding example_node_def by (rule fresh_node_wf) (simp add: example_cfg_def, code_simp)

lemma example_reset_step:
  "zone_block_submit_request example_base example_node (example_io IO_ZONE_MANAGEMENT 0 1) =
    Inr ([Complete STATUS_SUCCESS], [], example_reset)"
  by code_simp

lemma example_reset_wf: "node_wf example_reset"
  by (rule submit_node_wf [OF example_node_wf example_reset_step])

text \<open>The device after an append to the first zone.\<close>

definition example_written :: "u64 \<Rightarrow> bdev_zone_block" where
  "example_written n = example_reset\<lparr>zones := (zones example_reset)[0 :=
     (zones example_reset ! 0)\<lparr>zstate := ZONE_STATE_OPEN, write_pointer := n\<rparr>]\<rparr>"

lemma example_requests:
  "zone_block_request example_base example_node (example_io IO_ZONE_MANAGEMENT 0 1) =
    Inr (Ended None [Complete STATUS_SUCCESS], [], example_reset)"
  "zone_block_request example_base (example_written 2) (example_io IO_ZONE_MANAGEMENT 0 1) =
    Inr (Ended None [Complete STATUS_SUCCESS], [], example_reset)"
  "zone_block_request example_base example_reset (example_io IO_ZONE_APPEND 0 1) =
    Inr (Base (BaseWrite 0 1), [], example_written 1)"
  "zone_block_request example_base example_reset (example_io IO_ZONE_APPEND 0 2) =
    Inr (Base (BaseWrite 0 2), [], example_written 2)"
  by code_simp+

lemma example_created:
  "vbdev_zone_block_create True example_env ''b'' ''v'' 3 1 empty_module =
    Inr (None, with_node example_node (empty_module\<lparr>g_bdev_configs := [example_cfg]\<rparr>))"
proof -
  have "env_ok example_env" by (simp add: env_ok_def example_env_def)
  moreover have "spdk_align64pow2 (cfg_zone_capacity example_cfg) = Inr (2 ^ 2)" by code_simp
  ultimately have "zone_block_register_one example_env example_cfg (empty_module\<lparr>g_bdev_configs := [example_cfg]\<rparr>) =
      Inr (None, with_node example_node (empty_module\<lparr>g_bdev_configs := [example_cfg]\<rparr>))"
    by (subst register_one_eq [where n = 2]) (simp_all add: empty_module_def example_node_def example_env_def)
  then show ?thesis
    by (simp add: vbdev_zone_block_create_def zone_block_insert_name_def zone_block_register_def
        empty_module_def example_cfg_def)
qed

section \<open>Properties\<close>

text \<open>C7 (invariant). However requests run on the channels of a created device, handlers interleaving
  with the submissions of others, and whatever the base device answers: every zone keeps its write
  pointer within its capacity, is full exactly when the pointer is at the end and starts at the pointer
  when empty; the writes granted since the zone was last empty lie, in the order of the grants, one
  after the other between the start of the zone and its write pointer, without overlap; and every
  command that reached the base device or is about to was granted, each grant being used at most
  once, a write inside the usable part of one zone, an unmap on exactly one. The order in which
  granted writes reach the base device is left open: the lock is released before.\<close>

theorem zone_history_ordered:
  assumes "module_ok m"
    and "vbdev_zone_block_create ok env bname vname cap optimal m = Inr (rc, m')"
    and "node \<in> set (g_bdev_nodes m')"
    and "dev_step\<^sup>*\<^sup>* (fresh_run node) s"
  shows "(\<forall>i < length (zones (zr_node s)). zone_ok (zones (zr_node s) ! i) \<and>
      ordered_from (unat (zone_id (zones (zr_node s) ! i))) (zr_log s i)
        (unat (write_pointer (zones (zr_node s) ! i)))) \<and>
    (\<forall>cmd. count_list (zr_base s @ zr_pending s) cmd \<le> count_list (zr_granted s) cmd) \<and>
    list_all (cmd_in_zone (zr_node s)) (zr_granted s)"
proof -
  have "dev_init (fresh_run node)" using assms(1-3) unfolding dev_init_def by blast
  from zone_machine.reachable_inv [OF this assms(4)] show ?thesis
    by (simp add: dev_inv_def node_wfD(7) zone_ordered_def granted_once_def)
qed

text \<open>An append is granted, the zone is reset on another channel and a second append granted: both
  appends wait with the same address, and the second is submitted first.\<close>

definition example_run :: zone_run where
  "example_run =
     after_submit example_base (BaseWrite 0 1)
      (after_request (Base (BaseWrite 0 1)) (example_written 1)
        (after_request (Ended None [Complete STATUS_SUCCESS]) example_reset
          (after_request (Base (BaseWrite 0 2)) (example_written 2)
            (after_request (Ended None [Complete STATUS_SUCCESS]) example_reset
              (fresh_run example_node)))))"

lemma example_run_reached: "dev_step\<^sup>*\<^sup>* (fresh_run example_node) example_run"
proof -
  let ?r = "\<lambda>s. after_request (Ended None [Complete STATUS_SUCCESS]) example_reset s"
    and ?a = "\<lambda>n s. after_request (Base (BaseWrite 0 n)) (example_written n) s"
  have first: "dev_step (fresh_run example_node) (?r (fresh_run example_node))"
    by (rule request_step [OF _ example_requests(1)]) (simp add: fresh_run_def)
  have again: "dev_step s (?r s)" if "zr_node s = example_written 2" for s
    using that by (rule request_step [OF _ example_requests(2)])
  have one: "dev_step s (?a 1 s)" if "zr_node s = example_reset" for s
    using that by (rule request_step [OF _ example_requests(3)])
  have two: "dev_step s (?a 2 s)" if "zr_node s = example_reset" for s
    using that by (rule request_step [OF _ example_requests(4)])
  have sub: "dev_step s (after_submit example_base (BaseWrite 0 1) s)"
    if "BaseWrite 0 1 \<in> set (zr_pending s)" for s using that by (rule dev_step.submit)
  note star = rtranclp.rtrancl_into_rtrancl [where r = dev_step]
  show ?thesis unfolding example_run_def
    by (rule star, rule star, rule star, rule star, rule star, rule rtranclp.rtrancl_refl, rule first,
        rule two, simp add: after_request_def, rule again, simp add: after_request_def, rule one,
        simp add: after_request_def, rule sub, simp add: after_request_def)
qed

lemma zone_history_ordered_witness:
  "zr_log example_run 0 = [(0, 1)] \<and> zr_pending example_run = [BaseWrite 0 2] \<and>
    zr_base example_run = [BaseWrite 0 1] \<and> zone_ok (zones (zr_node example_run) ! 0) \<and>
    list_all (cmd_in_zone (zr_node example_run)) (zr_granted example_run)"
proof -
  have "module_ok empty_module" by (simp add: module_ok_def empty_module_def)
  from zone_history_ordered [OF this example_created _ example_run_reached]
  have "zone_ok (zones (zr_node example_run) ! 0)"
    "list_all (cmd_in_zone (zr_node example_run)) (zr_granted example_run)"
    if "0 < length (zones (zr_node example_run))" using that by (auto simp: with_node_def)
  moreover have "0 < length (zones (zr_node example_run))" "zr_log example_run 0 = [(0, 1)]"
    "zr_pending example_run = [BaseWrite 0 2]" "zr_base example_run = [BaseWrite 0 1]" by code_simp+
  ultimately show ?thesis by blast
qed

text \<open>C18 (functional). A write or append to a well-formed device is accepted exactly when its
  zone is not full, a plain write is at the write pointer and the blocks fit in the zone: then
  it goes to the base device at the write pointer, which advances by its length and makes the
  zone full when it reaches the end. A refused request fails, and no assertion does.\<close>

theorem write_exact:
  assumes "node_wf node" and "iotype io \<in> {IO_WRITE, IO_ZONE_APPEND}"
    and "submit_rc base = (\<lambda>_. None)"
  shows "zone_block_submit_request base node io = Inr
    (case write_target node io of
       None \<Rightarrow> ([Complete STATUS_FAILED], [], node)
     | Some i \<Rightarrow>
         if io_accepted node io i then
           ([Submit (BaseWrite (write_pointer (zones node ! i)) (num_blocks io))], [],
            node\<lparr>zones := (zones node)[i := zone_after_write (zones node ! i) (num_blocks io)]\<rparr>)
         else ([Complete STATUS_FAILED], [],
               node\<lparr>zones := (zones node)[i := zone_after_refusal (zones node ! i)]\<rparr>))"
  using assms(2)
  by (auto simp: zone_block_submit_request_def zone_block_request_def zone_block_write_eq [OF assms(1)]
      submit_base_def assms(3) submit_status_def split: option.splits)

lemma write_exact_witness:
  "node_wf example_reset \<and>
     fst (projr (zone_block_submit_request example_base example_reset (example_io IO_WRITE 0 2))) =
       [Submit (BaseWrite 0 2)]"
proof -
  have "write_target example_reset (example_io IO_WRITE 0 2) = Some 0"
    "io_accepted example_reset (example_io IO_WRITE 0 2) 0"
    "write_pointer (zones example_reset ! 0) = 0" by code_simp+
  with write_exact [OF example_reset_wf, of "example_io IO_WRITE 0 2" example_base] example_reset_wf
  show ?thesis by (simp add: example_io_def example_base_def)
qed

text \<open>C19 (safety). A write whose submission to the base device fails for lack of memory is
  completed with \<^verbatim>\<open>NOMEM\<close>, on which the bdev layer submits it again; but the write pointer
  has moved past it, so that the second submission always fails.\<close>

theorem nomem_write_not_retryable:
  assumes wf: "node_wf node" and t: "write_target node io = Some i" and acc: "io_accepted node io i"
    and ty: "iotype io = IO_WRITE" and len: "num_blocks io \<noteq> 0"
    and rc: "submit_rc base (BaseWrite (write_pointer (zones node ! i)) (num_blocks io)) = Some ENOMEM"
  shows "\<exists>node'. zone_block_submit_request base node io = Inr ([Complete STATUS_NOMEM], [], node') \<and>
    (\<forall>base'. \<exists>node''. zone_block_submit_request base' node' io = Inr ([Complete STATUS_FAILED], [], node''))"
proof -
  define node' where "node' = node\<lparr>zones := (zones node)[i := zone_after_write (zones node ! i) (num_blocks io)]\<rparr>"
  note i = write_target_Some [OF wf t]
  have z': "zones node' ! i = zone_after_write (zones node ! i) (num_blocks io)"
    and frame: "length (zones node') = length (zones node)" "zone_size node' = zone_size node"
    using i by (simp_all add: node'_def)
  have "zone_block_write node io =
      Inr (Base (BaseWrite (write_pointer (zones node ! i)) (num_blocks io)), node')"
    by (simp add: zone_block_write_eq [OF wf] t acc node'_def)
  then have first: "zone_block_submit_request base node io = Inr ([Complete STATUS_NOMEM], [], node')"
    by (simp add: zone_block_submit_request_def zone_block_request_def ty submit_status_def
        submit_base_def rc)
  note wf' = submit_node_wf [OF wf first]
  have t': "write_target node' io = Some i"
    using t ty unfolding write_target_def zone_containing_eq [OF wf] zone_containing_eq [OF wf'] frame
    by simp
  have "offset_blocks io = write_pointer (zones node ! i)"
    using acc ty by (simp add: write_accepted_def)
  moreover have "write_pointer (zones node' ! i) \<noteq> write_pointer (zones node ! i)"
    using zone_after_write_ok(2) [OF node_wfD(7) [OF wf i] acc] z' len
    by (simp add: word_unat_eq_iff)
  ultimately have "\<not> io_accepted node' io i" using ty by (simp add: write_accepted_def)
  then have "\<exists>node''. zone_block_submit_request base' node' io = Inr ([Complete STATUS_FAILED], [], node'')"
    for base'
    by (simp add: zone_block_submit_request_def zone_block_request_def ty zone_block_write_eq [OF wf'] t'
        submit_status_def)
  with first show ?thesis by blast
qed

lemma nomem_write_not_retryable_witness:
  "\<exists>node. zone_block_submit_request \<lparr>unmap_supported = False, submit_rc = \<lambda>_. Some ENOMEM\<rparr>
      example_reset (example_io IO_WRITE 0 2) = Inr ([Complete STATUS_NOMEM], [], node) \<and>
    (\<exists>node'. zone_block_submit_request example_base node (example_io IO_WRITE 0 2) =
      Inr ([Complete STATUS_FAILED], [], node'))"
proof -
  have t: "write_target example_reset (example_io IO_WRITE 0 2) = Some 0"
    "io_accepted example_reset (example_io IO_WRITE 0 2) 0" by code_simp+
  from nomem_write_not_retryable [OF example_reset_wf t] show ?thesis
    by (simp add: example_io_def) (metis base_bdev.select_convs(2))
qed

text \<open>A read that the bdev layer lets through reaches the base device exactly
  when its whole range lies in the usable part of one zone.\<close>

theorem read_within_zone:
  assumes wf: "node_wf node" and ty: "iotype io = IO_READ"
    and valid: "bdev_io_valid_blocks (blockcnt node) (offset_blocks io) (num_blocks io)"
    and ok: "submit_rc base = (\<lambda>_. None)"
  shows "zone_block_submit_request base node io = Inr
    (if \<exists>i < length (zones node). unat (zone_id (zones node ! i)) \<le> unat (offset_blocks io) \<and>
          unat (offset_blocks io) < unat (zone_id (zones node ! i)) + unat (zone_size node) \<and>
          unat (offset_blocks io) + unat (num_blocks io) \<le> zone_end (zones node ! i)
     then [Submit (BaseRead (offset_blocks io) (num_blocks io))] else [Complete STATUS_FAILED], [], node)"
proof -
  let ?lba = "offset_blocks io" and ?len = "num_blocks io"
  have sum: "unat (?lba + ?len) = unat ?lba + unat ?len"
    using valid no_olen_add_nat [of ?lba ?len] unat_add_lem [of ?lba ?len]
    by (auto simp: bdev_io_valid_blocks_def not_less split: if_splits)
  have eq: "zone_block_submit_request base node io = Inr
      (if zone_block_read node io = Base (BaseRead ?lba ?len)
       then [Submit (BaseRead ?lba ?len)] else [Complete STATUS_FAILED], [], node)"
    using ty ok by (auto simp: zone_block_submit_request_def zone_block_request_def zone_block_read_def
        submit_base_def submit_status_def Let_def split: option.splits if_splits)
  have "zone_block_read node io = Base (BaseRead ?lba ?len) \<longleftrightarrow>
      (\<exists>i. zone_block_get_zone_containing_lba node ?lba = Some i \<and>
        unat ?lba + unat ?len \<le> zone_end (zones node ! i))"
    using sum zone_containing_Some(1) [OF wf] unat_zone_end [OF node_wfD(7) [OF wf]]
    by (auto simp: zone_block_read_def Let_def word_less_nat_alt not_less split: option.splits)
  then have "zone_block_read node io = Base (BaseRead ?lba ?len) \<longleftrightarrow>
      (\<exists>i < length (zones node). unat (zone_id (zones node ! i)) \<le> unat ?lba \<and>
        unat ?lba < unat (zone_id (zones node ! i)) + unat (zone_size node) \<and>
        unat ?lba + unat ?len \<le> zone_end (zones node ! i))"
    unfolding zone_containing_iff [OF wf] by blast
  then show ?thesis unfolding eq by simp
qed

lemma read_within_zone_witness:
  "zone_block_submit_request example_base example_node (example_io IO_READ 5 2) =
     Inr ([Submit (BaseRead 5 2)], [], example_node)"
proof -
  have v: "bdev_io_valid_blocks (blockcnt example_node) 5 2" by code_simp
  have "1 < length (zones example_node)" "unat (zone_id (zones example_node ! 1)) \<le> unat (5 :: u64)"
    "unat (5 :: u64) < unat (zone_id (zones example_node ! 1)) + unat (zone_size example_node)"
    "unat (5 :: u64) + unat (2 :: u64) \<le> zone_end (zones example_node ! 1)" by code_simp+
  then have "\<exists>i < length (zones example_node). unat (zone_id (zones example_node ! i)) \<le> unat (5 :: u64) \<and>
    unat (5 :: u64) < unat (zone_id (zones example_node ! i)) + unat (zone_size example_node) \<and>
    unat (5 :: u64) + unat (2 :: u64) \<le> zone_end (zones example_node ! i)" by blast
  with read_within_zone [OF example_node_wf, of "example_io IO_READ 5 2" example_base] v
  show ?thesis by (simp only: example_io_def example_base_def spdk_bdev_io.select_convs
        base_bdev.select_convs if_True refl simp_thms)
qed

text \<open>With fresh names, a capacity of at most \<open>2 ^ 63\<close> blocks, an unclaimed base device and a
  bdev layer that refuses nothing, creation records the configuration, claims the base device and adds
  one device: its zone size is a power of two that holds the capacity and is less than twice the
  capacity (2 for a capacity of 1), its zones are the ones that fit in the base device, all of them
  full, and it satisfies the invariant.\<close>

theorem create_geometry:
  assumes "env_ok env" and "bdev_register_rc env = None" and "base_claims m bname = unclaimed"
    and "cap \<noteq> 0" and "unat cap \<le> 2 ^ 63" and "optimal \<noteq> 0"
    and fresh: "\<forall>c \<in> set (g_bdev_configs m). cfg_vbdev_name c \<noteq> vname \<and> cfg_bdev_name c \<noteq> bname"
  shows "\<exists>n node cfg. n < 64 \<and> unat cap \<le> 2 ^ n \<and> (2 ^ n < 2 * unat cap \<or> cap = 1) \<and>
    unat (zone_size node) = 2 ^ n \<and> node_wf node \<and>
    length (zones node) = unat (base_blockcnt env) div 2 ^ n \<and>
    (\<forall>z \<in> set (zones node). zstate z = ZONE_STATE_FULL \<and> capacity z = cap) \<and>
    vbdev_zone_block_create True env bname vname cap optimal m =
      Inr (None, m\<lparr>g_bdev_configs := g_bdev_configs m @ [cfg], g_bdev_nodes := g_bdev_nodes m @ [node],
        base_claims := (base_claims m)(bname := claimed_by bdev_zoned_if)\<rparr>)"
proof -
  obtain n where n: "spdk_align64pow2 cap = Inr (2 ^ n)" "0 < n" "n < 64" "unat cap \<le> 2 ^ n"
    "2 ^ n < 2 * unat cap \<or> cap = 1"
    using align64pow2_defined [OF assms(4,5)] .
  define cfg where "cfg = \<lparr>cfg_vbdev_name = vname, cfg_bdev_name = bname, cfg_zone_capacity = cap,
    cfg_optimal_open_zones = optimal\<rparr>"
  define node where "node = fresh_node (base_blockcnt env) cfg (2 ^ n)"
  let ?m = "m\<lparr>g_bdev_configs := g_bdev_configs m @ [cfg]\<rparr>"
  let ?m' = "m\<lparr>g_bdev_configs := g_bdev_configs m @ [cfg], g_bdev_nodes := g_bdev_nodes m @ [node],
    base_claims := (base_claims m)(bname := claimed_by bdev_zoned_if)\<rparr>"
  have bn: "base_name node = bname" by (simp add: node_def fresh_node_def cfg_def Let_def)
  have one: "zone_block_register_one env cfg ?m = Inr (None, ?m')"
    using register_one_eq [of env ?m cfg n] assms(1-3) n(1,3) bn
    by (simp add: cfg_def node_def with_node_def with_claim_def)
  have skip: "register_loop env bname (cs @ [cfg]) ?m = register_loop env bname [cfg] ?m"
    if "\<forall>c \<in> set cs. cfg_bdev_name c \<noteq> bname" for cs
    using that by (induction cs) auto
  have "register_loop env bname (g_bdev_configs ?m) ?m = Inr (None, ?m')"
    using skip [of "g_bdev_configs m"] fresh one by (simp add: cfg_def)
  moreover have "zone_block_insert_name True bname vname cap optimal m = (None, ?m)"
    using fresh by (auto simp: zone_block_insert_name_def cfg_def)
  ultimately have create: "vbdev_zone_block_create True env bname vname cap optimal m = Inr (None, ?m')"
    using assms(4,6) by (simp add: vbdev_zone_block_create_def zone_block_register_def)
  have "node_wf node" using fresh_node_wf [of cfg] assms(4) n(1) by (simp add: node_def cfg_def)
  moreover have "\<forall>z \<in> set (zones node). zstate z = ZONE_STATE_FULL \<and> capacity z = cap"
    by (auto simp: node_def fresh_node_def fresh_zone_def cfg_def Let_def)
  moreover have "unat (zone_size node) = 2 ^ n" "length (zones node) = unat (base_blockcnt env) div 2 ^ n"
    using unat_exp_u64 [OF n(3)] by (simp_all add: node_def fresh_node_def Let_def unat_div_distrib)
  ultimately show ?thesis using create n(3-5) by blast
qed

lemma create_geometry_witness:
  "\<exists>n node cfg. unat (3 :: u64) \<le> 2 ^ n \<and> unat (zone_size node) = 2 ^ n \<and> node_wf node \<and>
    vbdev_zone_block_create True example_env ''b'' ''v'' 3 1 empty_module =
      Inr (None, empty_module\<lparr>g_bdev_configs := [cfg], g_bdev_nodes := [node],
        base_claims := (\<lambda>_. unclaimed)(''b'' := claimed_by bdev_zoned_if)\<rparr>)"
proof -
  have "env_ok example_env" "bdev_register_rc example_env = None" by code_simp+
  from create_geometry [OF this, of empty_module "''b''" 3 1 "''v''"] show ?thesis
    by (simp only: empty_module_def zone_module.simps list.set append_Nil ball_empty) fastforce
qed

text \<open>C20 (error). The registration of a device on an unclaimed base device, when nothing fails before:
  a capacity beyond \<open>2 ^ 63\<close> is not refused but reaches an undefined shift; otherwise the base
  device is claimed for the module. When the bdev layer then refuses the new device, the base device
  keeps its claim: the cleanup releases the claim of the new device, and stops at the assertion of
  \<^verbatim>\<open>spdk_bdev_module_release_bdev\<close> unless another module holds an exclusive one on it.\<close>

theorem register_error_paths:
  assumes "env_ok env" and "cfg_zone_capacity name \<noteq> 0"
    and "base_claims m (cfg_bdev_name name) = unclaimed"
  shows "zone_block_register_one env name m =
    (if 2 ^ 63 < unat (cfg_zone_capacity name) then Inl Undefined
     else let m1 = m\<lparr>base_claims := (base_claims m)(cfg_bdev_name name := claimed_by bdev_zoned_if)\<rparr>
       in case bdev_register_rc env of
         Some e \<Rightarrow>
           if claim_module (new_claim env) = None \<or> claim_type (new_claim env) \<noteq> CLAIM_EXCL_WRITE
           then Inl AssertFail
           else Inr (Some e, zone_block_remove_config (cfg_vbdev_name name) m1)
       | None \<Rightarrow> Inr (None, m1\<lparr>g_bdev_nodes := g_bdev_nodes m @
           [fresh_node (base_blockcnt env) name (projr (spdk_align64pow2 (cfg_zone_capacity name)))]\<rparr>))"
proof (cases "2 ^ 63 < unat (cfg_zone_capacity name)")
  case True
  with assms(1) align64pow2_undefined [OF True] show ?thesis
    by (simp add: zone_block_register_one_def env_ok_def)
next
  case False
  then obtain n where n: "spdk_align64pow2 (cfg_zone_capacity name) = Inr (2 ^ n)" "n < 64"
    using align64pow2_defined [OF assms(2)] by (metis not_less)
  have "base_name (fresh_node (base_blockcnt env) name z) = cfg_bdev_name name" for z
    by (simp add: fresh_node_def Let_def)
  with False n(1) register_one_eq [OF assms(1,3) n] show ?thesis
    by (auto simp: with_node_def with_claim_def spdk_bdev_module_release_bdev_def c_assert_def Let_def
        split: option.split)
qed

lemma register_error_paths_witness:
  "zone_block_register_one (example_env\<lparr>bdev_register_rc := Some EEXIST\<rparr>) example_cfg
     (empty_module\<lparr>g_bdev_configs := [example_cfg]\<rparr>) = Inl AssertFail"
  using register_error_paths [of "example_env\<lparr>bdev_register_rc := Some EEXIST\<rparr>" example_cfg
      "empty_module\<lparr>g_bdev_configs := [example_cfg]\<rparr>"]
  by (simp add: env_ok_def example_env_def example_cfg_def empty_module_def unclaimed_def)

text \<open>Zone information is returned for the requested zones, in order, when all
  of them exist and the first address is the start of a zone.\<close>

theorem get_zone_info_exact:
  assumes wf: "node_wf node" and "i + unat (mgmt_num_zones io) \<le> length (zones node)"
    and "unat (mgmt_zone_id io) = i * unat (zone_size node)" and "iotype io = IO_GET_ZONE_INFO"
  shows "zone_block_submit_request base node io =
    Inr ([Complete STATUS_SUCCESS], take (unat (mgmt_num_zones io)) (drop i (zones node)), node)"
proof -
  have "get_zone_info_loop node n zid buf = (None, buf @ take n (drop j (zones node)))"
    if "j + n \<le> length (zones node)" "n = 0 \<or> unat zid = j * unat (zone_size node)" for n zid buf j
    using that
  proof (induction n arbitrary: zid buf j)
    case (Suc n)
    then have j: "j < length (zones node)" and zid: "unat zid = j * unat (zone_size node)" by auto
    have pos: "0 < unat (zone_size node)" using node_wfD(2) [OF wf] by simp
    have "zone_id (zones node ! j) = zid"
      using node_wfD(8) [OF wf j] zid by (simp add: word_unat_eq_iff)
    then have look: "zone_block_get_zone_by_slba node zid = Some j"
      using zid j pos by (simp add: zone_block_get_zone_by_slba_def zone_containing_eq [OF wf])
    have next_id: "n = 0 \<or> unat (zid + zone_size node) = Suc j * unat (zone_size node)"
    proof (cases "n = 0")
      case False
      with Suc.prems(1) have "Suc j * unat (zone_size node) \<le> length (zones node) * unat (zone_size node)"
        by (intro mult_le_mono1) simp
      with node_wfD(4) [OF wf] zid show ?thesis by (simp add: unat_add_u64)
    qed simp
    have "get_zone_info_loop node n (zid + zone_size node) (buf @ [zones node ! j]) =
        (None, (buf @ [zones node ! j]) @ take n (drop (Suc j) (zones node)))"
      by (rule Suc.IH [OF _ next_id]) (use Suc.prems(1) in simp)
    with look j show ?case by (simp add: Cons_nth_drop_Suc [symmetric])
  qed simp
  with assms show ?thesis
    by (simp add: zone_block_submit_request_def zone_block_request_def zone_block_get_zone_info_def
        submit_status_def)
qed

lemma get_zone_info_exact_witness:
  "zone_block_submit_request example_base example_node (example_io IO_GET_ZONE_INFO 4 1) =
     Inr ([Complete STATUS_SUCCESS], take 1 (drop 1 (zones example_node)), example_node)"
proof -
  have "1 + unat (mgmt_num_zones (example_io IO_GET_ZONE_INFO 4 1)) \<le> length (zones example_node)"
    "unat (mgmt_zone_id (example_io IO_GET_ZONE_INFO 4 1)) = 1 * unat (zone_size example_node)"
    "iotype (example_io IO_GET_ZONE_INFO 4 1) = IO_GET_ZONE_INFO"
    "unat (mgmt_num_zones (example_io IO_GET_ZONE_INFO 4 1)) = 1"
    by code_simp+
  with get_zone_info_exact [OF example_node_wf this(1-3), of example_base] show ?thesis by metis
qed

end
