(* ===== verification/Nvmf_Resv.thy ===== *)
theory Nvmf_Resv
  imports SPDK_Prelude
begin

text \<open>
  The persistent reservations of an NVMe-oF namespace (\<^verbatim>\<open>lib/nvmf/subsystem.c\<close>) and their
  enforcement on the I/O path (\<^verbatim>\<open>lib/nvmf/ctrlr.c\<close>). The reservation commands run one at a
  time on the subsystem's thread, so a command is one step. This theory holds the definitions;
  \<open>Nvmf_Resv_Inv\<close> the invariant and \<open>Nvmf_Resv_Props\<close> the properties.
\<close>

section \<open>Data\<close>

type_synonym uuid = "128 word"

text \<open>Registrants are heap objects that the code compares by address.\<close>

record nvmf_registrant =
  reg_addr :: nat
  hostid :: uuid
  rkey :: u64
  cntlid :: u16

record preempt_abort_info =
  pa_hostids :: "uuid list"
  pa_io_waiting_done :: bool
  pa_hostids_gen :: u32
  pa_timeout_ticks :: u64

record nvmf_ns =
  ns_mask :: u32
  gen :: u32
  registrants :: "nvmf_registrant list"
  crkey :: u64
  rtype :: u8
  holder :: "nat option"
  preempt_abort :: "preempt_abort_info option"
  ptpl_capable :: bool
  ptpl_activated :: bool
  ns_bdev_uuid :: uuid

record nvmf_ctrlr =
  ctrlr_hostid :: uuid
  ctrlr_cntlid :: u16

datatype nvme_sc =
    SC_SUCCESS | SC_INVALID_FIELD | SC_INTERNAL_DEVICE_ERROR | SC_RESERVATION_CONFLICT
  | SC_HOSTID_INCONSISTENT_FORMAT

datatype log_page_type =
    LOG_PAGE_EMPTY | REGISTRATION_PREEMPTED | RESERVATION_RELEASED | RESERVATION_PREEMPTED

abbreviation WRITE_EXCLUSIVE :: u8 where "WRITE_EXCLUSIVE \<equiv> 1"
abbreviation EXCLUSIVE_ACCESS :: u8 where "EXCLUSIVE_ACCESS \<equiv> 2"
abbreviation WRITE_EXCLUSIVE_REG_ONLY :: u8 where "WRITE_EXCLUSIVE_REG_ONLY \<equiv> 3"
abbreviation EXCLUSIVE_ACCESS_REG_ONLY :: u8 where "EXCLUSIVE_ACCESS_REG_ONLY \<equiv> 4"
abbreviation WRITE_EXCLUSIVE_ALL_REGS :: u8 where "WRITE_EXCLUSIVE_ALL_REGS \<equiv> 5"
abbreviation EXCLUSIVE_ACCESS_ALL_REGS :: u8 where "EXCLUSIVE_ACCESS_ALL_REGS \<equiv> 6"

definition MAX_NUM_REGISTRANTS :: nat where
  "MAX_NUM_REGISTRANTS = 16"

section \<open>Helpers\<close>

definition nvmf_ns_registrants_get_count :: "nvmf_ns \<Rightarrow> nat" where
  "nvmf_ns_registrants_get_count ns = length (registrants ns)"

definition nvmf_ns_reservation_get_registrant :: "nvmf_ns \<Rightarrow> uuid \<Rightarrow> nvmf_registrant option" where
  "nvmf_ns_reservation_get_registrant ns uuid = find (\<lambda>reg. hostid reg = uuid) (registrants ns)"

text \<open>A notice is the controller that gets a log page and its type; a masked type gives none.
  (The allocation of the page, whose failure is silent, is left out.)\<close>

definition nvmf_ctrlr_reservation_notice_log ::
  "nvmf_ctrlr \<Rightarrow> nvmf_ns \<Rightarrow> log_page_type \<Rightarrow> (nvmf_ctrlr \<times> log_page_type) list" where
  "nvmf_ctrlr_reservation_notice_log ctrlr ns t =
     (case t of
        LOG_PAGE_EMPTY \<Rightarrow> []
      | REGISTRATION_PREEMPTED \<Rightarrow> if ns_mask ns AND 2 \<noteq> 0 then [] else [(ctrlr, t)]
      | RESERVATION_RELEASED \<Rightarrow> if ns_mask ns AND 4 \<noteq> 0 then [] else [(ctrlr, t)]
      | RESERVATION_PREEMPTED \<Rightarrow> if ns_mask ns AND 8 \<noteq> 0 then [] else [(ctrlr, t)])"

definition nvmf_subsystem_gen_ctrlr_notification ::
  "nvmf_ctrlr list \<Rightarrow> nvmf_ns \<Rightarrow> uuid list \<Rightarrow> log_page_type \<Rightarrow> (nvmf_ctrlr \<times> log_page_type) list" where
  "nvmf_subsystem_gen_ctrlr_notification ctrlrs ns hostid_list t =
     concat (map (\<lambda>h. concat (map (\<lambda>c.
       if ctrlr_hostid c = h then nvmf_ctrlr_reservation_notice_log c ns t else []) ctrlrs)) hostid_list)"

text \<open>The assertion is the one taken when the list would outgrow the array.\<close>

definition nvmf_ns_reservation_get_all_other_hostid :: "nvmf_ns \<Rightarrow> uuid \<Rightarrow> uuid list res" where
  "nvmf_ns_reservation_get_all_other_hostid ns current_hostid =
     (let others = map hostid (filter (\<lambda>reg. hostid reg \<noteq> current_hostid) (registrants ns)) in
      c_assert (length others \<le> MAX_NUM_REGISTRANTS) (Inr others))"

definition nvmf_ns_reservation_get_unregistered_hostid :: "uuid list \<Rightarrow> uuid list \<Rightarrow> uuid list" where
  "nvmf_ns_reservation_get_unregistered_hostid old remaining =
     (if remaining = [] then old else filter (\<lambda>h. h \<notin> set remaining) old)"

definition all_regs_rtype :: "u8 \<Rightarrow> bool" where
  "all_regs_rtype t = (t = WRITE_EXCLUSIVE_ALL_REGS \<or> t = EXCLUSIVE_ACCESS_ALL_REGS)"

definition nvmf_ns_reservation_all_registrants_type :: "nvmf_ns \<Rightarrow> bool" where
  "nvmf_ns_reservation_all_registrants_type ns = all_regs_rtype (rtype ns)"

definition nvmf_ns_reservation_registrant_is_holder :: "nvmf_ns \<Rightarrow> nvmf_registrant option \<Rightarrow> bool" where
  "nvmf_ns_reservation_registrant_is_holder ns reg =
     (case reg of
        None \<Rightarrow> False
      | Some r \<Rightarrow>
          if nvmf_ns_reservation_all_registrants_type ns then True else holder ns = Some (reg_addr r))"

text \<open>\<open>alloc\<close> is the address \<^verbatim>\<open>calloc\<close> returns, if it succeeds.\<close>

definition nvmf_ns_reservation_add_registrant ::
  "nat option \<Rightarrow> nvmf_ns \<Rightarrow> nvmf_ctrlr \<Rightarrow> u64 \<Rightarrow> nvmf_ns res" where
  "nvmf_ns_reservation_add_registrant alloc ns ctrlr nrkey =
     (if MAX_NUM_REGISTRANTS \<le> nvmf_ns_registrants_get_count ns then Inl (Errno ENOMEM)
      else
        (case alloc of
           None \<Rightarrow> Inl (Errno ENOMEM)
         | Some a \<Rightarrow>
             Inr (ns\<lparr>registrants := registrants ns @
                       [\<lparr>reg_addr = a, hostid = ctrlr_hostid ctrlr, rkey = nrkey,
                         cntlid = ctrlr_cntlid ctrlr\<rparr>],
                     gen := gen ns + 1\<rparr>)))"

definition nvmf_ns_reservation_release_reservation :: "nvmf_ns \<Rightarrow> nvmf_ns" where
  "nvmf_ns_reservation_release_reservation ns = ns\<lparr>rtype := 0, crkey := 0, holder := None\<rparr>"

definition nvmf_ns_reservation_check_release_on_remove_registrant ::
  "nvmf_ns \<Rightarrow> nvmf_registrant \<Rightarrow> nvmf_ns res" where
  "nvmf_ns_reservation_check_release_on_remove_registrant ns reg =
     (if holder ns = None then c_assert (rtype ns = 0) (Inr ns)
      else if registrants ns \<noteq> [] \<and> nvmf_ns_reservation_all_registrants_type ns
        then Inr (ns\<lparr>holder := Some (reg_addr (hd (registrants ns)))\<rparr>)
      else if nvmf_ns_reservation_registrant_is_holder ns (Some reg)
        then Inr (nvmf_ns_reservation_release_reservation ns)
      else Inr ns)"

definition nvmf_ns_reservation_remove_registrant :: "nvmf_ns \<Rightarrow> nvmf_registrant \<Rightarrow> nvmf_ns res" where
  "nvmf_ns_reservation_remove_registrant ns reg =
     map_sum id (\<lambda>ns'. ns'\<lparr>gen := gen ns' + 1\<rparr>)
       (nvmf_ns_reservation_check_release_on_remove_registrant
         (ns\<lparr>registrants := filter (\<lambda>r. reg_addr r \<noteq> reg_addr reg) (registrants ns)\<rparr>) reg)"

text \<open>\<^verbatim>\<open>TAILQ_FOREACH_SAFE\<close> over the list as it is at the start, removing the registrants that
  satisfy a condition; the result counts them.\<close>

fun remove_registrants_loop ::
  "(nvmf_registrant \<Rightarrow> bool) \<Rightarrow> nvmf_registrant list \<Rightarrow> nat \<Rightarrow> nvmf_ns \<Rightarrow> (nat \<times> nvmf_ns) res" where
  "remove_registrants_loop P [] count ns = Inr (count, ns)"
| "remove_registrants_loop P (reg # regs) count ns =
     (if P reg then
        (case nvmf_ns_reservation_remove_registrant ns reg of
           Inl e \<Rightarrow> Inl e
         | Inr ns' \<Rightarrow> remove_registrants_loop P regs (count + 1) ns')
      else remove_registrants_loop P regs count ns)"

definition nvmf_ns_reservation_remove_registrants_by_key :: "nvmf_ns \<Rightarrow> u64 \<Rightarrow> (nat \<times> nvmf_ns) res" where
  "nvmf_ns_reservation_remove_registrants_by_key ns key =
     remove_registrants_loop (\<lambda>reg. rkey reg = key) (registrants ns) 0 ns"

definition nvmf_ns_reservation_remove_other_registrants_by_key ::
  "nvmf_ns \<Rightarrow> u64 \<Rightarrow> nvmf_registrant \<Rightarrow> nvmf_ns res" where
  "nvmf_ns_reservation_remove_other_registrants_by_key ns key reg =
     map_sum id snd (remove_registrants_loop
       (\<lambda>r. rkey r = key \<and> reg_addr reg \<noteq> reg_addr r) (registrants ns) 0 ns)"

definition nvmf_ns_reservation_remove_all_other_registrants ::
  "nvmf_ns \<Rightarrow> nvmf_registrant \<Rightarrow> (nat \<times> nvmf_ns) res" where
  "nvmf_ns_reservation_remove_all_other_registrants ns reg =
     remove_registrants_loop (\<lambda>r. reg_addr r \<noteq> reg_addr reg) (registrants ns) 0 ns"

definition nvmf_ns_reservation_clear_all_registrants :: "nvmf_ns \<Rightarrow> (nat \<times> nvmf_ns) res" where
  "nvmf_ns_reservation_clear_all_registrants ns =
     remove_registrants_loop (\<lambda>_. True) (registrants ns) 0 ns"

definition nvmf_ns_reservation_acquire_reservation ::
  "nvmf_ns \<Rightarrow> u64 \<Rightarrow> u8 \<Rightarrow> nvmf_registrant \<Rightarrow> nvmf_ns res" where
  "nvmf_ns_reservation_acquire_reservation ns key t reg =
     c_assert (holder ns = None)
       (Inr (ns\<lparr>rtype := t, crkey := key, holder := Some (reg_addr reg)\<rparr>))"

section \<open>Commands\<close>

text \<open>A command's result: whether the poll groups are to be updated, the status, the notices
  sent and the namespace. \<open>keys\<close> is \<open>None\<close> when no data buffer of sufficient size came with the
  request. The command fields are the bit fields of the first command dword.\<close>

type_synonym resv_out = "bool \<times> nvme_sc \<times> (nvmf_ctrlr \<times> log_page_type) list \<times> nvmf_ns"

record register_cmd =
  rrega :: u8
  reg_iekey :: bool
  cptpl :: u8
  reg_keys :: "(u64 \<times> u64) option" \<comment> \<open>crkey, nrkey\<close>

text \<open>\<open>None\<close> is the refusal of persistence by a namespace without a file for it.\<close>

definition resv_register_ptpl :: "nvmf_ns \<Rightarrow> u8 \<Rightarrow> (bool \<times> nvmf_ns) option" where
  "resv_register_ptpl ns c =
     (if c = 2 then
        (if ptpl_activated ns then Some (True, ns\<lparr>ptpl_activated := False\<rparr>) else Some (False, ns))
      else if c = 3 then
        (if \<not> ptpl_capable ns then None
         else if \<not> ptpl_activated ns then Some (True, ns\<lparr>ptpl_activated := True\<rparr>)
         else Some (False, ns))
      else Some (False, ns))"

definition resv_register_key ::
  "nat option \<Rightarrow> bool \<Rightarrow> nvmf_ns \<Rightarrow> nvmf_ctrlr \<Rightarrow> u64 \<Rightarrow> resv_out res" where
  "resv_register_key alloc upd ns ctrlr nrkey =
     (case nvmf_ns_reservation_get_registrant ns (ctrlr_hostid ctrlr) of
        None \<Rightarrow>
          if nrkey = 0 then Inr (upd, SC_INVALID_FIELD, [], ns)
          else (case nvmf_ns_reservation_add_registrant alloc ns ctrlr nrkey of
                  Inl _ \<Rightarrow> Inr (upd, SC_INTERNAL_DEVICE_ERROR, [], ns)
                | Inr ns' \<Rightarrow> Inr (True, SC_SUCCESS, [], ns'))
      | Some reg \<Rightarrow>
          if rkey reg \<noteq> nrkey then Inr (upd, SC_RESERVATION_CONFLICT, [], ns)
          else Inr (upd, SC_SUCCESS, [], ns))"

definition resv_unregister_key ::
  "nvmf_ctrlr list \<Rightarrow> bool \<Rightarrow> nvmf_ns \<Rightarrow> nvmf_ctrlr \<Rightarrow> bool \<Rightarrow> u64 \<Rightarrow> resv_out res" where
  "resv_unregister_key ctrlrs upd ns ctrlr iekey key =
     (case nvmf_ns_reservation_get_registrant ns (ctrlr_hostid ctrlr) of
        None \<Rightarrow> Inr (upd, SC_RESERVATION_CONFLICT, [], ns)
      | Some reg \<Rightarrow>
          if \<not> iekey \<and> rkey reg \<noteq> key then Inr (upd, SC_RESERVATION_CONFLICT, [], ns)
          else
            (let t = rtype ns in
             case nvmf_ns_reservation_get_all_other_hostid ns (ctrlr_hostid ctrlr) of
               Inl e \<Rightarrow> Inl e
             | Inr hostid_list \<Rightarrow>
                 map_sum id (\<lambda>ns'.
                   (True, SC_SUCCESS,
                    if rtype ns' = 0 \<and> hostid_list \<noteq> [] \<and>
                       (t = WRITE_EXCLUSIVE_REG_ONLY \<or> t = EXCLUSIVE_ACCESS_REG_ONLY)
                    then nvmf_subsystem_gen_ctrlr_notification ctrlrs ns' hostid_list
                           RESERVATION_RELEASED
                    else [], ns'))
                   (nvmf_ns_reservation_remove_registrant ns reg)))"

definition set_rkey :: "nat \<Rightarrow> u64 \<Rightarrow> nvmf_registrant list \<Rightarrow> nvmf_registrant list" where
  "set_rkey a key = map (\<lambda>r. if reg_addr r = a then r\<lparr>rkey := key\<rparr> else r)"

definition resv_replace_key ::
  "nat option \<Rightarrow> bool \<Rightarrow> nvmf_ns \<Rightarrow> nvmf_ctrlr \<Rightarrow> bool \<Rightarrow> u64 \<Rightarrow> u64 \<Rightarrow> resv_out res" where
  "resv_replace_key alloc upd ns ctrlr iekey key nrkey =
     (if nrkey = 0 then Inr (upd, SC_INVALID_FIELD, [], ns)
      else
        (case nvmf_ns_reservation_get_registrant ns (ctrlr_hostid ctrlr) of
           Some reg \<Rightarrow>
             if \<not> iekey \<and> rkey reg \<noteq> key then Inr (upd, SC_RESERVATION_CONFLICT, [], ns)
             else if rkey reg = nrkey then Inr (upd, SC_SUCCESS, [], ns)
             else
               (let ns1 = ns\<lparr>registrants := set_rkey (reg_addr reg) nrkey (registrants ns)\<rparr>;
                    ns2 = (if nvmf_ns_reservation_registrant_is_holder ns1 (Some reg)
                           then ns1\<lparr>crkey := nrkey\<rparr> else ns1)
                in Inr (True, SC_SUCCESS, [], ns2))
         | None \<Rightarrow>
             if iekey then
               (case nvmf_ns_reservation_add_registrant alloc ns ctrlr nrkey of
                  Inl _ \<Rightarrow> Inr (upd, SC_INTERNAL_DEVICE_ERROR, [], ns)
                | Inr ns' \<Rightarrow> Inr (True, SC_SUCCESS, [], ns'))
             else Inr (upd, SC_RESERVATION_CONFLICT, [], ns)))"

definition nvmf_ns_reservation_register ::
  "nvmf_ctrlr list \<Rightarrow> nat option \<Rightarrow> nvmf_ns \<Rightarrow> nvmf_ctrlr \<Rightarrow> register_cmd \<Rightarrow> resv_out res" where
  "nvmf_ns_reservation_register ctrlrs alloc ns ctrlr cmd =
     (case reg_keys cmd of
        None \<Rightarrow> Inr (False, SC_INVALID_FIELD, [], ns)
      | Some (key, nrkey) \<Rightarrow>
          (case resv_register_ptpl ns (cptpl cmd) of
             None \<Rightarrow> Inr (False, SC_INVALID_FIELD, [], ns)
           | Some (upd, ns0) \<Rightarrow>
               if rrega cmd = 0 then resv_register_key alloc upd ns0 ctrlr nrkey
               else if rrega cmd = 1 then
                 resv_unregister_key ctrlrs upd ns0 ctrlr (reg_iekey cmd) key
               else if rrega cmd = 2 then
                 resv_replace_key alloc upd ns0 ctrlr (reg_iekey cmd) key nrkey
               else Inr (upd, SC_INVALID_FIELD, [], ns0)))"

record acquire_cmd =
  racqa :: u8
  acq_iekey :: bool
  acq_rtype :: u8
  acq_keys :: "(u64 \<times> u64) option" \<comment> \<open>crkey, prkey\<close>

text \<open>What the body of a preempt does: status, whether the state changed, whether a reservation
  was released, the namespace.\<close>

definition resv_preempt ::
  "nvmf_ns \<Rightarrow> nvmf_registrant \<Rightarrow> u64 \<Rightarrow> u64 \<Rightarrow> u8 \<Rightarrow> (nvme_sc \<times> bool \<times> bool \<times> nvmf_ns) res" where
  "resv_preempt ns reg key prkey t =
     (if holder ns = None then
        map_sum id (\<lambda>(_, ns'). (SC_SUCCESS, True, False, ns'))
          (nvmf_ns_reservation_remove_registrants_by_key ns prkey)
      else if \<not> nvmf_ns_reservation_all_registrants_type ns then
        (if nvmf_ns_reservation_registrant_is_holder ns (Some reg) \<and> crkey ns = prkey then
           Inr (SC_SUCCESS, True, True, ns\<lparr>rtype := t\<rparr>)
         else if crkey ns = prkey then
           (case nvmf_ns_reservation_remove_other_registrants_by_key ns prkey reg of
              Inl e \<Rightarrow> Inl e
            | Inr ns' \<Rightarrow>
                map_sum id (\<lambda>ns''. (SC_SUCCESS, True, True, ns''))
                  (nvmf_ns_reservation_acquire_reservation ns' key t reg))
         else if prkey \<noteq> 0 then
           map_sum id (\<lambda>(_, ns'). (SC_SUCCESS, True, False, ns'))
             (nvmf_ns_reservation_remove_registrants_by_key ns prkey)
         else Inr (SC_RESERVATION_CONFLICT, False, False, ns))
      else if prkey = 0 then
        (case nvmf_ns_reservation_remove_all_other_registrants ns reg of
           Inl e \<Rightarrow> Inl e
         | Inr (_, ns') \<Rightarrow>
             c_assert (holder ns' = Some (reg_addr reg)) (Inr (SC_SUCCESS, True, False, ns')))
      else
        map_sum id (\<lambda>(count, ns').
            if count = 0 then (SC_RESERVATION_CONFLICT, False, False, ns')
            else (SC_SUCCESS, True, False, ns'))
          (nvmf_ns_reservation_remove_registrants_by_key ns prkey))"

text \<open>The common exit of a preempt that changed the state: the notices, and the list of hosts
  whose commands a preempt-and-abort waits for.\<close>

definition resv_preempt_exit ::
  "nvmf_ctrlr list \<Rightarrow> bool \<Rightarrow> bool \<Rightarrow> uuid list \<Rightarrow> nvmf_ns \<Rightarrow> nvmf_ctrlr \<Rightarrow>
    ((nvmf_ctrlr \<times> log_page_type) list \<times> nvmf_ns) res" where
  "resv_preempt_exit ctrlrs is_abort released hostid_list ns ctrlr =
     (case nvmf_ns_reservation_get_all_other_hostid ns (ctrlr_hostid ctrlr) of
        Inl e \<Rightarrow> Inl e
      | Inr new_list \<Rightarrow>
          (let gone = nvmf_ns_reservation_get_unregistered_hostid hostid_list new_list;
               notices =
                 (if gone \<noteq> [] then
                    nvmf_subsystem_gen_ctrlr_notification ctrlrs ns gone REGISTRATION_PREEMPTED
                  else []) @
                 (if released \<and> new_list \<noteq> [] then
                    nvmf_subsystem_gen_ctrlr_notification ctrlrs ns new_list RESERVATION_RELEASED
                  else [])
           in if is_abort then
                c_assert (length gone \<le> MAX_NUM_REGISTRANTS)
                  (case preempt_abort ns of
                     None \<Rightarrow> Inl Undefined
                   | Some p \<Rightarrow>
                       Inr (notices, ns\<lparr>preempt_abort := Some
                         \<lparr>pa_hostids = gone, pa_io_waiting_done = False,
                          pa_hostids_gen = pa_hostids_gen p + 1, pa_timeout_ticks = 0\<rparr>\<rparr>))
              else Inr (notices, ns)))"

text \<open>\<open>pa_alloc_ok\<close>: whether the allocation of the preempt-and-abort record succeeds.\<close>

definition nvmf_ns_reservation_acquire ::
  "nvmf_ctrlr list \<Rightarrow> bool \<Rightarrow> nvmf_ns \<Rightarrow> nvmf_ctrlr \<Rightarrow> acquire_cmd \<Rightarrow> resv_out res" where
  "nvmf_ns_reservation_acquire ctrlrs pa_alloc_ok ns ctrlr cmd =
     (case acq_keys cmd of
        None \<Rightarrow> Inr (False, SC_INVALID_FIELD, [], ns)
      | Some (key, prkey) \<Rightarrow>
        if acq_iekey cmd \<or> EXCLUSIVE_ACCESS_ALL_REGS < acq_rtype cmd
        then Inr (False, SC_INVALID_FIELD, [], ns)
        else
          (case nvmf_ns_reservation_get_registrant ns (ctrlr_hostid ctrlr) of
             None \<Rightarrow> Inr (False, SC_RESERVATION_CONFLICT, [], ns)
           | Some reg \<Rightarrow>
             if rkey reg \<noteq> key then Inr (False, SC_RESERVATION_CONFLICT, [], ns)
             else if racqa cmd = 0 then
               (if nvmf_ns_reservation_registrant_is_holder ns (Some reg) \<and> rtype ns = acq_rtype cmd
                then Inr (False, SC_SUCCESS, [], ns)
                else if holder ns = None then
                  map_sum id (\<lambda>ns'. (True, SC_SUCCESS, [], ns'))
                    (nvmf_ns_reservation_acquire_reservation ns key (acq_rtype cmd) reg)
                else Inr (False, SC_RESERVATION_CONFLICT, [], ns))
             else if racqa cmd = 1 \<or> racqa cmd = 2 then
               (let is_abort = (racqa cmd = 2) in
                if is_abort \<and> preempt_abort ns = None \<and> \<not> pa_alloc_ok
                then Inr (False, SC_INTERNAL_DEVICE_ERROR, [], ns)
                else
                  (let ns0 = (if is_abort \<and> preempt_abort ns = None
                              then ns\<lparr>preempt_abort := Some \<lparr>pa_hostids = [], pa_io_waiting_done = False,
                                     pa_hostids_gen = 0, pa_timeout_ticks = 0\<rparr>\<rparr>
                              else ns)
                   in case nvmf_ns_reservation_get_all_other_hostid ns0 (ctrlr_hostid ctrlr) of
                        Inl e \<Rightarrow> Inl e
                      | Inr hostid_list \<Rightarrow>
                        (case resv_preempt ns0 reg key prkey (acq_rtype cmd) of
                           Inl e \<Rightarrow> Inl e
                         | Inr (st, upd, released, ns1) \<Rightarrow>
                             if upd then
                               map_sum id (\<lambda>(notices, ns2). (True, st, notices, ns2))
                                 (resv_preempt_exit ctrlrs is_abort released hostid_list ns1 ctrlr)
                             else Inr (False, st, [], ns1))))
             else Inr (False, SC_INVALID_FIELD, [], ns)))"

record release_cmd =
  rrela :: u8
  rel_iekey :: bool
  rel_rtype :: u8
  rel_key :: "u64 option"

definition nvmf_ns_reservation_release ::
  "nvmf_ctrlr list \<Rightarrow> nvmf_ns \<Rightarrow> nvmf_ctrlr \<Rightarrow> release_cmd \<Rightarrow> resv_out res" where
  "nvmf_ns_reservation_release ctrlrs ns ctrlr cmd =
     (case rel_key cmd of
        None \<Rightarrow> Inr (False, SC_INVALID_FIELD, [], ns)
      | Some key \<Rightarrow>
        if rel_iekey cmd then Inr (False, SC_INVALID_FIELD, [], ns)
        else
          (case nvmf_ns_reservation_get_registrant ns (ctrlr_hostid ctrlr) of
             None \<Rightarrow> Inr (False, SC_RESERVATION_CONFLICT, [], ns)
           | Some reg \<Rightarrow>
             if rkey reg \<noteq> key then Inr (False, SC_RESERVATION_CONFLICT, [], ns)
             else
               (case nvmf_ns_reservation_get_all_other_hostid ns (ctrlr_hostid ctrlr) of
                  Inl e \<Rightarrow> Inl e
                | Inr hostid_list \<Rightarrow>
                  if rrela cmd = 0 then
                    (if holder ns = None then Inr (False, SC_SUCCESS, [], ns)
                     else if rtype ns \<noteq> rel_rtype cmd then Inr (False, SC_INVALID_FIELD, [], ns)
                     else if \<not> nvmf_ns_reservation_registrant_is_holder ns (Some reg)
                       then Inr (False, SC_SUCCESS, [], ns)
                     else
                       (let t = rtype ns; ns' = nvmf_ns_reservation_release_reservation ns in
                        Inr (True, SC_SUCCESS,
                             if hostid_list \<noteq> [] \<and> t \<noteq> WRITE_EXCLUSIVE \<and> t \<noteq> EXCLUSIVE_ACCESS
                             then nvmf_subsystem_gen_ctrlr_notification ctrlrs ns' hostid_list
                                    RESERVATION_RELEASED
                             else [], ns')))
                  else if rrela cmd = 1 then
                    map_sum id (\<lambda>(_, ns').
                      (True, SC_SUCCESS,
                       if hostid_list \<noteq> []
                       then nvmf_subsystem_gen_ctrlr_notification ctrlrs ns' hostid_list
                              RESERVATION_PREEMPTED
                       else [], ns'))
                      (nvmf_ns_reservation_clear_all_registrants ns)
                  else Inr (False, SC_INVALID_FIELD, [], ns))))"

section \<open>Report\<close>

record ctrlr_status_data =
  csd_cntlid :: u16
  csd_holder :: bool
  csd_rkey :: u64
  csd_hostid :: uuid

record resv_status_data =
  rsd_gen :: u32
  rsd_rtype :: u8
  rsd_regctl :: u16
  rsd_ptpls :: bool
  rsd_ctrlrs :: "ctrlr_status_data list"

text \<open>The data copied out, before it is cut off at the end of the request's buffers.\<close>

definition nvmf_ns_reservation_report ::
  "nvmf_ns \<Rightarrow> nat \<Rightarrow> bool \<Rightarrow> u32 \<Rightarrow> nvme_sc \<times> resv_status_data option" where
  "nvmf_ns_reservation_report ns iovcnt eds cdw10 =
     (if iovcnt = 0 then (SC_INVALID_FIELD, None)
      else if \<not> eds then (SC_HOSTID_INCONSISTENT_FORMAT, None)
      else
        (let transfer_len = (cdw10 + 1) * 4 in
         if transfer_len < 64 then (SC_INTERNAL_DEVICE_ERROR, None)
         else (SC_SUCCESS, Some
           \<lparr>rsd_gen = gen ns, rsd_rtype = rtype ns, rsd_regctl = of_nat (length (registrants ns)),
            rsd_ptpls = ptpl_activated ns,
            rsd_ctrlrs = map (\<lambda>reg. \<lparr>csd_cntlid = (if cntlid reg \<noteq> 0 then cntlid reg else 0xffff),
                csd_holder = (holder ns = Some (reg_addr reg)), csd_rkey = rkey reg,
                csd_hostid = hostid reg\<rparr>) (registrants ns)\<rparr>)))"

section \<open>Persistence\<close>

text \<open>
  The reservation information kept through a power loss. UUIDs are kept as strings: their
  formatting and parsing are libuuid's and parameters here. \<^verbatim>\<open>spdk_uuid_parse\<close> leaves its
  output alone when the string is not a UUID; \<open>junk\<close> is what the uninitialised variable holds
  then.
\<close>

record resv_info =
  info_crkey :: u64
  info_rtype :: u8
  info_ptpl_activated :: bool
  info_bdev_uuid :: string
  info_holder_uuid :: string
  info_registrants :: "(string \<times> u64) list"

definition nvmf_ns_reservation_ptpl_update :: "(uuid \<Rightarrow> string) \<Rightarrow> nvmf_ns \<Rightarrow> resv_info res" where
  "nvmf_ns_reservation_ptpl_update fmt ns =
     (let all_regs = nvmf_ns_reservation_all_registrants_type ns;
          info = \<lparr>info_crkey = (if rtype ns \<noteq> 0 then crkey ns else 0), info_rtype = rtype ns,
                  info_ptpl_activated = ptpl_activated ns, info_bdev_uuid = fmt (ns_bdev_uuid ns),
                  info_holder_uuid = [],
                  info_registrants = map (\<lambda>r. (fmt (hostid r), rkey r)) (registrants ns)\<rparr>
      in c_assert (length (registrants ns) \<le> MAX_NUM_REGISTRANTS)
           (if rtype ns \<noteq> 0 \<and> \<not> all_regs then
              (case holder ns of
                 None \<Rightarrow> Inl AssertFail
               | Some a \<Rightarrow>
                   (case find (\<lambda>r. reg_addr r = a) (registrants ns) of
                      None \<Rightarrow> Inl Undefined
                    | Some r \<Rightarrow> Inr (info\<lparr>info_holder_uuid := fmt (hostid r)\<rparr>)))
            else Inr info))"

definition parse_or :: "(string \<Rightarrow> uuid option) \<Rightarrow> uuid \<Rightarrow> string \<Rightarrow> uuid" where
  "parse_or parse junk s = (case parse s of None \<Rightarrow> junk | Some u \<Rightarrow> u)"

text \<open>\<open>allocs\<close> are the addresses of the registrants, in order; the list ends where an allocation
  fails.\<close>

fun restore_registrants ::
  "(string \<Rightarrow> uuid option) \<Rightarrow> uuid \<Rightarrow> nat list \<Rightarrow> (string \<times> u64) list \<Rightarrow> nat option \<Rightarrow>
    nvmf_ns \<Rightarrow> errno option \<times> nat option \<times> nvmf_ns" where
  "restore_registrants parse holder_uuid allocs [] h ns = (None, h, ns)"
| "restore_registrants parse holder_uuid [] (r # rs) h ns = (Some ENOMEM, h, ns)"
| "restore_registrants parse holder_uuid (a # allocs) ((s, k) # rs) h ns =
     (let reg = \<lparr>reg_addr = a, hostid = parse_or parse 0 s, rkey = k, cntlid = 0\<rparr>;
          h' = (if crkey ns \<noteq> 0 \<and> holder_uuid = hostid reg then Some a else h)
      in restore_registrants parse holder_uuid allocs rs h'
           (ns\<lparr>registrants := registrants ns @ [reg]\<rparr>))"

definition nvmf_ns_reservation_restore ::
  "(string \<Rightarrow> uuid option) \<Rightarrow> uuid \<Rightarrow> nat list \<Rightarrow> nvmf_ns \<Rightarrow> resv_info \<Rightarrow> errno option \<times> nvmf_ns" where
  "nvmf_ns_reservation_restore parse junk allocs ns info =
     (if \<not> info_ptpl_activated info \<or> info_registrants info = [] then (None, ns)
      else if info_crkey info \<notin> snd ` set (info_registrants info) \<and> info_crkey info \<noteq> 0
        then (Some EINVAL, ns)
      else if parse_or parse junk (info_bdev_uuid info) \<noteq> ns_bdev_uuid ns then (Some EINVAL, ns)
      else
        (let ns1 = ns\<lparr>crkey := info_crkey info, rtype := info_rtype info,
                      ptpl_activated := info_ptpl_activated info\<rparr>
         in case restore_registrants parse (parse_or parse junk (info_holder_uuid info)) allocs
                   (info_registrants info) None ns1 of
              (Some e, _, ns2) \<Rightarrow> (Some e, ns2)
            | (None, h, ns2) \<Rightarrow>
                (None, ns2\<lparr>holder :=
                   (if nvmf_ns_reservation_all_registrants_type ns2
                    then (case registrants ns2 of [] \<Rightarrow> None | r # _ \<Rightarrow> Some (reg_addr r))
                    else h)\<rparr>)))"

section \<open>Enforcement\<close>

text \<open>The copy of the reservation each poll group keeps; unused entries of the host list are
  zero.\<close>

record pg_ns_info =
  pg_crkey :: u64
  pg_rtype :: u8
  pg_holder_id :: uuid
  pg_reg_hostid :: "uuid list"

definition nvmf_subsystem_poll_group_update_ns_reservation :: "nvmf_ns \<Rightarrow> pg_ns_info res" where
  "nvmf_subsystem_poll_group_update_ns_reservation ns =
     c_assert (length (registrants ns) \<le> MAX_NUM_REGISTRANTS)
       (case (case holder ns of
                None \<Rightarrow> Some 0
              | Some a \<Rightarrow> map_option hostid (find (\<lambda>r. reg_addr r = a) (registrants ns))) of
          None \<Rightarrow> Inl Undefined
        | Some h \<Rightarrow>
            Inr \<lparr>pg_crkey = crkey ns, pg_rtype = rtype ns, pg_holder_id = h,
                 pg_reg_hostid = map hostid (registrants ns) @
                   replicate (MAX_NUM_REGISTRANTS - length (registrants ns)) 0\<rparr>)"

definition nvmf_ns_info_ctrlr_is_registrant :: "pg_ns_info \<Rightarrow> nvmf_ctrlr \<Rightarrow> bool" where
  "nvmf_ns_info_ctrlr_is_registrant ns_info ctrlr =
     list_ex (\<lambda>h. h = ctrlr_hostid ctrlr) (take MAX_NUM_REGISTRANTS (pg_reg_hostid ns_info))"

datatype nvm_opc =
    OPC_READ | OPC_COMPARE | OPC_FLUSH | OPC_WRITE | OPC_WRITE_UNCORRECTABLE | OPC_WRITE_ZEROES
  | OPC_DATASET_MANAGEMENT | OPC_RESERVATION_ACQUIRE | OPC_RESERVATION_RELEASE | OPC_OTHER

definition nvmf_ns_reservation_request_check ::
  "pg_ns_info \<Rightarrow> nvmf_ctrlr \<Rightarrow> nvm_opc \<Rightarrow> u8 \<Rightarrow> errno option" where
  "nvmf_ns_reservation_request_check ns_info ctrlr opc cmd_racqa =
     (let t = pg_rtype ns_info;
          is_registrant = nvmf_ns_info_ctrlr_is_registrant ns_info ctrlr;
          conflict = Some EPERM
      in if t = 0 then None
         else if all_regs_rtype t \<and> is_registrant then None
         else if pg_holder_id ns_info = ctrlr_hostid ctrlr then None
         else if opc \<in> {OPC_READ, OPC_COMPARE} then
           (if t = EXCLUSIVE_ACCESS then conflict
            else if (t = EXCLUSIVE_ACCESS_REG_ONLY \<or> t = EXCLUSIVE_ACCESS_ALL_REGS) \<and> \<not> is_registrant
              then conflict
            else None)
         else if opc \<in> {OPC_FLUSH, OPC_WRITE, OPC_WRITE_UNCORRECTABLE, OPC_WRITE_ZEROES,
                        OPC_DATASET_MANAGEMENT} then
           (if t = WRITE_EXCLUSIVE \<or> t = EXCLUSIVE_ACCESS then conflict
            else if \<not> is_registrant then conflict
            else None)
         else if opc = OPC_RESERVATION_ACQUIRE then
           (if cmd_racqa = 0 then conflict else if \<not> is_registrant then conflict else None)
         else if opc = OPC_RESERVATION_RELEASE then
           (if \<not> is_registrant then conflict else None)
         else None)"

end
