(* ===== verification/Nvmf_Resv_Inv.thy ===== *)
theory Nvmf_Resv_Inv
  imports Nvmf_Resv
begin

text \<open>
  The invariant of a namespace's reservation state and its preservation by every reservation
  command: no command fails an assertion from a state that satisfies it.
\<close>

section \<open>Invariant\<close>

definition resv_inv :: "nvmf_ns \<Rightarrow> bool" where
  "resv_inv ns \<longleftrightarrow> distinct (map reg_addr (registrants ns)) \<and>
     distinct (map hostid (registrants ns)) \<and>
     length (registrants ns) \<le> MAX_NUM_REGISTRANTS \<and>
     (\<forall>r \<in> set (registrants ns). rkey r \<noteq> 0) \<and>
     (holder ns = None \<longrightarrow> rtype ns = 0 \<and> crkey ns = 0) \<and>
     (\<forall>a. holder ns = Some a \<longrightarrow> (\<exists>r \<in> set (registrants ns). reg_addr r = a \<and>
        (\<not> all_regs_rtype (rtype ns) \<longrightarrow> crkey ns = rkey r))) \<and>
     rtype ns \<le> 6"

lemma resv_invD:
  assumes "resv_inv ns"
  shows "distinct (map reg_addr (registrants ns))" and "distinct (map hostid (registrants ns))"
    and "length (registrants ns) \<le> MAX_NUM_REGISTRANTS"
    and "\<And>r. r \<in> set (registrants ns) \<Longrightarrow> rkey r \<noteq> 0"
    and "holder ns = None \<Longrightarrow> rtype ns = 0" and "holder ns = None \<Longrightarrow> crkey ns = 0"
    and "rtype ns \<le> 6"
  using assms by (auto simp: resv_inv_def)

lemma resv_inv_holder:
  assumes "resv_inv ns" and "holder ns = Some a"
  obtains r where "r \<in> set (registrants ns)" "reg_addr r = a"
    "\<not> all_regs_rtype (rtype ns) \<longrightarrow> crkey ns = rkey r"
  using assms by (auto simp: resv_inv_def)

lemma reg_addr_inj:
  "resv_inv ns \<Longrightarrow> r \<in> set (registrants ns) \<Longrightarrow> r' \<in> set (registrants ns) \<Longrightarrow>
    reg_addr r = reg_addr r' \<longleftrightarrow> r = r'"
  using resv_invD(1) [of ns] by (auto simp: distinct_map dest: inj_onD)

lemma get_registrant_Some:
  assumes "nvmf_ns_reservation_get_registrant ns h = Some r"
  shows "r \<in> set (registrants ns)" and "hostid r = h"
  using assms by (auto simp: nvmf_ns_reservation_get_registrant_def find_Some_iff)

lemma get_registrant_None:
  "nvmf_ns_reservation_get_registrant ns h = None \<longleftrightarrow> (\<forall>r \<in> set (registrants ns). hostid r \<noteq> h)"
  by (auto simp: nvmf_ns_reservation_get_registrant_def find_None_iff)

lemma get_registrant_iff:
  assumes "resv_inv ns"
  shows "nvmf_ns_reservation_get_registrant ns h = Some r \<longleftrightarrow> r \<in> set (registrants ns) \<and> hostid r = h"
proof
  assume r: "r \<in> set (registrants ns) \<and> hostid r = h"
  then obtain r' where r': "nvmf_ns_reservation_get_registrant ns h = Some r'"
    using get_registrant_None by fastforce
  have "r' = r" using r get_registrant_Some [OF r'] resv_invD(2) [OF assms]
    by (auto simp: distinct_map dest: inj_onD)
  with r' show "nvmf_ns_reservation_get_registrant ns h = Some r" by simp
qed (use get_registrant_Some in blast)

lemma all_other_hostid_eq:
  assumes "resv_inv ns"
  shows "nvmf_ns_reservation_get_all_other_hostid ns h =
    Inr (map hostid (filter (\<lambda>r. hostid r \<noteq> h) (registrants ns)))"
  using order_trans [OF length_filter_le resv_invD(3) [OF assms]]
  by (simp add: nvmf_ns_reservation_get_all_other_hostid_def c_assert_def Let_def)

lemma resv_inv_frame:
  "resv_inv (ns\<lparr>gen := g\<rparr>) = resv_inv ns" "resv_inv (ns\<lparr>ptpl_activated := b\<rparr>) = resv_inv ns"
  "resv_inv (ns\<lparr>preempt_abort := p\<rparr>) = resv_inv ns"
  by (simp_all add: resv_inv_def)

section \<open>Adding a registrant\<close>

lemma add_registrant_inv:
  assumes inv: "resv_inv ns" and new: "nvmf_ns_reservation_get_registrant ns (ctrlr_hostid ctrlr) = None"
    and fresh: "alloc \<notin> Some ` reg_addr ` set (registrants ns)" and key: "nrkey \<noteq> 0"
    and add: "nvmf_ns_reservation_add_registrant alloc ns ctrlr nrkey = Inr ns'"
  shows "resv_inv ns'"
proof -
  obtain a where a: "alloc = Some a" "length (registrants ns) < MAX_NUM_REGISTRANTS"
    "ns' = ns\<lparr>registrants := registrants ns @ [\<lparr>reg_addr = a, hostid = ctrlr_hostid ctrlr, rkey = nrkey,
       cntlid = ctrlr_cntlid ctrlr\<rparr>], gen := gen ns + 1\<rparr>"
    using add by (auto simp: nvmf_ns_reservation_add_registrant_def nvmf_ns_registrants_get_count_def
        split: if_splits option.splits)
  have "a \<notin> reg_addr ` set (registrants ns)" using fresh a(1) by auto
  moreover have "ctrlr_hostid ctrlr \<notin> hostid ` set (registrants ns)"
    using new by (auto simp: get_registrant_None)
  ultimately show ?thesis using inv a(2) key unfolding a(3)
    by (auto simp: resv_inv_def split: option.splits)
qed

section \<open>Removing registrants\<close>

text \<open>The effect of removals on the reservation: the remaining registrants, and who holds it.
  An all-registrants reservation passes to the first registrant left and ends with the last one;
  any other ends with its holder.\<close>

definition removed_by :: "(nvmf_registrant \<Rightarrow> bool) \<Rightarrow> nvmf_ns \<Rightarrow> nvmf_ns \<Rightarrow> bool" where
  "removed_by P ns ns' \<longleftrightarrow> registrants ns' = filter (\<lambda>r. \<not> P r) (registrants ns) \<and>
     preempt_abort ns' = preempt_abort ns \<and> ns_mask ns' = ns_mask ns \<and>
     ptpl_activated ns' = ptpl_activated ns \<and> ptpl_capable ns' = ptpl_capable ns \<and>
     ns_bdev_uuid ns' = ns_bdev_uuid ns \<and>
     (if holder ns = None \<or> \<not> (\<exists>r \<in> set (registrants ns). P r) then
        holder ns' = holder ns \<and> rtype ns' = rtype ns \<and> crkey ns' = crkey ns
      else if all_regs_rtype (rtype ns) then
        (if registrants ns' = [] then holder ns' = None \<and> rtype ns' = 0 \<and> crkey ns' = 0
         else holder ns' = Some (reg_addr (hd (registrants ns'))) \<and> rtype ns' = rtype ns \<and>
           crkey ns' = crkey ns)
      else if \<exists>r \<in> set (registrants ns). P r \<and> holder ns = Some (reg_addr r) then
        holder ns' = None \<and> rtype ns' = 0 \<and> crkey ns' = 0
      else holder ns' = holder ns \<and> rtype ns' = rtype ns \<and> crkey ns' = crkey ns)"

lemma all_regs_rtype_0 [simp]: "\<not> all_regs_rtype 0"
  by (simp add: all_regs_rtype_def)

lemma removed_by_inv:
  assumes inv: "resv_inv ns" and rem: "removed_by P ns ns'"
  shows "resv_inv ns'"
proof -
  let ?rs = "registrants ns"
  have regs: "registrants ns' = filter (\<lambda>r. \<not> P r) ?rs" using rem by (simp add: removed_by_def)
  have "distinct (map reg_addr (registrants ns'))" "distinct (map hostid (registrants ns'))"
    "length (registrants ns') \<le> MAX_NUM_REGISTRANTS" "\<forall>r \<in> set (registrants ns'). rkey r \<noteq> 0"
    using resv_invD(1-4) [OF inv] order_trans [OF length_filter_le resv_invD(3) [OF inv]]
    by (auto simp: regs distinct_map_filter)
  moreover have "rtype ns' \<le> 6"
    using rem resv_invD(7) [OF inv] by (auto simp: removed_by_def split: if_splits)
  moreover have "(holder ns' = None \<longrightarrow> rtype ns' = 0 \<and> crkey ns' = 0) \<and>
      (\<forall>a. holder ns' = Some a \<longrightarrow> (\<exists>r \<in> set (registrants ns'). reg_addr r = a \<and>
        (\<not> all_regs_rtype (rtype ns') \<longrightarrow> crkey ns' = rkey r)))"
  proof (cases "holder ns")
    case None
    then show ?thesis using rem resv_invD(5,6) [OF inv] by (simp add: removed_by_def)
  next
    case (Some a)
    then obtain h where h: "h \<in> set ?rs" "reg_addr h = a"
      "\<not> all_regs_rtype (rtype ns) \<longrightarrow> crkey ns = rkey h" by (rule resv_inv_holder [OF inv])
    have "P h \<longleftrightarrow> (\<exists>r \<in> set ?rs. P r \<and> holder ns = Some (reg_addr r))"
      using h reg_addr_inj [OF inv] Some by auto
    then have ph: "(\<exists>r \<in> set ?rs. P r \<and> holder ns = Some (reg_addr r)) \<longleftrightarrow> P h" by blast
    have hd: "registrants ns' \<noteq> [] \<Longrightarrow> hd (registrants ns') \<in> set (registrants ns')" by simp
    show ?thesis
    proof (cases "all_regs_rtype (rtype ns)")
      case True
      with rem h Some hd show ?thesis
        by (cases "\<exists>r \<in> set ?rs. P r"; cases "registrants ns' = []")
          (auto simp: removed_by_def regs)
    next
      case False
      with rem h Some ph show ?thesis
        by (cases "P h"; cases "\<exists>r \<in> set ?rs. P r") (auto simp: removed_by_def regs)
    qed
  qed
  ultimately show ?thesis by (simp add: resv_inv_def)
qed

lemma remove_registrant_step:
  assumes inv: "resv_inv ns" and r: "r \<in> set (registrants ns)"
  shows "\<exists>ns'. nvmf_ns_reservation_remove_registrant ns r = Inr ns' \<and> removed_by (\<lambda>x. x = r) ns ns'"
proof -
  let ?regs = "filter (\<lambda>x. reg_addr x \<noteq> reg_addr r) (registrants ns)"
  have regs: "?regs = filter (\<lambda>x. x \<noteq> r) (registrants ns)"
    using reg_addr_inj [OF inv _ r] by (auto intro: filter_cong)
  have hold: "(\<exists>x \<in> set (registrants ns). x = r \<and> holder ns = Some (reg_addr x)) \<longleftrightarrow>
      holder ns = Some (reg_addr r)" using r by auto
  have ex: "\<exists>x \<in> set (registrants ns). x = r" using r by blast
  note defs = nvmf_ns_reservation_remove_registrant_def
    nvmf_ns_reservation_check_release_on_remove_registrant_def
    nvmf_ns_reservation_all_registrants_type_def nvmf_ns_reservation_registrant_is_holder_def
    nvmf_ns_reservation_release_reservation_def c_assert_def removed_by_def
  show ?thesis
  proof (cases "holder ns")
    case None
    then show ?thesis using resv_invD(5) [OF inv] regs by (simp add: defs)
  next
    case (Some a)
    show ?thesis
    proof (cases "all_regs_rtype (rtype ns)")
      case True
      then show ?thesis using Some ex regs by (cases "?regs = []") (simp_all add: defs)
    next
      case False
      then show ?thesis using Some ex hold regs
        by (cases "holder ns = Some (reg_addr r)") (simp_all add: defs)
    qed
  qed
qed

text \<open>Removals compose.\<close>

lemma removed_by_none:
  assumes "removed_by P ns ns'" and "holder ns = None \<or> \<not> (\<exists>r \<in> set (registrants ns). P r)"
  shows "holder ns' = holder ns \<and> rtype ns' = rtype ns \<and> crkey ns' = crkey ns"
  using assms by (simp add: removed_by_def)

lemma removed_by_all_regs:
  assumes "removed_by P ns ns'" and "holder ns \<noteq> None" "all_regs_rtype (rtype ns)"
    and "\<exists>r \<in> set (registrants ns). P r"
  shows "if registrants ns' = [] then holder ns' = None \<and> rtype ns' = 0 \<and> crkey ns' = 0
    else holder ns' = Some (reg_addr (hd (registrants ns'))) \<and> rtype ns' = rtype ns \<and> crkey ns' = crkey ns"
  using assms by (simp add: removed_by_def)

lemma removed_by_single:
  assumes "removed_by P ns ns'" and "holder ns \<noteq> None" "\<not> all_regs_rtype (rtype ns)"
  shows "if \<exists>r \<in> set (registrants ns). P r \<and> holder ns = Some (reg_addr r)
    then holder ns' = None \<and> rtype ns' = 0 \<and> crkey ns' = 0
    else holder ns' = holder ns \<and> rtype ns' = rtype ns \<and> crkey ns' = crkey ns"
  using assms by (auto simp: removed_by_def split: if_splits)

lemma removed_by_regs: "removed_by P ns ns' \<Longrightarrow> registrants ns' = filter (\<lambda>r. \<not> P r) (registrants ns)"
  by (simp add: removed_by_def)

lemma removed_by_id: "(\<And>r. r \<in> set (registrants ns) \<Longrightarrow> \<not> P r) \<Longrightarrow> removed_by P ns ns"
  by (auto simp: removed_by_def filter_id_conv)

lemma removed_by_cong:
  assumes "removed_by P ns ns'" and "\<And>r. r \<in> set (registrants ns) \<Longrightarrow> P r = Q r"
  shows "removed_by Q ns ns'"
proof -
  have "filter (\<lambda>r. \<not> P r) (registrants ns) = filter (\<lambda>r. \<not> Q r) (registrants ns)"
    using assms(2) by (auto intro: filter_cong)
  moreover have "(\<exists>r \<in> set (registrants ns). P r) = (\<exists>r \<in> set (registrants ns). Q r)"
    "(\<exists>r \<in> set (registrants ns). P r \<and> holder ns = Some (reg_addr r)) =
     (\<exists>r \<in> set (registrants ns). Q r \<and> holder ns = Some (reg_addr r))"
    using assms(2) by auto
  ultimately show ?thesis using assms(1) unfolding removed_by_def by argo
qed

abbreviation same_resv :: "nvmf_ns \<Rightarrow> nvmf_ns \<Rightarrow> bool" where
  "same_resv ns ns' \<equiv> holder ns' = holder ns \<and> rtype ns' = rtype ns \<and> crkey ns' = crkey ns"

abbreviation no_resv :: "nvmf_ns \<Rightarrow> bool" where
  "no_resv ns \<equiv> holder ns = None \<and> rtype ns = 0 \<and> crkey ns = 0"

lemma removed_byI:
  assumes "registrants ns' = filter (\<lambda>r. \<not> P r) (registrants ns)"
    and "preempt_abort ns' = preempt_abort ns \<and> ns_mask ns' = ns_mask ns \<and>
      ptpl_activated ns' = ptpl_activated ns \<and> ptpl_capable ns' = ptpl_capable ns \<and>
      ns_bdev_uuid ns' = ns_bdev_uuid ns"
    and "holder ns = None \<or> \<not> (\<exists>r \<in> set (registrants ns). P r) \<Longrightarrow> same_resv ns ns'"
    and "holder ns \<noteq> None \<Longrightarrow> all_regs_rtype (rtype ns) \<Longrightarrow> \<exists>r \<in> set (registrants ns). P r \<Longrightarrow>
      if registrants ns' = [] then no_resv ns'
      else holder ns' = Some (reg_addr (hd (registrants ns'))) \<and> rtype ns' = rtype ns \<and> crkey ns' = crkey ns"
    and "holder ns \<noteq> None \<Longrightarrow> \<not> all_regs_rtype (rtype ns) \<Longrightarrow>
      if \<exists>r \<in> set (registrants ns). P r \<and> holder ns = Some (reg_addr r) then no_resv ns' else same_resv ns ns'"
  shows "removed_by P ns ns'"
proof -
  consider "holder ns = None \<or> \<not> (\<exists>r \<in> set (registrants ns). P r)"
    | "holder ns \<noteq> None" "\<exists>r \<in> set (registrants ns). P r" "all_regs_rtype (rtype ns)"
    | "holder ns \<noteq> None" "\<exists>r \<in> set (registrants ns). P r" "\<not> all_regs_rtype (rtype ns)" by blast
  then show ?thesis using assms unfolding removed_by_def by cases (simp_all only: if_True if_False simp_thms True_implies_equals)
qed

lemma removed_by_trans:
  assumes r1: "removed_by P ns ns1" and r2: "removed_by Q ns1 ns2"
  shows "removed_by (\<lambda>r. P r \<or> Q r) ns ns2"
proof (rule removed_byI)
  have regs1: "registrants ns1 = filter (\<lambda>r. \<not> P r) (registrants ns)" by (rule removed_by_regs [OF r1])
  show "registrants ns2 = filter (\<lambda>r. \<not> (P r \<or> Q r)) (registrants ns)"
    unfolding removed_by_regs [OF r2] regs1 filter_filter by (simp add: conj_commute)
  show "preempt_abort ns2 = preempt_abort ns \<and> ns_mask ns2 = ns_mask ns \<and>
      ptpl_activated ns2 = ptpl_activated ns \<and> ptpl_capable ns2 = ptpl_capable ns \<and>
      ns_bdev_uuid ns2 = ns_bdev_uuid ns"
    using r1 r2 unfolding removed_by_def by presburger
  show "same_resv ns ns2" if "holder ns = None \<or> \<not> (\<exists>r \<in> set (registrants ns). P r \<or> Q r)"
  proof -
    have s1: "same_resv ns ns1" using that by (intro removed_by_none [OF r1]) blast
    have "holder ns1 = None \<or> \<not> (\<exists>r \<in> set (registrants ns1). Q r)"
      using that s1 unfolding regs1 by auto
    with removed_by_none [OF r2] s1 show ?thesis by simp
  qed
  show "if registrants ns2 = [] then no_resv ns2
      else holder ns2 = Some (reg_addr (hd (registrants ns2))) \<and> rtype ns2 = rtype ns \<and> crkey ns2 = crkey ns"
    if h: "holder ns \<noteq> None" and all: "all_regs_rtype (rtype ns)"
      and ex: "\<exists>r \<in> set (registrants ns). P r \<or> Q r"
  proof (cases "\<exists>r \<in> set (registrants ns). P r")
    case False
    then have s1: "same_resv ns ns1" by (intro removed_by_none [OF r1]) blast
    have "\<exists>r \<in> set (registrants ns1). Q r" using False ex by (auto simp: regs1)
    from removed_by_all_regs [OF r2 _ _ this] s1 h all show ?thesis by simp
  next
    case True
    note a1 = removed_by_all_regs [OF r1 h all True]
    show ?thesis
    proof (cases "\<exists>r \<in> set (registrants ns1). Q r")
      case q: True
      then have "registrants ns1 \<noteq> []" by auto
      with a1 have "holder ns1 \<noteq> None" "rtype ns1 = rtype ns" "crkey ns1 = crkey ns" by simp_all
      with removed_by_all_regs [OF r2 _ _ q] all show ?thesis by simp
    next
      case False
      then have "registrants ns2 = registrants ns1"
        unfolding removed_by_regs [OF r2] by (simp add: filter_id_conv)
      moreover have "same_resv ns1 ns2" using False by (intro removed_by_none [OF r2]) blast
      ultimately show ?thesis using a1 by (auto split: if_splits)
    qed
  qed
  show "if \<exists>r \<in> set (registrants ns). (P r \<or> Q r) \<and> holder ns = Some (reg_addr r)
      then no_resv ns2 else same_resv ns ns2"
    if h: "holder ns \<noteq> None" and single: "\<not> all_regs_rtype (rtype ns)"
  proof (cases "\<exists>r \<in> set (registrants ns). P r \<and> holder ns = Some (reg_addr r)")
    case True
    then have "no_resv ns1" using removed_by_single [OF r1 h single] by simp
    with removed_by_none [OF r2] have "no_resv ns2" by simp
    with True show ?thesis by auto
  next
    case False
    then have s1: "same_resv ns ns1" using removed_by_single [OF r1 h single] by simp
    have "(\<exists>r \<in> set (registrants ns1). Q r \<and> holder ns = Some (reg_addr r)) \<longleftrightarrow>
        (\<exists>r \<in> set (registrants ns). (P r \<or> Q r) \<and> holder ns = Some (reg_addr r))"
      using False by (auto simp: regs1)
    with removed_by_single [OF r2] s1 h single show ?thesis by simp
  qed
qed

lemma remove_loop_eq:
  assumes "resv_inv ns" and "set rs \<subseteq> set (registrants ns)" and "distinct rs"
  shows "\<exists>ns'. remove_registrants_loop P rs c ns = Inr (c + length (filter P rs), ns') \<and>
    removed_by (\<lambda>r. r \<in> set rs \<and> P r) ns ns'"
  using assms
proof (induction rs arbitrary: ns c)
  case Nil
  then show ?case by (auto intro: removed_by_id)
next
  case (Cons r rs)
  show ?case
  proof (cases "P r")
    case False
    with Cons.IH [of ns c] Cons.prems obtain ns' where
      "remove_registrants_loop P rs c ns = Inr (c + length (filter P rs), ns')"
      "removed_by (\<lambda>x. x \<in> set rs \<and> P x) ns ns'" by auto
    moreover from this(2) have "removed_by (\<lambda>x. x \<in> set (r # rs) \<and> P x) ns ns'"
      by (rule removed_by_cong) (use False in auto)
    ultimately show ?thesis using False by auto
  next
    case True
    obtain ns1 where ns1: "nvmf_ns_reservation_remove_registrant ns r = Inr ns1" "removed_by (\<lambda>x. x = r) ns ns1"
      using remove_registrant_step [OF Cons.prems(1)] Cons.prems(2) by auto
    have "set rs \<subseteq> set (registrants ns1)"
      using removed_by_regs [OF ns1(2)] Cons.prems(2,3) by auto
    then obtain ns' where ns':
      "remove_registrants_loop P rs (c + 1) ns1 = Inr (c + 1 + length (filter P rs), ns')"
      "removed_by (\<lambda>x. x \<in> set rs \<and> P x) ns1 ns'"
      using Cons.IH [OF removed_by_inv [OF Cons.prems(1) ns1(2)], of "c + 1"] Cons.prems(3) by auto
    have "removed_by (\<lambda>x. x \<in> set (r # rs) \<and> P x) ns ns'"
      by (rule removed_by_cong [OF removed_by_trans [OF ns1(2) ns'(2)]]) (use True in auto)
    with True ns1(1) ns'(1) show ?thesis by auto
  qed
qed

lemma remove_loop_all:
  assumes "resv_inv ns"
  obtains ns' where "remove_registrants_loop P (registrants ns) 0 ns =
      Inr (length (filter P (registrants ns)), ns')"
    and "removed_by P ns ns'" and "resv_inv ns'"
proof -
  have "distinct (registrants ns)" using resv_invD(1) [OF assms] by (simp add: distinct_map)
  from remove_loop_eq [OF assms subset_refl this, of P 0] obtain ns' where
    "remove_registrants_loop P (registrants ns) 0 ns = Inr (length (filter P (registrants ns)), ns')"
    and r: "removed_by (\<lambda>r. r \<in> set (registrants ns) \<and> P r) ns ns'" by auto
  moreover from r have "removed_by P ns ns'" by (rule removed_by_cong) auto
  ultimately show ?thesis using that removed_by_inv [OF assms] by blast
qed

section \<open>Commands\<close>

text \<open>A command that returns, with the invariant intact.\<close>

definition resv_ok :: "resv_out res \<Rightarrow> bool" where
  "resv_ok r \<longleftrightarrow> (\<exists>upd st notices ns'. r = Inr (upd, st, notices, ns') \<and> resv_inv ns')"

lemma resv_ok_Inr [simp]: "resv_ok (Inr (upd, st, notices, ns)) = resv_inv ns"
  by (simp add: resv_ok_def)

lemma register_ptpl_inv:
  assumes "resv_register_ptpl ns c = Some (upd, ns0)"
  shows "resv_inv ns0 = resv_inv ns" and "registrants ns0 = registrants ns"
  using assms by (auto simp: resv_register_ptpl_def resv_inv_frame split: if_splits)

lemma register_key_ok:
  assumes "resv_inv ns" and "alloc \<notin> Some ` reg_addr ` set (registrants ns)"
  shows "resv_ok (resv_register_key alloc upd ns ctrlr nrkey)"
  using assms add_registrant_inv [OF assms(1) _ assms(2)]
  by (auto simp: resv_register_key_def split: option.splits sum.splits)

lemma unregister_key_ok:
  assumes inv: "resv_inv ns"
  shows "resv_ok (resv_unregister_key ctrlrs upd ns ctrlr iekey key)"
proof (cases "nvmf_ns_reservation_get_registrant ns (ctrlr_hostid ctrlr)")
  case None
  with inv show ?thesis by (simp add: resv_unregister_key_def)
next
  case (Some reg)
  from remove_registrant_step [OF inv get_registrant_Some(1) [OF Some]] obtain ns' where
    "nvmf_ns_reservation_remove_registrant ns reg = Inr ns'" "removed_by (\<lambda>x. x = reg) ns ns'" by blast
  with Some inv removed_by_inv [OF inv] show ?thesis
    by (simp add: resv_unregister_key_def all_other_hostid_eq [OF inv] Let_def)
qed

lemma set_rkey_simps [simp]:
  "map reg_addr (set_rkey a key rs) = map reg_addr rs" "map hostid (set_rkey a key rs) = map hostid rs"
  "length (set_rkey a key rs) = length rs"
  by (simp_all add: set_rkey_def comp_def if_distrib cong: if_cong)

lemma set_rkey_mem:
  "r' \<in> set (set_rkey a key rs) \<longleftrightarrow> (\<exists>r \<in> set rs. r' = (if reg_addr r = a then r\<lparr>rkey := key\<rparr> else r))"
  by (simp only: set_rkey_def set_map image_iff)

lemma set_rkey_inv:
  assumes inv: "resv_inv ns" and r: "r \<in> set (registrants ns)" and key: "nrkey \<noteq> 0"
  defines "ns1 \<equiv> ns\<lparr>registrants := set_rkey (reg_addr r) nrkey (registrants ns)\<rparr>"
  shows "resv_inv (if nvmf_ns_reservation_registrant_is_holder ns1 (Some r)
    then ns1\<lparr>crkey := nrkey\<rparr> else ns1)"
proof -
  let ?is = "all_regs_rtype (rtype ns) \<or> holder ns = Some (reg_addr r)"
  have is_h: "nvmf_ns_reservation_registrant_is_holder ns1 (Some r) = ?is"
    by (simp add: ns1_def nvmf_ns_reservation_registrant_is_holder_def
        nvmf_ns_reservation_all_registrants_type_def)
  have hold: "\<exists>x \<in> set (set_rkey (reg_addr r) nrkey (registrants ns)). reg_addr x = a \<and>
      (\<not> all_regs_rtype (rtype ns) \<longrightarrow> (if ?is then nrkey else crkey ns) = rkey x)"
    if a: "holder ns = Some a" for a
  proof -
    obtain h where h: "h \<in> set (registrants ns)" "reg_addr h = a"
      "\<not> all_regs_rtype (rtype ns) \<longrightarrow> crkey ns = rkey h" by (rule resv_inv_holder [OF inv a])
    let ?h = "if reg_addr h = reg_addr r then h\<lparr>rkey := nrkey\<rparr> else h"
    have "?h \<in> set (set_rkey (reg_addr r) nrkey (registrants ns))" using h(1) set_rkey_mem by blast
    moreover have "reg_addr ?h = a" using h(2) by simp
    moreover have "\<not> all_regs_rtype (rtype ns) \<longrightarrow> (if ?is then nrkey else crkey ns) = rkey ?h"
      using h a by auto
    ultimately show ?thesis by blast
  qed
  have none: "\<not> ?is" if "holder ns = None" using that resv_invD(5) [OF inv] by simp
  have keys: "\<forall>x \<in> set (set_rkey (reg_addr r) nrkey (registrants ns)). rkey x \<noteq> 0"
    using resv_invD(4) [OF inv] key by (auto simp: set_rkey_mem split: if_splits)
  show ?thesis
  proof (cases ?is)
    case True
    with is_h hold keys none resv_invD(1,2,3,5,6,7) [OF inv] show ?thesis
      by (auto simp: resv_inv_def ns1_def)
  next
    case False
    with is_h hold keys none resv_invD(1,2,3,5,6,7) [OF inv] show ?thesis
      by (auto simp: resv_inv_def ns1_def)
  qed
qed

lemma replace_key_ok:
  assumes inv: "resv_inv ns" and fresh: "alloc \<notin> Some ` reg_addr ` set (registrants ns)"
  shows "resv_ok (resv_replace_key alloc upd ns ctrlr iekey key nrkey)"
proof (cases "nvmf_ns_reservation_get_registrant ns (ctrlr_hostid ctrlr)")
  case None
  with inv fresh add_registrant_inv [OF inv None fresh] show ?thesis
    by (auto simp: resv_replace_key_def split: sum.splits)
next
  case (Some reg)
  with inv set_rkey_inv [OF inv get_registrant_Some(1) [OF Some]] show ?thesis
    by (simp add: resv_replace_key_def Let_def)
qed

lemma register_ok [step_inv]:
  assumes inv: "resv_inv ns" and fresh: "alloc \<notin> Some ` reg_addr ` set (registrants ns)"
  shows "resv_ok (nvmf_ns_reservation_register ctrlrs alloc ns ctrlr cmd)"
proof (cases "reg_keys cmd")
  case None
  with inv show ?thesis by (simp add: nvmf_ns_reservation_register_def)
next
  case (Some keys)
  obtain key nrkey where keys: "keys = (key, nrkey)" by fastforce
  show ?thesis
  proof (cases "resv_register_ptpl ns (cptpl cmd)")
    case None
    with Some keys inv show ?thesis by (simp add: nvmf_ns_reservation_register_def)
  next
    case ptpl: (Some p)
    obtain upd ns0 where p: "p = (upd, ns0)" by fastforce
    have inv0: "resv_inv ns0" and fresh0: "alloc \<notin> Some ` reg_addr ` set (registrants ns0)"
      using register_ptpl_inv [OF ptpl [unfolded p]] inv fresh by simp_all
    show ?thesis
      using Some keys ptpl p inv0 register_key_ok [OF inv0 fresh0] unregister_key_ok [OF inv0]
        replace_key_ok [OF inv0 fresh0]
      by (simp add: nvmf_ns_reservation_register_def)
  qed
qed

lemma remove_others_holder:
  assumes inv: "resv_inv ns" and reg: "reg \<in> set (registrants ns)"
    and rem: "removed_by (\<lambda>r. reg_addr r \<noteq> reg_addr reg) ns ns'"
    and all: "all_regs_rtype (rtype ns)" and hold: "holder ns \<noteq> None"
  shows "holder ns' = Some (reg_addr reg)"
proof (cases "\<exists>r \<in> set (registrants ns). reg_addr r \<noteq> reg_addr reg")
  case ex: True
  have "reg \<in> set (registrants ns')" using reg removed_by_regs [OF rem] by simp
  then have "registrants ns' \<noteq> []" by auto
  then have "hd (registrants ns') \<in> set (registrants ns')" by simp
  then have "reg_addr (hd (registrants ns')) = reg_addr reg" unfolding removed_by_regs [OF rem] by simp
  with removed_by_all_regs [OF rem hold all ex] \<open>registrants ns' \<noteq> []\<close> show ?thesis by simp
next
  case False
  obtain a where a: "holder ns = Some a" using hold by blast
  from resv_inv_holder [OF inv a] False have "a = reg_addr reg" by metis
  moreover have "holder ns' = holder ns" using removed_by_none [OF rem] False by blast
  ultimately show ?thesis using a by simp
qed

lemma Ex_bool [simp]: "\<exists>b. b" "Ex Not"
  by blast+

lemma preempt_steal:
  assumes inv: "resv_inv ns" and reg: "reg \<in> set (registrants ns)" and t: "t \<le> 6"
    and key: "key = rkey reg" and hold: "holder ns = Some a" "a \<noteq> reg_addr reg"
    and single: "\<not> all_regs_rtype (rtype ns)" and prkey: "crkey ns = prkey"
  obtains ns3 where "removed_by (\<lambda>r. rkey r = prkey \<and> reg_addr reg \<noteq> reg_addr r) ns ns3"
    and "resv_preempt ns reg key prkey t = Inr (SC_SUCCESS, True, True,
      ns3\<lparr>rtype := t, crkey := key, holder := Some (reg_addr reg)\<rparr>)"
    and "resv_inv (ns3\<lparr>rtype := t, crkey := key, holder := Some (reg_addr reg)\<rparr>)"
proof -
  obtain h where h: "h \<in> set (registrants ns)" "reg_addr h = a"
    "\<not> all_regs_rtype (rtype ns) \<longrightarrow> crkey ns = rkey h" by (rule resv_inv_holder [OF inv hold(1)])
  obtain ns3 where loop: "remove_registrants_loop (\<lambda>r. rkey r = prkey \<and> reg_addr reg \<noteq> reg_addr r)
        (registrants ns) 0 ns =
      Inr (length (filter (\<lambda>r. rkey r = prkey \<and> reg_addr reg \<noteq> reg_addr r) (registrants ns)), ns3)"
    and rem: "removed_by (\<lambda>r. rkey r = prkey \<and> reg_addr reg \<noteq> reg_addr r) ns ns3" and inv3: "resv_inv ns3"
    by (rule remove_loop_all [OF inv])
  have call: "nvmf_ns_reservation_remove_other_registrants_by_key ns prkey reg = Inr ns3"
    unfolding nvmf_ns_reservation_remove_other_registrants_by_key_def loop by simp
  have "\<exists>r \<in> set (registrants ns). (rkey r = prkey \<and> reg_addr reg \<noteq> reg_addr r) \<and>
      holder ns = Some (reg_addr r)" using h hold single prkey by auto
  with removed_by_single [OF rem _ single] hold have none: "holder ns3 = None" by simp
  have "reg \<in> set (registrants ns3)" using reg removed_by_regs [OF rem] by simp
  then have "resv_inv (ns3\<lparr>rtype := t, crkey := key, holder := Some (reg_addr reg)\<rparr>)"
    using inv3 key t by (auto simp: resv_inv_def)
  moreover have "resv_preempt ns reg key prkey t = Inr (SC_SUCCESS, True, True,
      ns3\<lparr>rtype := t, crkey := key, holder := Some (reg_addr reg)\<rparr>)"
    using hold single prkey call none
    by (simp add: resv_preempt_def nvmf_ns_reservation_all_registrants_type_def
        nvmf_ns_reservation_registrant_is_holder_def nvmf_ns_reservation_acquire_reservation_def)
  ultimately show ?thesis using that rem by blast
qed

lemma preempt_ok:
  assumes inv: "resv_inv ns" and reg: "reg \<in> set (registrants ns)" and t: "t \<le> 6"
    and key: "key = rkey reg"
  shows "\<exists>st upd released ns'. resv_preempt ns reg key prkey t = Inr (st, upd, released, ns') \<and>
    resv_inv ns' \<and> preempt_abort ns' = preempt_abort ns"
proof -
  have frame: "removed_by P ns ns' \<Longrightarrow> preempt_abort ns' = preempt_abort ns" for P ns'
    by (simp add: removed_by_def)
  obtain ns1 where by_key: "nvmf_ns_reservation_remove_registrants_by_key ns prkey =
      Inr (length (filter (\<lambda>r. rkey r = prkey) (registrants ns)), ns1)"
    "removed_by (\<lambda>r. rkey r = prkey) ns ns1" "resv_inv ns1"
    unfolding nvmf_ns_reservation_remove_registrants_by_key_def by (rule remove_loop_all [OF inv])
  obtain ns2 where loop2: "remove_registrants_loop (\<lambda>r. reg_addr r \<noteq> reg_addr reg) (registrants ns) 0 ns =
      Inr (length (filter (\<lambda>r. reg_addr r \<noteq> reg_addr reg) (registrants ns)), ns2)"
    and rem2: "removed_by (\<lambda>r. reg_addr r \<noteq> reg_addr reg) ns ns2" and inv2: "resv_inv ns2"
    by (rule remove_loop_all [OF inv])
  have others: "nvmf_ns_reservation_remove_all_other_registrants ns reg =
      Inr (length (filter (\<lambda>r. reg_addr r \<noteq> reg_addr reg) (registrants ns)), ns2)"
    unfolding nvmf_ns_reservation_remove_all_other_registrants_def by (rule loop2)
  note defs = resv_preempt_def nvmf_ns_reservation_all_registrants_type_def
    nvmf_ns_reservation_registrant_is_holder_def option.case
  show ?thesis
  proof (cases "holder ns")
    case None
    with by_key frame [OF by_key(2)] show ?thesis by (simp add: defs)
  next
    case (Some a)
    show ?thesis
    proof (cases "all_regs_rtype (rtype ns)")
      case True
      have hold2: "holder ns2 = Some (reg_addr reg)"
        using remove_others_holder [OF inv reg rem2 True] Some by simp
      show ?thesis
      proof (cases "prkey = 0")
        case True
        with \<open>all_regs_rtype (rtype ns)\<close> Some hold2 others inv2 frame [OF rem2] show ?thesis
          by (simp add: defs)
      next
        case False
        with \<open>all_regs_rtype (rtype ns)\<close> Some by_key(1,3) frame [OF by_key(2)] show ?thesis
          by (simp add: defs)
      qed
    next
      case single: False
      consider (self) "a = reg_addr reg" "crkey ns = prkey" | (steal) "a \<noteq> reg_addr reg" "crkey ns = prkey"
        | (other) "crkey ns \<noteq> prkey" by blast
      then show ?thesis
      proof cases
        case self
        have "resv_inv (ns\<lparr>rtype := t\<rparr>)" using inv t Some single unfolding resv_inv_def by auto
        with self Some single show ?thesis by (simp add: defs)
      next
        case steal
        from preempt_steal [OF inv reg t key Some steal(1) single steal(2)] obtain ns3 where
          "removed_by (\<lambda>r. rkey r = prkey \<and> reg_addr reg \<noteq> reg_addr r) ns ns3"
          "resv_preempt ns reg key prkey t = Inr (SC_SUCCESS, True, True,
            ns3\<lparr>rtype := t, crkey := key, holder := Some (reg_addr reg)\<rparr>)"
          "resv_inv (ns3\<lparr>rtype := t, crkey := key, holder := Some (reg_addr reg)\<rparr>)" .
        with frame show ?thesis by simp
      next
        case other
        show ?thesis
        proof (cases "prkey = 0")
          case True
          with other Some single inv show ?thesis by (simp add: defs)
        next
          case False
          with other Some single by_key(1,3) frame [OF by_key(2)] show ?thesis by (simp add: defs)
        qed
      qed
    qed
  qed
qed

lemma preempt_exit_ok:
  assumes inv: "resv_inv ns" and pa: "is_abort \<longrightarrow> preempt_abort ns \<noteq> None"
    and len: "length hostid_list \<le> MAX_NUM_REGISTRANTS"
  shows "\<exists>notices ns'. resv_preempt_exit ctrlrs is_abort released hostid_list ns ctrlr = Inr (notices, ns') \<and>
    resv_inv ns' \<and> registrants ns' = registrants ns \<and> same_resv ns ns'"
proof -
  have "length (filter Q hostid_list) \<le> MAX_NUM_REGISTRANTS" for Q
    using order_trans [OF length_filter_le len] .
  then have "length (nvmf_ns_reservation_get_unregistered_hostid hostid_list l) \<le> MAX_NUM_REGISTRANTS" for l
    using len by (simp add: nvmf_ns_reservation_get_unregistered_hostid_def)
  with pa inv show ?thesis
    by (cases is_abort) (auto simp: resv_preempt_exit_def all_other_hostid_eq [OF inv] Let_def c_assert_def
        resv_inv_frame)
qed

lemma acquire_ok [step_inv]:
  assumes inv: "resv_inv ns"
  shows "resv_ok (nvmf_ns_reservation_acquire ctrlrs pa_ok ns ctrlr cmd)"
proof (cases "acq_keys cmd")
  case None
  with inv show ?thesis by (simp add: nvmf_ns_reservation_acquire_def)
next
  case (Some keys)
  obtain key prkey where keys: "acq_keys cmd = Some (key, prkey)" using Some by (cases keys) simp
  show ?thesis
  proof (cases "acq_iekey cmd \<or> 6 < acq_rtype cmd")
    case True
    with inv keys show ?thesis by (auto simp: nvmf_ns_reservation_acquire_def)
  next
    case fields: False
    show ?thesis
    proof (cases "nvmf_ns_reservation_get_registrant ns (ctrlr_hostid ctrlr)")
      case None
      with inv keys fields show ?thesis by (simp add: nvmf_ns_reservation_acquire_def)
    next
      case reg: (Some reg)
      note mem = get_registrant_Some(1) [OF reg]
      have t: "acq_rtype cmd \<le> 6" using fields by (simp add: not_less)
      define ns0 where "ns0 = (if racqa cmd = 2 \<and> preempt_abort ns = None
          then ns\<lparr>preempt_abort := Some \<lparr>pa_hostids = [], pa_io_waiting_done = False,
             pa_hostids_gen = 0, pa_timeout_ticks = 0\<rparr>\<rparr> else ns)"
      have inv0: "resv_inv ns0" and mem0: "reg \<in> set (registrants ns0)"
        and pa0: "racqa cmd = 2 \<longrightarrow> preempt_abort ns0 \<noteq> None"
        using inv mem by (auto simp: ns0_def resv_inv_frame)
      let ?others = "map hostid (filter (\<lambda>r. hostid r \<noteq> ctrlr_hostid ctrlr) (registrants ns0))"
      have len: "length ?others \<le> MAX_NUM_REGISTRANTS"
        using order_trans [OF length_filter_le resv_invD(3) [OF inv0]] by simp
      have preempt: "resv_ok (case resv_preempt ns0 reg key prkey (acq_rtype cmd) of
           Inl e \<Rightarrow> Inl e
         | Inr (st, upd, released, ns1) \<Rightarrow>
             if upd then map_sum id (\<lambda>(notices, ns2). (True, st, notices, ns2))
               (resv_preempt_exit ctrlrs (racqa cmd = 2) released ?others ns1 ctrlr)
             else Inr (False, st, [], ns1))" if "key = rkey reg"
      proof -
        from preempt_ok [OF inv0 mem0 t that] obtain st upd released ns1 where
          p: "resv_preempt ns0 reg key prkey (acq_rtype cmd) = Inr (st, upd, released, ns1)"
          "resv_inv ns1" "preempt_abort ns1 = preempt_abort ns0" by blast
        with preempt_exit_ok [OF p(2) _ len, of "racqa cmd = 2" ctrlrs released ctrlr] pa0
        show ?thesis by auto
      qed
      have acquire: "resv_inv (ns\<lparr>rtype := acq_rtype cmd, crkey := rkey reg, holder := Some (reg_addr reg)\<rparr>)"
        using inv mem t by (auto simp: resv_inv_def)
      consider (mismatch) "rkey reg \<noteq> key" | (acq) "rkey reg = key" "racqa cmd = 0"
        | (pre) "rkey reg = key" "racqa cmd = 1 \<or> racqa cmd = 2"
        | (bad) "rkey reg = key" "racqa cmd \<noteq> 0" "\<not> (racqa cmd = 1 \<or> racqa cmd = 2)" by blast
      then show ?thesis
      proof cases
        case acq
        with inv keys fields reg acquire show ?thesis
          by (simp add: nvmf_ns_reservation_acquire_def nvmf_ns_reservation_acquire_reservation_def)
      next
        case pre
        then have "racqa cmd \<noteq> 0" by auto
        with pre inv keys fields reg preempt all_other_hostid_eq [OF inv0] show ?thesis
          by (simp add: nvmf_ns_reservation_acquire_def Let_def ns0_def [symmetric])
      qed (use inv keys fields reg in \<open>simp_all add: nvmf_ns_reservation_acquire_def\<close>)
    qed
  qed
qed

lemma release_reservation_inv: "resv_inv ns \<Longrightarrow> resv_inv (nvmf_ns_reservation_release_reservation ns)"
  by (auto simp: nvmf_ns_reservation_release_reservation_def resv_inv_def)

lemma release_ok [step_inv]:
  assumes inv: "resv_inv ns"
  shows "resv_ok (nvmf_ns_reservation_release ctrlrs ns ctrlr cmd)"
proof -
  obtain ns' c where "nvmf_ns_reservation_clear_all_registrants ns = Inr (c, ns')" "resv_inv ns'"
    unfolding nvmf_ns_reservation_clear_all_registrants_def
    using remove_loop_all [OF inv, of "\<lambda>_. True"] by metis
  with inv release_reservation_inv [OF inv] show ?thesis
    by (auto simp: nvmf_ns_reservation_release_def all_other_hostid_eq [OF inv] Let_def
        split: option.splits)
qed

section \<open>Reachable states\<close>

text \<open>A step is a reservation command of any controller with any fields. The address of a new
  registrant is one that no registrant of the namespace has.\<close>

inductive resv_step :: "nvmf_ns \<Rightarrow> nvmf_ns \<Rightarrow> bool" where
  register: "alloc \<notin> Some ` reg_addr ` set (registrants ns) \<Longrightarrow>
    nvmf_ns_reservation_register ctrlrs alloc ns ctrlr rcmd = Inr (upd, st, notices, ns') \<Longrightarrow>
    resv_step ns ns'"
| acquire: "nvmf_ns_reservation_acquire ctrlrs pa_ok ns ctrlr acmd = Inr (upd, st, notices, ns') \<Longrightarrow>
    resv_step ns ns'"
| release: "nvmf_ns_reservation_release ctrlrs ns ctrlr lcmd = Inr (upd, st, notices, ns') \<Longrightarrow>
    resv_step ns ns'"

definition resv_init :: "nvmf_ns \<Rightarrow> bool" where
  "resv_init ns \<longleftrightarrow> registrants ns = [] \<and> holder ns = None \<and> rtype ns = 0 \<and> crkey ns = 0"

interpretation resv_machine: transition_invariant resv_step resv_init resv_inv
proof
  show "resv_inv s" if "resv_init s" for s
    using that by (simp add: resv_init_def resv_inv_def)
  show "resv_inv t" if "resv_inv s" "resv_step s t" for s t
    using that(2,1)
  proof cases
    case register
    with register_ok [OF that(1) register(1)] show ?thesis by (metis resv_ok_Inr)
  next
    case acquire
    with acquire_ok [OF that(1)] show ?thesis by (metis resv_ok_Inr)
  next
    case release
    with release_ok [OF that(1)] show ?thesis by (metis resv_ok_Inr)
  qed
qed

end
