(* ===== verification/Nvmf_Resv_Props.thy ===== *)
theory Nvmf_Resv_Props
  imports Nvmf_Resv_Inv
begin

text \<open>
  The properties of the NVMe-oF reservations: safety of every reachable state, enforcement of
  the access rules, authorisation, preemption and persistence.
\<close>

section \<open>Example states\<close>

text \<open>Hosts 1 and 2 with keys 17 and 34; a fresh namespace with a persistence file, and the
  states after both have registered.\<close>

definition fresh_ns :: nvmf_ns where
  "fresh_ns = \<lparr>ns_mask = 0, gen = 0, registrants = [], crkey = 0, rtype = 0, holder = None,
     preempt_abort = None, ptpl_capable = True, ptpl_activated = False, ns_bdev_uuid = 7\<rparr>"

definition host :: "uuid \<Rightarrow> nvmf_ctrlr" where
  "host h = \<lparr>ctrlr_hostid = h, ctrlr_cntlid = ucast h\<rparr>"

definition reg_cmd :: "u8 \<Rightarrow> u64 \<Rightarrow> u64 \<Rightarrow> register_cmd" where
  "reg_cmd a k n = \<lparr>rrega = a, reg_iekey = False, cptpl = 3, reg_keys = Some (k, n)\<rparr>"

definition acq_cmd :: "u8 \<Rightarrow> u8 \<Rightarrow> u64 \<Rightarrow> u64 \<Rightarrow> acquire_cmd" where
  "acq_cmd a t k p = \<lparr>racqa = a, acq_iekey = False, acq_rtype = t, acq_keys = Some (k, p)\<rparr>"

definition two_regs :: "u8 \<Rightarrow> u64 \<Rightarrow> nat option \<Rightarrow> nvmf_ns" where
  "two_regs t k h = fresh_ns\<lparr>gen := 2, ptpl_activated := True, rtype := t, crkey := k, holder := h,
     registrants := [\<lparr>reg_addr = 100, hostid = 1, rkey = 17, cntlid = 1\<rparr>,
                     \<lparr>reg_addr = 200, hostid = 2, rkey = 34, cntlid = 2\<rparr>]\<rparr>"

lemma two_regs_reachable: "resv_step\<^sup>*\<^sup>* fresh_ns (two_regs 0 0 None)"
proof -
  let ?ns = "fresh_ns\<lparr>gen := 1, ptpl_activated := True,
    registrants := [\<lparr>reg_addr = 100, hostid = 1, rkey = 17, cntlid = 1\<rparr>]\<rparr>"
  have 1: "nvmf_ns_reservation_register [] (Some 100) fresh_ns (host 1) (reg_cmd 0 0 17) =
      Inr (True, SC_SUCCESS, [], ?ns)" by code_simp
  have 2: "nvmf_ns_reservation_register [] (Some 200) ?ns (host 2) (reg_cmd 0 0 34) =
      Inr (True, SC_SUCCESS, [], two_regs 0 0 None)" by code_simp
  have "resv_step fresh_ns ?ns"
    by (rule resv_step.register [OF _ 1]) (simp add: fresh_ns_def)
  moreover have "resv_step ?ns (two_regs 0 0 None)"
    by (rule resv_step.register [OF _ 2]) simp
  ultimately show ?thesis by auto
qed

lemma two_regs_acquired: "t \<le> 6 \<Longrightarrow> resv_step (two_regs 0 0 None) (two_regs t 17 (Some 100))"
  by (rule resv_step.acquire [of "[]" True _ "host 1" "acq_cmd 0 t 17 0" True SC_SUCCESS "[]"])
    (simp add: not_less nvmf_ns_reservation_acquire_def acq_cmd_def host_def two_regs_def fresh_ns_def
      nvmf_ns_reservation_get_registrant_def nvmf_ns_reservation_registrant_is_holder_def
      nvmf_ns_reservation_all_registrants_type_def nvmf_ns_reservation_acquire_reservation_def)

lemma fresh_ns_init: "resv_init fresh_ns"
  by (simp add: resv_init_def fresh_ns_def)

lemma two_regs_inv: "t \<le> 6 \<Longrightarrow> resv_inv (two_regs t 17 (Some 100))"
  using resv_machine.reachable_inv [OF fresh_ns_init] two_regs_reachable two_regs_acquired
  by (meson rtranclp.rtrancl_into_rtrancl)

section \<open>Safety\<close>

text \<open>C5 (safety). In every state that any sequence of reservation commands leads to from a
  namespace without registrants, the invariant holds and every further register, acquire or
  release command of any controller, with any fields, returns: no assertion fails, nothing is
  undefined.\<close>

theorem reservations_never_assert:
  assumes "resv_init ns0" and "resv_step\<^sup>*\<^sup>* ns0 ns"
    and "alloc \<notin> Some ` reg_addr ` set (registrants ns)"
  shows "resv_inv ns \<and>
    resv_ok (nvmf_ns_reservation_register ctrlrs alloc ns ctrlr rcmd) \<and>
    resv_ok (nvmf_ns_reservation_acquire ctrlrs pa_ok ns ctrlr acmd) \<and>
    resv_ok (nvmf_ns_reservation_release ctrlrs ns ctrlr lcmd)"
proof -
  have inv: "resv_inv ns" by (rule resv_machine.reachable_inv [OF assms(1,2)])
  show ?thesis
    using inv register_ok [OF inv assms(3)] acquire_ok [OF inv] release_ok [OF inv] by blast
qed

lemma reservations_never_assert_witness:
  "resv_inv (two_regs 0 0 None) \<and>
   resv_ok (nvmf_ns_reservation_acquire [] True (two_regs 0 0 None) (host 1) (acq_cmd 2 1 17 34))"
  using reservations_never_assert [OF fresh_ns_init two_regs_reachable, of None] by blast

section \<open>Enforcement\<close>

text \<open>The access rules of the reservation types, by the role of the host.\<close>

datatype role = Holder | Registrant | Outsider

datatype access = ReadAccess | WriteAccess | AcquireCmd | PreemptCmd | ReleaseCmd | OtherAccess

fun access_table :: "u8 \<Rightarrow> role \<Rightarrow> access \<Rightarrow> bool" where
  "access_table t Holder a = True"
| "access_table t r OtherAccess = True"
| "access_table t Registrant ReadAccess = (t \<noteq> EXCLUSIVE_ACCESS)"
| "access_table t Outsider ReadAccess =
     (t \<in> {WRITE_EXCLUSIVE, WRITE_EXCLUSIVE_REG_ONLY, WRITE_EXCLUSIVE_ALL_REGS})"
| "access_table t Registrant WriteAccess = (t \<notin> {WRITE_EXCLUSIVE, EXCLUSIVE_ACCESS})"
| "access_table t Outsider WriteAccess = False"
| "access_table t r AcquireCmd = False"
| "access_table t r PreemptCmd = (r = Registrant)"
| "access_table t r ReleaseCmd = (r = Registrant)"

definition role_of :: "nvmf_ns \<Rightarrow> uuid \<Rightarrow> role" where
  "role_of ns h =
     (case nvmf_ns_reservation_get_registrant ns h of
        None \<Rightarrow> Outsider
      | Some r \<Rightarrow> if nvmf_ns_reservation_registrant_is_holder ns (Some r) then Holder else Registrant)"

definition access_of :: "nvm_opc \<Rightarrow> u8 \<Rightarrow> access" where
  "access_of opc a =
     (if opc \<in> {OPC_READ, OPC_COMPARE} then ReadAccess
      else if opc \<in> {OPC_FLUSH, OPC_WRITE, OPC_WRITE_UNCORRECTABLE, OPC_WRITE_ZEROES,
                     OPC_DATASET_MANAGEMENT} then WriteAccess
      else if opc = OPC_RESERVATION_ACQUIRE then (if a = 0 then AcquireCmd else PreemptCmd)
      else if opc = OPC_RESERVATION_RELEASE then ReleaseCmd
      else OtherAccess)"

lemma find_holder:
  assumes inv: "resv_inv ns" and "r \<in> set (registrants ns)"
  shows "find (\<lambda>x. reg_addr x = reg_addr r) (registrants ns) = Some r"
proof -
  obtain x where x: "find (\<lambda>x. reg_addr x = reg_addr r) (registrants ns) = Some x"
    using assms(2) find_None_iff [of "\<lambda>x. reg_addr x = reg_addr r" "registrants ns"] by fastforce
  then have "x \<in> set (registrants ns)" "reg_addr x = reg_addr r" by (auto simp: find_Some_iff)
  with reg_addr_inj [OF inv _ assms(2)] x show ?thesis by simp
qed

definition holder_host :: "nvmf_ns \<Rightarrow> uuid option" where
  "holder_host ns = (case holder ns of None \<Rightarrow> None
     | Some a \<Rightarrow> map_option hostid (find (\<lambda>r. reg_addr r = a) (registrants ns)))"

lemma holder_host_cases:
  assumes inv: "resv_inv ns"
  obtains (none) "holder ns = None" "holder_host ns = None"
  | (some) r where "r \<in> set (registrants ns)" "holder ns = Some (reg_addr r)"
      "holder_host ns = Some (hostid r)"
proof (cases "holder ns")
  case None
  then show ?thesis using none by (simp add: holder_host_def)
next
  case (Some a)
  then obtain r where "r \<in> set (registrants ns)" "reg_addr r = a" by (rule resv_inv_holder [OF inv])
  with Some find_holder [OF inv] show ?thesis using some by (simp add: holder_host_def)
qed

lemma pg_update_eq:
  assumes inv: "resv_inv ns"
  shows "nvmf_subsystem_poll_group_update_ns_reservation ns =
    Inr \<lparr>pg_crkey = crkey ns, pg_rtype = rtype ns,
         pg_holder_id = (case holder_host ns of None \<Rightarrow> 0 | Some h \<Rightarrow> h),
         pg_reg_hostid = map hostid (registrants ns) @
           replicate (MAX_NUM_REGISTRANTS - length (registrants ns)) 0\<rparr>"
  using inv
proof (cases rule: holder_host_cases)
  case none
  then show ?thesis using resv_invD(3) [OF inv]
    by (simp add: nvmf_subsystem_poll_group_update_ns_reservation_def c_assert_def)
next
  case (some r)
  then show ?thesis using resv_invD(3) [OF inv] find_holder [OF inv some(1)]
    by (simp add: nvmf_subsystem_poll_group_update_ns_reservation_def c_assert_def)
qed

lemma is_registrant_eq:
  assumes inv: "resv_inv ns" and pg: "nvmf_subsystem_poll_group_update_ns_reservation ns = Inr pg"
  shows "nvmf_ns_info_ctrlr_is_registrant pg ctrlr \<longleftrightarrow>
    (\<exists>r \<in> set (registrants ns). hostid r = ctrlr_hostid ctrlr) \<or>
    (ctrlr_hostid ctrlr = 0 \<and> length (registrants ns) < MAX_NUM_REGISTRANTS)"
proof -
  have "pg_reg_hostid pg = map hostid (registrants ns) @
      replicate (MAX_NUM_REGISTRANTS - length (registrants ns)) 0"
    using pg pg_update_eq [OF inv] by auto
  then have "set (take MAX_NUM_REGISTRANTS (pg_reg_hostid pg)) = hostid ` set (registrants ns) \<union>
      (if length (registrants ns) < MAX_NUM_REGISTRANTS then {0} else {})"
    using resv_invD(3) [OF inv] by (auto simp: min_def)
  then have "(\<exists>h \<in> set (take MAX_NUM_REGISTRANTS (pg_reg_hostid pg)). h = ctrlr_hostid ctrlr) \<longleftrightarrow>
      ctrlr_hostid ctrlr \<in> hostid ` set (registrants ns) \<or>
      (ctrlr_hostid ctrlr = 0 \<and> length (registrants ns) < MAX_NUM_REGISTRANTS)" by simp
  then show ?thesis unfolding nvmf_ns_info_ctrlr_is_registrant_def list_ex_iff image_iff by metis
qed

lemma rtype_values:
  assumes "x \<le> (6 :: u8)"
  shows "x = 0 \<or> x = 1 \<or> x = 2 \<or> x = 3 \<or> x = 4 \<or> x = 5 \<or> x = 6"
proof -
  have "unat x \<le> 6" using assms by (simp add: word_le_nat_alt)
  then have "unat x = 0 \<or> unat x = 1 \<or> unat x = 2 \<or> unat x = 3 \<or> unat x = 4 \<or> unat x = 5 \<or> unat x = 6"
    by presburger
  then show ?thesis by (simp add: word_unat_eq_iff)
qed

text \<open>C8 (refinement). The check that the I/O path makes on a poll group's copy of the
  reservation implements the access rules of the namespace: a command of a host with a non-zero
  identifier is let through exactly when the rules allow it for the host's role.\<close>

theorem access_enforced:
  assumes inv: "resv_inv ns" and nonzero: "ctrlr_hostid ctrlr \<noteq> 0"
  shows "\<exists>pg. nvmf_subsystem_poll_group_update_ns_reservation ns = Inr pg \<and>
    nvmf_ns_reservation_request_check pg ctrlr opc a =
      (if rtype ns = 0 \<or> access_table (rtype ns) (role_of ns (ctrlr_hostid ctrlr)) (access_of opc a)
       then None else Some EPERM)"
proof -
  let ?h = "ctrlr_hostid ctrlr"
  obtain pg where pg: "nvmf_subsystem_poll_group_update_ns_reservation ns = Inr pg"
    using pg_update_eq [OF inv] by blast
  have t: "pg_rtype pg = rtype ns" using pg pg_update_eq [OF inv] by auto
  have reg: "nvmf_ns_info_ctrlr_is_registrant pg ctrlr \<longleftrightarrow> (\<exists>r \<in> set (registrants ns). hostid r = ?h)"
    using is_registrant_eq [OF inv pg] nonzero by blast
  have hold: "pg_holder_id pg = ?h \<longleftrightarrow> holder_host ns = Some ?h"
    using pg pg_update_eq [OF inv] nonzero by (auto split: option.splits)
  have role: "role_of ns ?h = (if \<exists>r \<in> set (registrants ns). hostid r = ?h
      then if all_regs_rtype (rtype ns) \<or> holder_host ns = Some ?h then Holder else Registrant
      else Outsider)"
  proof (cases "nvmf_ns_reservation_get_registrant ns ?h")
    case None
    then have "\<not> (\<exists>r \<in> set (registrants ns). hostid r = ?h)" unfolding get_registrant_None by blast
    then show ?thesis unfolding role_of_def None by simp
  next
    case (Some r)
    note r = get_registrant_Some [OF Some]
    have "holder ns = Some (reg_addr r) \<longleftrightarrow> holder_host ns = Some ?h"
      using inv
    proof (cases rule: holder_host_cases)
      case (some x)
      have "x = r" if "hostid x = ?h"
        using get_registrant_iff [OF inv, of ?h x] some(1) that Some by simp
      then show ?thesis using some r reg_addr_inj [OF inv some(1) r(1)] by auto
    qed simp
    with r Some show ?thesis
      by (auto simp: role_of_def nvmf_ns_reservation_registrant_is_holder_def
          nvmf_ns_reservation_all_registrants_type_def)
  qed
  have out: "holder_host ns \<noteq> Some ?h" if "\<not> (\<exists>r \<in> set (registrants ns). hostid r = ?h)"
    using inv by (cases rule: holder_host_cases) (use that in auto)
  have "nvmf_ns_reservation_request_check pg ctrlr opc a =
      (if rtype ns = 0 \<or> access_table (rtype ns) (role_of ns ?h) (access_of opc a)
       then None else Some EPERM)"
    using out rtype_values [OF resv_invD(7) [OF inv]]
    by (cases opc; cases "\<exists>r \<in> set (registrants ns). hostid r = ?h"; cases "holder_host ns = Some ?h")
      (simp_all add: nvmf_ns_reservation_request_check_def t reg hold role access_of_def Let_def
        all_regs_rtype_def, argo+)
  with pg show ?thesis by blast
qed

lemma access_enforced_witness:
  "\<exists>pg. nvmf_subsystem_poll_group_update_ns_reservation (two_regs 3 17 (Some 100)) = Inr pg \<and>
     nvmf_ns_reservation_request_check pg (host 3) OPC_WRITE 0 = Some EPERM"
proof -
  have inv: "resv_inv (two_regs 3 17 (Some 100))" by (rule two_regs_inv) code_simp
  have "\<not> (rtype (two_regs 3 17 (Some 100)) = 0 \<or>
      access_table (rtype (two_regs 3 17 (Some 100)))
        (role_of (two_regs 3 17 (Some 100)) (ctrlr_hostid (host 3))) (access_of OPC_WRITE 0))"
    by code_simp
  with access_enforced [OF inv, of "host 3" OPC_WRITE 0] show ?thesis by (simp add: host_def)
qed

text \<open>C24 (safety). The host list of a poll group is padded with zeros, and nothing keeps a host
  from connecting with the identifier zero: such a host counts as a registrant while the list is
  not full, and may write under every registrants-only or all-registrants reservation.\<close>

theorem zero_hostid_counts_as_registrant:
  assumes inv: "resv_inv ns" and room: "length (registrants ns) < MAX_NUM_REGISTRANTS"
    and t: "rtype ns \<notin> {WRITE_EXCLUSIVE, EXCLUSIVE_ACCESS}" and zero: "ctrlr_hostid ctrlr = 0"
  shows "\<exists>pg. nvmf_subsystem_poll_group_update_ns_reservation ns = Inr pg \<and>
    nvmf_ns_reservation_request_check pg ctrlr OPC_WRITE a = None"
proof -
  obtain pg where pg: "nvmf_subsystem_poll_group_update_ns_reservation ns = Inr pg" "pg_rtype pg = rtype ns"
    using pg_update_eq [OF inv] by auto
  moreover have "nvmf_ns_info_ctrlr_is_registrant pg ctrlr"
    using is_registrant_eq [OF inv pg(1)] room zero by blast
  ultimately show ?thesis using t by (auto simp: nvmf_ns_reservation_request_check_def Let_def)
qed

lemma zero_hostid_counts_as_registrant_witness:
  "role_of (two_regs 4 17 (Some 100)) 0 = Outsider \<and>
   (\<exists>pg. nvmf_subsystem_poll_group_update_ns_reservation (two_regs 4 17 (Some 100)) = Inr pg \<and>
     nvmf_ns_reservation_request_check pg (host 0) OPC_WRITE 0 = None)"
proof -
  have inv: "resv_inv (two_regs 4 17 (Some 100))" by (rule two_regs_inv) code_simp
  have "length (registrants (two_regs 4 17 (Some 100))) < MAX_NUM_REGISTRANTS"
    "rtype (two_regs 4 17 (Some 100)) \<notin> {WRITE_EXCLUSIVE, EXCLUSIVE_ACCESS}"
    "ctrlr_hostid (host 0) = 0" by code_simp+
  from zero_hostid_counts_as_registrant [OF inv this] have
    "\<exists>pg. nvmf_subsystem_poll_group_update_ns_reservation (two_regs 4 17 (Some 100)) = Inr pg \<and>
     nvmf_ns_reservation_request_check pg (host 0) OPC_WRITE 0 = None" .
  moreover have "role_of (two_regs 4 17 (Some 100)) 0 = Outsider" by code_simp
  ultimately show ?thesis by blast
qed

section \<open>Authorisation\<close>

text \<open>C21 (safety). An acquire or release command changes the namespace only if its host is
  registered and presents its own registration key.\<close>

theorem resv_change_needs_key:
  assumes "nvmf_ns_reservation_acquire ctrlrs pa_ok ns ctrlr acmd = Inr (upd, st, notices, ns') \<and>
      acq_keys acmd = Some (key, prkey) \<or>
    nvmf_ns_reservation_release ctrlrs ns ctrlr lcmd = Inr (upd, st, notices, ns') \<and>
      rel_key lcmd = Some key"
    and "ns' \<noteq> ns"
  shows "\<exists>r \<in> set (registrants ns). hostid r = ctrlr_hostid ctrlr \<and> rkey r = key"
proof -
  have "\<exists>r. nvmf_ns_reservation_get_registrant ns (ctrlr_hostid ctrlr) = Some r \<and> rkey r = key"
    using assms
    by (auto simp: nvmf_ns_reservation_acquire_def nvmf_ns_reservation_release_def
        split: option.splits if_splits)
  then show ?thesis using get_registrant_Some by blast
qed

lemma resv_change_needs_key_witness:
  "\<exists>r \<in> set (registrants (two_regs 0 0 None)). hostid r = 1 \<and> rkey r = 17"
proof -
  have "nvmf_ns_reservation_acquire [] True (two_regs 0 0 None) (host 1) (acq_cmd 0 1 17 0) =
      Inr (True, SC_SUCCESS, [], two_regs 1 17 (Some 100))" by code_simp
  moreover have "acq_keys (acq_cmd 0 1 17 0) = Some (17, 0)" by (simp add: acq_cmd_def)
  moreover have "two_regs 1 17 (Some 100) \<noteq> two_regs 0 0 None"
    by (simp add: two_regs_def fresh_ns_def)
  ultimately show ?thesis
    using resv_change_needs_key [of "[]" True "two_regs 0 0 None" "host 1" "acq_cmd 0 1 17 0" True
        SC_SUCCESS "[]" "two_regs 1 17 (Some 100)" 17 0 undefined]
    by (simp add: host_def)
qed

lemma filter_set_rkey:
  "(\<And>r. r \<in> set rs \<Longrightarrow> reg_addr r = a \<Longrightarrow> \<not> P r) \<Longrightarrow> (\<And>r k. P (r\<lparr>rkey := k\<rparr>) = P r) \<Longrightarrow>
    filter P (set_rkey a key rs) = filter P rs"
  by (induction rs) (auto simp: set_rkey_def)

abbreviation others :: "uuid \<Rightarrow> nvmf_ns \<Rightarrow> nvmf_registrant list" where
  "others h ns \<equiv> filter (\<lambda>r. hostid r \<noteq> h) (registrants ns)"

lemma add_registrant_others:
  "nvmf_ns_reservation_add_registrant alloc ns ctrlr k = Inr ns' \<Longrightarrow>
    others (ctrlr_hostid ctrlr) ns' = others (ctrlr_hostid ctrlr) ns"
  by (auto simp: nvmf_ns_reservation_add_registrant_def split: if_splits option.splits)

lemma unregister_others:
  assumes inv: "resv_inv ns"
    and r: "resv_unregister_key ctrlrs upd ns ctrlr iekey key = Inr (u, st, notices, ns')"
  shows "others (ctrlr_hostid ctrlr) ns' = others (ctrlr_hostid ctrlr) ns"
proof (cases "nvmf_ns_reservation_get_registrant ns (ctrlr_hostid ctrlr)")
  case None
  with r show ?thesis by (simp add: resv_unregister_key_def)
next
  case (Some reg)
  note reg = get_registrant_Some [OF Some]
  from remove_registrant_step [OF inv reg(1)] obtain ns1 where
    rm: "nvmf_ns_reservation_remove_registrant ns reg = Inr ns1" "removed_by (\<lambda>x. x = reg) ns ns1" by blast
  with Some r have "ns' = ns \<or> ns' = ns1"
    by (auto simp: resv_unregister_key_def all_other_hostid_eq [OF inv] Let_def split: if_splits)
  moreover have "others (ctrlr_hostid ctrlr) ns1 = others (ctrlr_hostid ctrlr) ns"
    unfolding removed_by_regs [OF rm(2)] filter_filter using reg(2) by (auto intro: filter_cong)
  ultimately show ?thesis by auto
qed

lemma replace_others:
  assumes inv: "resv_inv ns"
    and r: "resv_replace_key alloc upd ns ctrlr iekey key nrkey = Inr (u, st, notices, ns')"
  shows "others (ctrlr_hostid ctrlr) ns' = others (ctrlr_hostid ctrlr) ns"
proof (cases "nvmf_ns_reservation_get_registrant ns (ctrlr_hostid ctrlr)")
  case None
  with r add_registrant_others [of alloc ns ctrlr nrkey] show ?thesis
    by (auto simp: resv_replace_key_def split: if_splits sum.splits)
next
  case (Some reg)
  note reg = get_registrant_Some [OF Some]
  have "registrants ns' = registrants ns \<or> registrants ns' = set_rkey (reg_addr reg) nrkey (registrants ns)"
    using Some r by (auto simp: resv_replace_key_def Let_def split: if_splits)
  moreover have "filter (\<lambda>r. hostid r \<noteq> ctrlr_hostid ctrlr) (set_rkey (reg_addr reg) nrkey (registrants ns)) =
      others (ctrlr_hostid ctrlr) ns"
    using reg reg_addr_inj [OF inv _ reg(1)] by (intro filter_set_rkey) auto
  ultimately show ?thesis by auto
qed

text \<open>A register command adds, removes or changes only the registration of its own
  host: the registrants of all other hosts stay as they are, in their order.\<close>

theorem register_affects_own_host_only:
  assumes inv: "resv_inv ns"
    and r: "nvmf_ns_reservation_register ctrlrs alloc ns ctrlr cmd = Inr (upd, st, notices, ns')"
  shows "filter (\<lambda>r. hostid r \<noteq> ctrlr_hostid ctrlr) (registrants ns') =
    filter (\<lambda>r. hostid r \<noteq> ctrlr_hostid ctrlr) (registrants ns)"
proof (cases "resv_register_ptpl ns (cptpl cmd)")
  case None
  with r show ?thesis by (auto simp: nvmf_ns_reservation_register_def split: option.splits)
next
  case (Some p)
  obtain u ns0 where p: "resv_register_ptpl ns (cptpl cmd) = Some (u, ns0)" using Some by (cases p) simp
  note ptpl = register_ptpl_inv [OF p]
  have inv0: "resv_inv ns0" using ptpl(1) inv by simp
  have "others (ctrlr_hostid ctrlr) ns' = others (ctrlr_hostid ctrlr) ns0" if "reg_keys cmd \<noteq> None"
    using that r p unregister_others [OF inv0] replace_others [OF inv0] add_registrant_others
    by (auto simp: nvmf_ns_reservation_register_def resv_register_key_def
        split: if_splits option.splits sum.splits)
  moreover have "ns' = ns" if "reg_keys cmd = None"
    using that r by (simp add: nvmf_ns_reservation_register_def)
  ultimately show ?thesis using ptpl(2) by (cases "reg_keys cmd") auto
qed

lemma register_affects_own_host_only_witness:
  "filter (\<lambda>r. hostid r \<noteq> 1) (registrants (projr
     (map_sum id (snd \<circ> snd \<circ> snd) (nvmf_ns_reservation_register [] None (two_regs 1 17 (Some 100)) (host 1)
       (reg_cmd 1 17 0))))) = [\<lparr>reg_addr = 200, hostid = 2, rkey = 34, cntlid = 2\<rparr>]"
proof -
  have inv: "resv_inv (two_regs 1 17 (Some 100))" by (rule two_regs_inv) code_simp
  obtain upd st notices ns' where
    r: "nvmf_ns_reservation_register [] None (two_regs 1 17 (Some 100)) (host 1) (reg_cmd 1 17 0) =
      Inr (upd, st, notices, ns')"
    using register_ok [OF inv, of None "[]" "host 1" "reg_cmd 1 17 0"] by (auto simp: resv_ok_def)
  from register_affects_own_host_only [OF inv r] r show ?thesis
    by (simp add: host_def two_regs_def)
qed

section \<open>Preemption\<close>

lemma others_are_not_own:
  "resv_inv ns \<Longrightarrow> reg \<in> set (registrants ns) \<Longrightarrow> hostid reg = h \<Longrightarrow> r \<in> set (registrants ns) \<Longrightarrow>
    hostid r \<noteq> h \<longleftrightarrow> r \<noteq> reg"
  using resv_invD(2) [of ns] by (auto simp: distinct_map dest: inj_onD)

lemma unregistered_split:
  assumes inv: "resv_inv ns"
  shows "nvmf_ns_reservation_get_unregistered_hostid
      (map hostid (filter (\<lambda>r. r \<noteq> reg) (registrants ns)))
      (map hostid (filter (\<lambda>r. \<not> Q r \<and> r \<noteq> reg) (registrants ns))) =
    map hostid (filter (\<lambda>r. Q r \<and> r \<noteq> reg) (registrants ns))"
proof -
  let ?rs = "registrants ns"
  have inj: "hostid r = hostid r' \<longleftrightarrow> r = r'" if "r \<in> set ?rs" "r' \<in> set ?rs" for r r'
    using that resv_invD(2) [OF inv] by (auto simp: distinct_map dest: inj_onD)
  have mem: "hostid r \<in> hostid ` {x \<in> set ?rs. \<not> Q x \<and> x \<noteq> reg} \<longleftrightarrow> \<not> Q r \<and> r \<noteq> reg" if "r \<in> set ?rs" for r
    using inj that by (auto simp: image_iff)
  have "filter (\<lambda>h. h \<notin> set (map hostid (filter (\<lambda>r. \<not> Q r \<and> r \<noteq> reg) ?rs)))
      (map hostid (filter (\<lambda>r. r \<noteq> reg) ?rs)) = map hostid (filter (\<lambda>r. Q r \<and> r \<noteq> reg) ?rs)"
    unfolding filter_map filter_filter comp_def
    by (intro arg_cong [of _ _ "map hostid"] filter_cong) (auto simp: mem)
  moreover have "filter (\<lambda>r. r \<noteq> reg) ?rs = filter (\<lambda>r. Q r \<and> r \<noteq> reg) ?rs"
    if "filter (\<lambda>r. \<not> Q r \<and> r \<noteq> reg) ?rs = []"
    using that by (auto simp: filter_empty_conv intro: filter_cong)
  ultimately show ?thesis by (simp add: nvmf_ns_reservation_get_unregistered_hostid_def)
qed

lemma notification_cong:
  "ns_mask ns = ns_mask ns' \<Longrightarrow>
    nvmf_subsystem_gen_ctrlr_notification ctrlrs ns hs t = nvmf_subsystem_gen_ctrlr_notification ctrlrs ns' hs t"
  by (simp add: nvmf_subsystem_gen_ctrlr_notification_def nvmf_ctrlr_reservation_notice_log_def
      cong: if_cong log_page_type.case_cong)

lemma notification_nil: "nvmf_subsystem_gen_ctrlr_notification ctrlrs ns [] t = []"
  by (simp add: nvmf_subsystem_gen_ctrlr_notification_def)

lemma preempt_exit_eq:
  assumes inv: "resv_inv ns"
    and "map hostid (others (ctrlr_hostid ctrlr) ns) = left"
    and "nvmf_ns_reservation_get_unregistered_hostid old left = gone"
    and "length gone \<le> MAX_NUM_REGISTRANTS" and "is_abort \<Longrightarrow> preempt_abort ns = Some p"
  shows "resv_preempt_exit ctrlrs is_abort True old ns ctrlr =
    Inr (nvmf_subsystem_gen_ctrlr_notification ctrlrs ns gone REGISTRATION_PREEMPTED @
         nvmf_subsystem_gen_ctrlr_notification ctrlrs ns left RESERVATION_RELEASED,
         if is_abort then ns\<lparr>preempt_abort := Some \<lparr>pa_hostids = gone, pa_io_waiting_done = False,
           pa_hostids_gen = pa_hostids_gen p + 1, pa_timeout_ticks = 0\<rparr>\<rparr> else ns)"
  unfolding resv_preempt_exit_def all_other_hostid_eq [OF inv] assms(2) sum.case Let_def assms(3)
  using assms(4,5) by (cases is_abort) (simp_all add: notification_nil)

text \<open>C22 (functional). A registrant that preempts the reservation of another holder with that
  holder's key becomes the holder, with its own key and the requested type; every other
  registrant with the preempted key is unregistered. The controllers of the unregistered hosts
  are notified of the loss of their registration and those of the remaining other hosts of the
  release, and with preempt-and-abort the unregistered hosts are those whose commands are
  waited for.\<close>

theorem preempt_takes_over:
  assumes inv: "resv_inv ns" and reg: "reg \<in> set (registrants ns)"
    and host: "hostid reg = ctrlr_hostid ctrlr" and key: "rkey reg = key"
    and hold: "holder ns = Some a" "a \<noteq> reg_addr reg" "\<not> all_regs_rtype (rtype ns)"
    and prkey: "crkey ns = prkey"
    and cmd: "acq_keys cmd = Some (key, prkey)" "\<not> acq_iekey cmd" "acq_rtype cmd \<le> 6"
      "racqa cmd = 1 \<or> racqa cmd = 2"
  shows "\<exists>ns' notices. nvmf_ns_reservation_acquire ctrlrs True ns ctrlr cmd = Inr (True, SC_SUCCESS, notices, ns') \<and>
    registrants ns' = filter (\<lambda>r. rkey r \<noteq> prkey \<or> r = reg) (registrants ns) \<and>
    holder ns' = Some (reg_addr reg) \<and> rtype ns' = acq_rtype cmd \<and> crkey ns' = key \<and>
    (let gone = map hostid (filter (\<lambda>r. rkey r = prkey \<and> r \<noteq> reg) (registrants ns));
         left = map hostid (filter (\<lambda>r. rkey r \<noteq> prkey \<and> r \<noteq> reg) (registrants ns))
     in notices = nvmf_subsystem_gen_ctrlr_notification ctrlrs ns gone REGISTRATION_PREEMPTED @
          nvmf_subsystem_gen_ctrlr_notification ctrlrs ns left RESERVATION_RELEASED \<and>
        (racqa cmd = 2 \<longrightarrow> (\<exists>p. preempt_abort ns' = Some p \<and> pa_hostids p = gone)))"
proof -
  define ns0 where "ns0 = (if racqa cmd = 2 \<and> preempt_abort ns = None
      then ns\<lparr>preempt_abort := Some \<lparr>pa_hostids = [], pa_io_waiting_done = False,
         pa_hostids_gen = 0, pa_timeout_ticks = 0\<rparr>\<rparr> else ns)"
  have ns0: "resv_inv ns0" "registrants ns0 = registrants ns" "holder ns0 = holder ns"
    "rtype ns0 = rtype ns" "crkey ns0 = crkey ns" "ns_mask ns0 = ns_mask ns"
    and pa0: "racqa cmd = 2 \<longrightarrow> preempt_abort ns0 \<noteq> None"
    using inv by (auto simp: ns0_def resv_inv_frame)
  let ?h = "ctrlr_hostid ctrlr"
  obtain ns3 where rem: "removed_by (\<lambda>r. rkey r = prkey \<and> reg_addr reg \<noteq> reg_addr r) ns0 ns3"
    and pre: "resv_preempt ns0 reg key prkey (acq_rtype cmd) = Inr (SC_SUCCESS, True, True,
      ns3\<lparr>rtype := acq_rtype cmd, crkey := key, holder := Some (reg_addr reg)\<rparr>)"
    and inv4': "resv_inv (ns3\<lparr>rtype := acq_rtype cmd, crkey := key, holder := Some (reg_addr reg)\<rparr>)"
    by (rule preempt_steal [of ns0 reg "acq_rtype cmd" key a prkey])
      (use ns0 reg key hold prkey cmd(3) in simp_all)
  define ns4 where "ns4 = ns3\<lparr>rtype := acq_rtype cmd, crkey := key, holder := Some (reg_addr reg)\<rparr>"
  note inv4 = inv4' [folded ns4_def] and pre = pre [folded ns4_def]
  have regs4: "registrants ns4 = filter (\<lambda>r. rkey r \<noteq> prkey \<or> r = reg) (registrants ns)"
    using removed_by_regs [OF rem] ns0(2) reg_addr_inj [OF inv reg]
    by (auto simp: ns4_def intro: filter_cong)
  have frame4: "ns_mask ns4 = ns_mask ns" "preempt_abort ns4 = preempt_abort ns0"
    using rem ns0(6) by (simp_all add: removed_by_def ns4_def)
  define gone where "gone = map hostid (filter (\<lambda>r. rkey r = prkey \<and> r \<noteq> reg) (registrants ns))"
  define left where "left = map hostid (filter (\<lambda>r. rkey r \<noteq> prkey \<and> r \<noteq> reg) (registrants ns))"
  have old: "map hostid (filter (\<lambda>r. hostid r \<noteq> ?h) (registrants ns0)) =
      map hostid (filter (\<lambda>r. r \<noteq> reg) (registrants ns))"
    using others_are_not_own [OF inv reg host] ns0(2) by (simp cong: filter_cong)
  have new: "map hostid (filter (\<lambda>r. hostid r \<noteq> ?h) (registrants ns4)) = left"
    unfolding left_def regs4 filter_filter
    using others_are_not_own [OF inv reg host] by (auto intro: arg_cong [of _ _ "map hostid"] filter_cong)
  have gone: "nvmf_ns_reservation_get_unregistered_hostid
      (map hostid (filter (\<lambda>r. r \<noteq> reg) (registrants ns))) left = gone"
    unfolding gone_def left_def by (rule unregistered_split [OF inv])
  have len: "length gone \<le> MAX_NUM_REGISTRANTS"
    using order_trans [OF length_filter_le resv_invD(3) [OF inv]] by (simp add: gone_def)
  obtain p where p: "racqa cmd = 2 \<Longrightarrow> preempt_abort ns4 = Some p" using pa0 frame4(2) by auto
  define ns5 where "ns5 = (if racqa cmd = 2 then ns4\<lparr>preempt_abort := Some \<lparr>pa_hostids = gone,
    pa_io_waiting_done = False, pa_hostids_gen = pa_hostids_gen p + 1, pa_timeout_ticks = 0\<rparr>\<rparr> else ns4)"
  let ?notices = "nvmf_subsystem_gen_ctrlr_notification ctrlrs ns gone REGISTRATION_PREEMPTED @
    nvmf_subsystem_gen_ctrlr_notification ctrlrs ns left RESERVATION_RELEASED"
  have exit: "resv_preempt_exit ctrlrs (racqa cmd = 2) True
      (map hostid (filter (\<lambda>r. r \<noteq> reg) (registrants ns))) ns4 ctrlr = Inr (?notices, ns5)"
    unfolding ns5_def notification_cong [OF frame4(1), symmetric]
    by (rule preempt_exit_eq [OF inv4 new gone len p])
  have reg_find: "nvmf_ns_reservation_get_registrant ns ?h = Some reg"
    using get_registrant_iff [OF inv] reg host by blast
  have c: "racqa cmd \<noteq> 0" "\<not> 6 < acq_rtype cmd" using cmd(3,4) by (auto simp: not_less)
  have "nvmf_ns_reservation_acquire ctrlrs True ns ctrlr cmd = Inr (True, SC_SUCCESS, ?notices, ns5)"
    unfolding nvmf_ns_reservation_acquire_def cmd(1) reg_find Let_def ns0_def [symmetric]
      all_other_hostid_eq [OF ns0(1)] old
    using cmd(2,4) c key pre exit by simp
  moreover have "registrants ns5 = filter (\<lambda>r. rkey r \<noteq> prkey \<or> r = reg) (registrants ns) \<and>
      holder ns5 = Some (reg_addr reg) \<and> rtype ns5 = acq_rtype cmd \<and> crkey ns5 = key"
    using regs4 by (simp add: ns5_def ns4_def)
  moreover have "racqa cmd = 2 \<longrightarrow> (\<exists>p. preempt_abort ns5 = Some p \<and> pa_hostids p = gone)"
    by (simp add: ns5_def)
  ultimately show ?thesis unfolding Let_def gone_def [symmetric] left_def [symmetric] by blast
qed

lemma preempt_takes_over_witness:
  "\<exists>ns' notices. nvmf_ns_reservation_acquire [host 1, host 2] True (two_regs 1 17 (Some 100)) (host 2)
       (acq_cmd 2 3 34 17) = Inr (True, SC_SUCCESS, notices, ns') \<and>
     registrants ns' = [\<lparr>reg_addr = 200, hostid = 2, rkey = 34, cntlid = 2\<rparr>] \<and>
     holder ns' = Some 200 \<and> rtype ns' = 3 \<and> crkey ns' = 34"
proof -
  let ?ns = "two_regs 1 17 (Some 100)"
  let ?r = "\<lparr>reg_addr = 200, hostid = 2, rkey = 34, cntlid = 2\<rparr> :: nvmf_registrant"
  have inv: "resv_inv ?ns" by (rule two_regs_inv) code_simp
  have "?r \<in> set (registrants ?ns)" "hostid ?r = ctrlr_hostid (host 2)" "rkey ?r = 34"
    "holder ?ns = Some 100" "100 \<noteq> reg_addr ?r" "\<not> all_regs_rtype (rtype ?ns)" "crkey ?ns = 17"
    "acq_keys (acq_cmd 2 3 34 17) = Some (34, 17)" "\<not> acq_iekey (acq_cmd 2 3 34 17)"
    "acq_rtype (acq_cmd 2 3 34 17) \<le> 6"
    "racqa (acq_cmd 2 3 34 17) = 1 \<or> racqa (acq_cmd 2 3 34 17) = 2"
    by (simp_all add: two_regs_def host_def fresh_ns_def acq_cmd_def all_regs_rtype_def)
  from preempt_takes_over [OF inv this, of "[host 1, host 2]"]
  obtain ns' notices where "nvmf_ns_reservation_acquire [host 1, host 2] True ?ns (host 2)
       (acq_cmd 2 3 34 17) = Inr (True, SC_SUCCESS, notices, ns')"
    "registrants ns' = filter (\<lambda>r. rkey r \<noteq> 17 \<or> r = ?r) (registrants ?ns)"
    "holder ns' = Some (reg_addr ?r)" "rtype ns' = acq_rtype (acq_cmd 2 3 34 17)" "crkey ns' = 34" by metis
  then show ?thesis by (simp add: two_regs_def acq_cmd_def)
qed

section \<open>Persistence\<close>

lemma restore_registrants_eq:
  fixes regs :: "nvmf_registrant list"
  assumes "\<And>u. parse (fmt u) = Some u" and "length regs \<le> length allocs"
  shows "\<exists>h. restore_registrants parse hu allocs (map (\<lambda>r. (fmt (hostid r), rkey r)) regs) h0 ns =
      (None, h, ns\<lparr>registrants := registrants ns @
         map2 (\<lambda>a r. \<lparr>reg_addr = a, hostid = hostid r, rkey = rkey r, cntlid = 0\<rparr>) allocs regs\<rparr>) \<and>
    (crkey ns \<noteq> 0 \<longrightarrow> distinct (map hostid regs) \<longrightarrow>
      h = (case find (\<lambda>(a, r). hostid r = hu) (zip allocs regs) of None \<Rightarrow> h0 | Some p \<Rightarrow> Some (fst p))) \<and>
    (crkey ns = 0 \<longrightarrow> h = h0)"
  using assms(2)
proof (induction regs arbitrary: allocs h0 ns)
  case Nil
  then show ?case by simp
next
  case (Cons r regs)
  then obtain a allocs' where al: "allocs = a # allocs'" "length regs \<le> length allocs'"
    by (cases allocs) auto
  let ?reg = "\<lparr>reg_addr = a, hostid = hostid r, rkey = rkey r, cntlid = 0\<rparr>"
  let ?ns = "ns\<lparr>registrants := registrants ns @ [?reg]\<rparr>"
  let ?h0 = "if crkey ns \<noteq> 0 \<and> hu = hostid r then Some a else h0"
  from Cons.IH [OF al(2), of ?h0 ?ns] obtain h where
    h: "restore_registrants parse hu allocs' (map (\<lambda>r. (fmt (hostid r), rkey r)) regs) ?h0 ?ns =
      (None, h, ?ns\<lparr>registrants := registrants ?ns @
         map2 (\<lambda>a r. \<lparr>reg_addr = a, hostid = hostid r, rkey = rkey r, cntlid = 0\<rparr>) allocs' regs\<rparr>)"
    and find: "crkey ns \<noteq> 0 \<longrightarrow> distinct (map hostid regs) \<longrightarrow>
      h = (case find (\<lambda>(a, r). hostid r = hu) (zip allocs' regs) of None \<Rightarrow> ?h0 | Some p \<Rightarrow> Some (fst p))"
    and zero: "crkey ns = 0 \<longrightarrow> h = ?h0" by auto
  have "find (\<lambda>(a, r). hostid r = hu) (zip allocs' regs) = None"
    if hu: "hostid r = hu" "distinct (map hostid (r # regs))"
  proof -
    have "hostid b \<noteq> hu" if "(a, b) \<in> set (zip allocs' regs)" for a b
      using hu set_zip_rightD [OF that] by (metis distinct.simps(2) image_eqI list.set_map list.simps(9))
    then show ?thesis by (auto simp: find_None_iff)
  qed
  then have "crkey ns \<noteq> 0 \<longrightarrow> distinct (map hostid (r # regs)) \<longrightarrow>
      h = (case find (\<lambda>(a, r). hostid r = hu) (zip allocs (r # regs)) of None \<Rightarrow> h0 | Some p \<Rightarrow> Some (fst p))"
    using find al(1) by (cases "hostid r = hu") auto
  moreover have "restore_registrants parse hu allocs (map (\<lambda>r. (fmt (hostid r), rkey r)) (r # regs)) h0 ns =
      (None, h, ns\<lparr>registrants := registrants ns @
         map2 (\<lambda>a r. \<lparr>reg_addr = a, hostid = hostid r, rkey = rkey r, cntlid = 0\<rparr>) allocs (r # regs)\<rparr>)"
    using h al(1) assms(1) by (simp add: parse_or_def Let_def)
  ultimately show ?case using zero by (intro exI [of _ h]) auto
qed

abbreviation restored :: "nat list \<Rightarrow> nvmf_registrant list \<Rightarrow> nvmf_registrant list" where
  "restored allocs regs \<equiv>
     map2 (\<lambda>a r. \<lparr>reg_addr = a, hostid = hostid r, rkey = rkey r, cntlid = 0\<rparr>) allocs regs"

lemma restored_maps:
  assumes "length regs \<le> length allocs"
  shows "map hostid (restored allocs regs) = map hostid regs" and "map rkey (restored allocs regs) = map rkey regs"
    and "map reg_addr (restored allocs regs) = take (length regs) allocs"
proof -
  have "map snd (zip allocs regs) = regs" "map fst (zip allocs regs) = take (length regs) allocs"
    using assms by (simp_all add: map_snd_zip_take map_fst_zip_take min_def)
  moreover have "map hostid (restored allocs regs) = map hostid (map snd (zip allocs regs))"
    "map rkey (restored allocs regs) = map rkey (map snd (zip allocs regs))"
    "map reg_addr (restored allocs regs) = map fst (zip allocs regs)"
    by (simp_all add: split_beta)
  ultimately show "map hostid (restored allocs regs) = map hostid regs"
    "map rkey (restored allocs regs) = map rkey regs"
    "map reg_addr (restored allocs regs) = take (length regs) allocs" by (simp_all only:)
qed

lemma restored_first:
  assumes "regs \<noteq> []" and "length regs \<le> length allocs"
  obtains x xs where "restored allocs regs = x # xs" and "reg_addr x = hd allocs"
proof -
  obtain r rs where r: "regs = r # rs" using assms(1) by (cases regs) auto
  then obtain a as where "allocs = a # as" using assms(2) by (cases allocs) auto
  then show ?thesis
    using that [of "\<lparr>reg_addr = a, hostid = hostid r, rkey = rkey r, cntlid = 0\<rparr>" "restored as rs"] r
    by simp
qed

lemma ptpl_update_eq:
  assumes inv: "resv_inv ns" and held: "holder ns = None \<or> rtype ns \<noteq> 0"
  shows "nvmf_ns_reservation_ptpl_update fmt ns = Inr
    \<lparr>info_crkey = crkey ns, info_rtype = rtype ns, info_ptpl_activated = ptpl_activated ns,
     info_bdev_uuid = fmt (ns_bdev_uuid ns),
     info_holder_uuid = (case holder_host ns of
        None \<Rightarrow> [] | Some h \<Rightarrow> if all_regs_rtype (rtype ns) then [] else fmt h),
     info_registrants = map (\<lambda>r. (fmt (hostid r), rkey r)) (registrants ns)\<rparr>"
  using inv
proof (cases rule: holder_host_cases)
  case none
  then show ?thesis using resv_invD(3,5,6) [OF inv]
    by (simp add: nvmf_ns_reservation_ptpl_update_def Let_def c_assert_def)
next
  case (some r)
  then show ?thesis using resv_invD(3) [OF inv] held find_holder [OF inv some(1)]
    by (cases "all_regs_rtype (rtype ns)")
      (simp_all add: nvmf_ns_reservation_ptpl_update_def Let_def c_assert_def
        nvmf_ns_reservation_all_registrants_type_def)
qed

lemma restore_eq:
  fixes regs :: "nvmf_registrant list"
  assumes uuid: "\<And>u. parse (fmt u) = Some u" and "info_ptpl_activated info"
    and regs: "info_registrants info = map (\<lambda>r. (fmt (hostid r), rkey r)) regs" "regs \<noteq> []"
      "distinct (map hostid regs)"
    and "info_crkey info \<in> rkey ` set regs \<or> info_crkey info = 0"
    and "parse_or parse junk (info_bdev_uuid info) = ns_bdev_uuid ns0" "registrants ns0 = []"
    and len: "length regs \<le> length allocs"
  shows "\<exists>h. nvmf_ns_reservation_restore parse junk allocs ns0 info =
      (None, ns0\<lparr>crkey := info_crkey info, rtype := info_rtype info, ptpl_activated := True,
         registrants := restored allocs regs,
         holder := if all_regs_rtype (info_rtype info) then Some (hd allocs) else h\<rparr>) \<and>
    (info_crkey info \<noteq> 0 \<longrightarrow>
      h = map_option fst (find (\<lambda>(a, r). hostid r = parse_or parse junk (info_holder_uuid info)) (zip allocs regs))) \<and>
    (info_crkey info = 0 \<longrightarrow> h = None)"
proof -
  let ?hu = "parse_or parse junk (info_holder_uuid info)"
  let ?ns1 = "ns0\<lparr>crkey := info_crkey info, rtype := info_rtype info, ptpl_activated := True\<rparr>"
  obtain h where rr: "restore_registrants parse ?hu allocs (info_registrants info) None ?ns1 =
      (None, h, ?ns1\<lparr>registrants := restored allocs regs\<rparr>)"
    and h: "info_crkey info \<noteq> 0 \<longrightarrow> h = map_option fst (find (\<lambda>(a, r). hostid r = ?hu) (zip allocs regs))"
      "info_crkey info = 0 \<longrightarrow> h = None"
    using restore_registrants_eq [OF uuid len, of ?hu None ?ns1] regs assms(8)
    by (auto simp: map_option_case)
  have keys: "snd ` set (info_registrants info) = rkey ` set regs" by (simp add: regs(1) image_image)
  have nonempty: "info_registrants info \<noteq> []" using regs(1,2) by simp
  obtain x xs where "restored allocs regs = x # xs" "reg_addr x = hd allocs"
    by (rule restored_first [OF regs(2) len])
  then have first: "(case restored allocs regs of [] \<Rightarrow> None | r # _ \<Rightarrow> Some (reg_addr r)) = Some (hd allocs)"
    by (simp only: list.case)
  have "nvmf_ns_reservation_restore parse junk allocs ns0 info =
      (None, ns0\<lparr>crkey := info_crkey info, rtype := info_rtype info, ptpl_activated := True,
         registrants := restored allocs regs,
         holder := if all_regs_rtype (info_rtype info) then Some (hd allocs) else h\<rparr>)"
    using assms(2,6,7) nonempty rr keys first
    by (simp add: nvmf_ns_reservation_restore_def nvmf_ns_reservation_all_registrants_type_def)
  with h show ?thesis by blast
qed

text \<open>The holder that the restored list gives a reservation that only one host can hold.\<close>

lemma restored_holder:
  assumes inv: "resv_inv ns" and single: "\<not> all_regs_rtype (rtype ns)"
    and len: "length (registrants ns) \<le> length allocs"
    and h: "crkey ns \<noteq> 0 \<longrightarrow> h = map_option fst (find (\<lambda>(a, r). hostid r = hu) (zip allocs (registrants ns)))"
      "crkey ns = 0 \<longrightarrow> h = None"
    and hu: "\<And>u. holder_host ns = Some u \<Longrightarrow> hu = u"
  shows "if holder ns = None then h = None else
    \<exists>x \<in> set (restored allocs (registrants ns)).
      h = Some (reg_addr x) \<and> holder_host ns = Some (hostid x) \<and> crkey ns = rkey x"
proof (cases "holder ns")
  case None
  then show ?thesis using h(2) resv_invD(6) [OF inv] by simp
next
  case (Some a)
  let ?rs = "registrants ns"
  obtain r where r: "r \<in> set ?rs" "reg_addr r = a" "crkey ns = rkey r"
    using resv_inv_holder [OF inv Some] single by metis
  have host: "holder_host ns = Some (hostid r)" using find_holder [OF inv r(1)] r(2) Some by (simp add: holder_host_def)
  have nz: "crkey ns \<noteq> 0" using r resv_invD(4) [OF inv] by simp
  obtain b where b: "(b, r) \<in> set (zip allocs ?rs)"
    using r(1) len by (auto simp: in_set_conv_nth set_zip)
  then obtain b' r' where f: "find (\<lambda>(a, r). hostid r = hu) (zip allocs ?rs) = Some (b', r')"
    using hu [OF host] by (cases "find (\<lambda>(a, r). hostid r = hu) (zip allocs ?rs)") (auto simp: find_None_iff)
  then have z: "(b', r') \<in> set (zip allocs ?rs)" "hostid r' = hostid r"
    using hu [OF host] by (auto simp: find_Some_iff set_conv_nth)
  then have "r' = r" using others_are_not_own [OF inv r(1) refl] set_zip_rightD by metis
  with z(1) have "\<lparr>reg_addr = b', hostid = hostid r, rkey = rkey r, cntlid = 0\<rparr> \<in> set (restored allocs ?rs)"
    by force
  moreover have "h = Some b'" using h(1) nz f by simp
  ultimately have "\<exists>x \<in> set (restored allocs ?rs).
      h = Some (reg_addr x) \<and> holder_host ns = Some (hostid x) \<and> crkey ns = rkey x"
    using host r(3)
    by (intro bexI [of _ "\<lparr>reg_addr = b', hostid = hostid r, rkey = rkey r, cntlid = 0\<rparr>"]) simp_all
  with Some show ?thesis by simp
qed

text \<open>A state with restored registrants satisfies the invariant and has the old holder.\<close>

lemma restored_state:
  assumes inv: "resv_inv ns" and regs: "registrants ns \<noteq> []"
    and allocs: "length (registrants ns) \<le> length allocs" "distinct allocs"
    and h: "\<not> all_regs_rtype (rtype ns) \<Longrightarrow> if holder ns = None then h = None else
      \<exists>x \<in> set (restored allocs (registrants ns)).
        h = Some (reg_addr x) \<and> holder_host ns = Some (hostid x) \<and> crkey ns = rkey x"
    and ns': "registrants ns' = restored allocs (registrants ns)" "rtype ns' = rtype ns" "crkey ns' = crkey ns"
      "holder ns' = (if all_regs_rtype (rtype ns) then Some (hd allocs) else h)"
  shows "resv_inv ns' \<and> (all_regs_rtype (rtype ns) \<or> holder_host ns' = holder_host ns) \<and>
    map (\<lambda>r. (hostid r, rkey r)) (registrants ns') = map (\<lambda>r. (hostid r, rkey r)) (registrants ns)"
proof (intro conjI)
  let ?rs = "registrants ns" and ?all = "all_regs_rtype (rtype ns)"
  note maps = restored_maps [OF allocs(1)]
  have "rkey ` set (restored allocs ?rs) = rkey ` set ?rs"
    using arg_cong [OF maps(2), of set] by (simp only: set_map)
  then have "rkey r \<in> rkey ` set ?rs" if "r \<in> set (registrants ns')" for r
    using imageI [OF that, of rkey] by (simp only: ns'(1))
  then have keys: "\<forall>r \<in> set (registrants ns'). rkey r \<noteq> 0"
    using resv_invD(4) [OF inv] by (metis imageE)
  obtain x0 xs0 where "restored allocs ?rs = x0 # xs0" "reg_addr x0 = hd allocs"
    by (rule restored_first [OF regs allocs(1)])
  then have first: "\<exists>r \<in> set (registrants ns'). reg_addr r = hd allocs" unfolding ns'(1) by simp
  have lists: "distinct (map reg_addr (registrants ns'))" "distinct (map hostid (registrants ns'))"
    "length (registrants ns') \<le> MAX_NUM_REGISTRANTS"
    using allocs resv_invD(2,3) [OF inv]
    by (simp_all only: ns'(1) maps(1,3) distinct_take length_map length_zip min.absorb2)
  have cases: thesis if "?all \<Longrightarrow> thesis"
    and "\<not> ?all \<Longrightarrow> holder ns = None \<Longrightarrow> h = None \<Longrightarrow> thesis"
    and "\<And>x. \<not> ?all \<Longrightarrow> x \<in> set (restored allocs ?rs) \<Longrightarrow> h = Some (reg_addr x) \<Longrightarrow>
      holder_host ns = Some (hostid x) \<Longrightarrow> crkey ns = rkey x \<Longrightarrow> thesis" for thesis
  proof (cases "?all \<or> holder ns = None")
    case True
    then show ?thesis using h that(1,2) by (cases ?all) simp_all
  next
    case False
    then have nh: "\<not> ?all" "holder ns \<noteq> None" by blast+
    have "\<exists>x \<in> set (restored allocs ?rs).
        h = Some (reg_addr x) \<and> holder_host ns = Some (hostid x) \<and> crkey ns = rkey x"
      using h [OF nh(1)] unfolding if_not_P [OF nh(2)] .
    then show ?thesis using that(3) False by blast
  qed
  show inv': "resv_inv ns'"
  proof (rule cases)
    assume ?all
    with lists keys first resv_invD(7) [OF inv] ns'(2-4) show ?thesis by (simp add: resv_inv_def)
  next
    assume "\<not> ?all" "holder ns = None" "h = None"
    with lists keys resv_invD(5,6,7) [OF inv] ns'(2-4) show ?thesis by (simp add: resv_inv_def)
  next
    fix x
    assume one: "\<not> ?all" "x \<in> set (restored allocs ?rs)" "h = Some (reg_addr x)" "crkey ns = rkey x"
    then have "\<exists>r \<in> set (registrants ns'). reg_addr r = reg_addr x \<and> crkey ns = rkey r" unfolding ns'(1) by blast
    with one(1,3) lists keys resv_invD(7) [OF inv] ns'(2-4) show ?thesis by (simp add: resv_inv_def)
  qed
  show "?all \<or> holder_host ns' = holder_host ns"
  proof (rule cases)
    assume "\<not> ?all" "holder ns = None" "h = None"
    then show ?thesis using ns'(4) by (simp add: holder_host_def)
  next
    fix x
    assume one: "\<not> ?all" "x \<in> set (restored allocs ?rs)" "h = Some (reg_addr x)"
      "holder_host ns = Some (hostid x)"
    then have "x \<in> set (registrants ns')" "holder ns' = Some (reg_addr x)" using ns'(1,4) by simp_all
    with find_holder [OF inv'] one(4) show ?thesis by (simp add: holder_host_def)
  qed simp
  have "map (\<lambda>r. (hostid r, rkey r)) rs = zip (map hostid rs) (map rkey rs)" for rs :: "nvmf_registrant list"
    by (induction rs) simp_all
  then show "map (\<lambda>r. (hostid r, rkey r)) (registrants ns') = map (\<lambda>r. (hostid r, rkey r)) ?rs"
    using maps(1,2) by (simp only: ns'(1))
qed

text \<open>C23 (roundtrip). With UUIDs that survive formatting and parsing, restoring what a namespace
  stored for the case of a power loss gives back its registrations, its reservation type and key
  and, unless the type is an all-registrants one, the host that holds it, in a state that satisfies
  the invariant. The namespace has not acquired the reserved type 0, and the key of an
  all-registrants reservation is still one of a registrant.\<close>

theorem ptpl_roundtrip:
  assumes uuid: "\<And>u. parse (fmt u) = Some u"
    and inv: "resv_inv ns" and on: "ptpl_activated ns" and regs: "registrants ns \<noteq> []"
    and held: "holder ns = None \<or> rtype ns \<noteq> 0"
    and key: "all_regs_rtype (rtype ns) \<Longrightarrow> crkey ns \<in> rkey ` set (registrants ns)"
    and allocs: "length (registrants ns) \<le> length allocs" "distinct allocs"
    and fresh: "registrants ns0 = []" "ns_bdev_uuid ns0 = ns_bdev_uuid ns"
  shows "\<exists>info ns'. nvmf_ns_reservation_ptpl_update fmt ns = Inr info \<and>
    nvmf_ns_reservation_restore parse junk allocs ns0 info = (None, ns') \<and>
    map (\<lambda>r. (hostid r, rkey r)) (registrants ns') = map (\<lambda>r. (hostid r, rkey r)) (registrants ns) \<and>
    rtype ns' = rtype ns \<and> crkey ns' = crkey ns \<and>
    (all_regs_rtype (rtype ns) \<or> holder_host ns' = holder_host ns) \<and> resv_inv ns'"
proof -
  let ?rs = "registrants ns" and ?all = "all_regs_rtype (rtype ns)"
  obtain info where upd: "nvmf_ns_reservation_ptpl_update fmt ns = Inr info" and info:
    "info_crkey info = crkey ns" "info_rtype info = rtype ns" "info_ptpl_activated info"
    "info_bdev_uuid info = fmt (ns_bdev_uuid ns)"
    "info_holder_uuid info = (case holder_host ns of None \<Rightarrow> [] | Some h \<Rightarrow> if ?all then [] else fmt h)"
    "info_registrants info = map (\<lambda>r. (fmt (hostid r), rkey r)) ?rs"
  proof (rule that)
    show "nvmf_ns_reservation_ptpl_update fmt ns = Inr (projr (nvmf_ns_reservation_ptpl_update fmt ns))"
      by (simp add: ptpl_update_eq [OF inv held])
  qed (use on in \<open>simp_all add: ptpl_update_eq [OF inv held]\<close>)
  have "crkey ns \<in> rkey ` set ?rs \<or> crkey ns = 0"
    using key resv_invD(6) [OF inv] resv_inv_holder [OF inv] by (metis image_eqI not_Some_eq)
  moreover have "parse_or parse junk (info_bdev_uuid info) = ns_bdev_uuid ns0"
    by (simp add: parse_or_def info(4) uuid fresh(2))
  ultimately obtain h where restore: "nvmf_ns_reservation_restore parse junk allocs ns0 info =
      (None, ns0\<lparr>crkey := crkey ns, rtype := rtype ns, ptpl_activated := True,
         registrants := restored allocs ?rs, holder := if ?all then Some (hd allocs) else h\<rparr>)"
    and h: "crkey ns \<noteq> 0 \<longrightarrow> h = map_option fst (find (\<lambda>(a, r). hostid r =
        parse_or parse junk (info_holder_uuid info)) (zip allocs ?rs))" "crkey ns = 0 \<longrightarrow> h = None"
    using restore_eq [OF uuid info(3) info(6) regs resv_invD(2) [OF inv] _ _ fresh(1) allocs(1)]
    unfolding info(1,2) by blast
  define ns' where "ns' = ns0\<lparr>crkey := crkey ns, rtype := rtype ns, ptpl_activated := True,
    registrants := restored allocs ?rs, holder := if ?all then Some (hd allocs) else h\<rparr>"
  have h_single: "if holder ns = None then h = None else
      \<exists>x \<in> set (restored allocs ?rs). h = Some (reg_addr x) \<and> holder_host ns = Some (hostid x) \<and> crkey ns = rkey x"
    if "\<not> ?all"
    by (rule restored_holder [OF inv that allocs(1) h]) (simp add: info(5) that parse_or_def uuid)
  note st = restored_state [OF inv regs allocs h_single, of ns', unfolded ns'_def, simplified]
  show ?thesis
    using upd restore st by (intro exI [of _ info] exI [of _ ns']) (simp add: ns'_def)
qed

text \<open>A text form of UUIDs that can be parsed back: their binary digits.\<close>

definition bits_fmt :: "uuid \<Rightarrow> string" where
  "bits_fmt u = map (\<lambda>i. if bit u i then CHR ''1'' else CHR ''0'') [0 ..< 128]"

definition bits_parse :: "string \<Rightarrow> uuid option" where
  "bits_parse s = (if length s = 128 then Some (horner_sum of_bool 2 (map ((=) CHR ''1'') s)) else None)"

lemma bits_parse_fmt: "bits_parse (bits_fmt u) = Some u"
proof -
  have "map ((=) CHR ''1'') (bits_fmt u) = map (bit u) [0 ..< 128]"
    by (simp add: bits_fmt_def del: upt_rec_numeral)
  then have "horner_sum of_bool 2 (map ((=) CHR ''1'') (bits_fmt u)) = take_bit 128 u"
    by (simp only: horner_sum_bit_eq_take_bit)
  moreover have "take_bit 128 u = u" using take_bit_length_eq [of u] by simp
  moreover have "length (bits_fmt u) = 128" unfolding bits_fmt_def length_map length_upt by simp
  ultimately show ?thesis unfolding bits_parse_def by simp
qed

lemma ptpl_roundtrip_witness:
  "\<exists>info ns'. nvmf_ns_reservation_ptpl_update bits_fmt (two_regs 1 17 (Some 100)) = Inr info \<and>
    nvmf_ns_reservation_restore bits_parse 0 [5, 6] fresh_ns info = (None, ns') \<and>
    rtype ns' = 1 \<and> holder_host ns' = Some 1"
proof -
  let ?ns = "two_regs 1 17 (Some 100)"
  have inv: "resv_inv ?ns" by (rule two_regs_inv) code_simp
  have h: "ptpl_activated ?ns" "registrants ?ns \<noteq> []" "holder ?ns = None \<or> rtype ?ns \<noteq> 0"
    "\<not> all_regs_rtype (rtype ?ns)" "length (registrants ?ns) \<le> length [5, 6 :: nat]" "distinct [5, 6 :: nat]"
    "registrants fresh_ns = []" "ns_bdev_uuid fresh_ns = ns_bdev_uuid ?ns" "rtype ?ns = 1"
    "holder_host ?ns = Some 1"
    by (simp_all add: two_regs_def fresh_ns_def all_regs_rtype_def holder_host_def)
  from ptpl_roundtrip [of bits_parse bits_fmt, OF bits_parse_fmt inv h(1-3) _ h(5-8), of 0] h(4,9,10)
  show ?thesis by metis
qed

text \<open>Not every stored reservation can be restored: the key of an all-registrants
  reservation stays that of the host that acquired it after that host has unregistered, and the
  restore of a state whose key no registrant has fails with \<^verbatim>\<open>-EINVAL\<close>. Four commands lead there
  from a fresh namespace.\<close>

theorem ptpl_restore_refuses_reachable_state:
  "\<exists>ns. resv_step\<^sup>*\<^sup>* fresh_ns ns \<and> holder ns \<noteq> None \<and> ptpl_activated ns \<and>
    (\<forall>fmt parse junk allocs ns0. \<exists>info. nvmf_ns_reservation_ptpl_update fmt ns = Inr info \<and>
      nvmf_ns_reservation_restore parse junk allocs ns0 info = (Some EINVAL, ns0))"
proof -
  let ?held = "two_regs 5 17 (Some 100)"
  let ?ns = "fresh_ns\<lparr>gen := 3, ptpl_activated := True, rtype := 5, crkey := 17, holder := Some 200,
    registrants := [\<lparr>reg_addr = 200, hostid = 2, rkey = 34, cntlid = 2\<rparr>]\<rparr>"
  have "nvmf_ns_reservation_register [] None ?held (host 1) (reg_cmd 1 17 0) =
      Inr (True, SC_SUCCESS, [], ?ns)" by code_simp
  then have "resv_step ?held ?ns" by (rule resv_step.register [rotated]) auto
  moreover have "resv_step (two_regs 0 0 None) ?held" by (rule two_regs_acquired) code_simp
  ultimately have "resv_step\<^sup>*\<^sup>* fresh_ns ?ns"
    using two_regs_reachable by (meson rtranclp.rtrancl_into_rtrancl)
  then show ?thesis
    by (intro exI [of _ ?ns]) (simp add: nvmf_ns_reservation_ptpl_update_def
        nvmf_ns_reservation_restore_def nvmf_ns_reservation_all_registrants_type_def all_regs_rtype_def
        fresh_ns_def MAX_NUM_REGISTRANTS_def Let_def)
qed

text \<open>The acquire command accepts the reserved reservation type 0: the host becomes
  the holder of a reservation without a type, which refuses the acquire commands of all other
  hosts but lets every host write.\<close>

theorem reserved_type_acquired:
  "\<exists>ns. resv_step\<^sup>*\<^sup>* fresh_ns ns \<and> holder_host ns = Some 1 \<and> rtype ns = 0 \<and>
    nvmf_ns_reservation_acquire [] True ns (host 2) (acq_cmd 0 1 34 0) =
      Inr (False, SC_RESERVATION_CONFLICT, [], ns) \<and>
    (\<exists>pg. nvmf_subsystem_poll_group_update_ns_reservation ns = Inr pg \<and>
      (\<forall>ctrlr. nvmf_ns_reservation_request_check pg ctrlr OPC_WRITE 0 = None))"
proof -
  let ?ns = "two_regs 0 17 (Some 100)"
  have "resv_step (two_regs 0 0 None) ?ns" by (rule two_regs_acquired) simp
  then have reach: "resv_step\<^sup>*\<^sup>* fresh_ns ?ns"
    using two_regs_reachable by (meson rtranclp.rtrancl_into_rtrancl)
  have inv: "resv_inv ?ns" by (rule two_regs_inv) simp
  have conflict: "nvmf_ns_reservation_acquire [] True ?ns (host 2) (acq_cmd 0 1 34 0) =
      Inr (False, SC_RESERVATION_CONFLICT, [], ?ns)" by code_simp
  have "\<exists>pg. nvmf_subsystem_poll_group_update_ns_reservation ?ns = Inr pg \<and> pg_rtype pg = 0"
    using pg_update_eq [OF inv] by (simp add: two_regs_def)
  then have "\<exists>pg. nvmf_subsystem_poll_group_update_ns_reservation ?ns = Inr pg \<and>
      (\<forall>ctrlr. nvmf_ns_reservation_request_check pg ctrlr OPC_WRITE 0 = None)"
    by (auto simp: nvmf_ns_reservation_request_check_def Let_def)
  moreover have "holder_host ?ns = Some 1" "rtype ?ns = 0" by (simp_all add: two_regs_def holder_host_def)
  ultimately show ?thesis using reach conflict by blast
qed

end
