(* ===== verification/Endian.thy ===== *)
theory Endian
  imports SPDK_Prelude
begin

text \<open>
  The big-endian accessors of \<^verbatim>\<open>include/spdk/endian.h\<close> and stores into byte buffers. A store
  outside its buffer is undefined behaviour.
\<close>

section \<open>Accessors\<close>

definition to_be16 :: "u16 \<Rightarrow> u8 list" where
  "to_be16 x = [ucast (drop_bit 8 x AND 0xFF), ucast (x AND 0xFF)]"

definition to_be32 :: "u32 \<Rightarrow> u8 list" where
  "to_be32 x = [ucast (drop_bit 24 x AND 0xFF), ucast (drop_bit 16 x AND 0xFF),
     ucast (drop_bit 8 x AND 0xFF), ucast (x AND 0xFF)]"

definition to_be64 :: "u64 \<Rightarrow> u8 list" where
  "to_be64 x = [ucast (drop_bit 56 x AND 0xFF), ucast (drop_bit 48 x AND 0xFF),
     ucast (drop_bit 40 x AND 0xFF), ucast (drop_bit 32 x AND 0xFF),
     ucast (drop_bit 24 x AND 0xFF), ucast (drop_bit 16 x AND 0xFF),
     ucast (drop_bit 8 x AND 0xFF), ucast (x AND 0xFF)]"

definition from_be32 :: "u8 list \<Rightarrow> u32" where
  "from_be32 tmp = push_bit 24 (ucast (tmp ! 0)) OR push_bit 16 (ucast (tmp ! 1)) OR
     push_bit 8 (ucast (tmp ! 2)) OR ucast (tmp ! 3)"

definition from_be64 :: "u8 list \<Rightarrow> u64" where
  "from_be64 tmp = push_bit 56 (ucast (tmp ! 0)) OR push_bit 48 (ucast (tmp ! 1)) OR
     push_bit 40 (ucast (tmp ! 2)) OR push_bit 32 (ucast (tmp ! 3)) OR
     push_bit 24 (ucast (tmp ! 4)) OR push_bit 16 (ucast (tmp ! 5)) OR
     push_bit 8 (ucast (tmp ! 6)) OR ucast (tmp ! 7)"

lemma length_to_be [simp]:
  "length (to_be16 a) = 2" "length (to_be32 b) = 4" "length (to_be64 c) = 8"
  by (simp_all add: to_be16_def to_be32_def to_be64_def)

text \<open>The byte of a word at a position, and a word put together from its bytes.\<close>

lemma bit_byte_at:
  "bit (push_bit k (ucast (ucast (drop_bit k x AND 0xFF :: 'a::len word) :: u8)) :: 'a word) n \<longleftrightarrow>
    k \<le> n \<and> n < k + 8 \<and> bit x n"
proof -
  have "drop_bit k x AND 0xFF = take_bit 8 (drop_bit k x)"
    by (simp add: take_bit_eq_mask mask_eq_exp_minus_1)
  then show ?thesis
    by (auto simp: bit_push_bit_iff bit_ucast_iff bit_take_bit_iff bit_drop_bit_eq possible_bit_word
        dest: bit_imp_le_length)
qed

lemmas bit_byte_0 = bit_byte_at [of 0, simplified]

lemma from_be32_to_be32 [simp]: "from_be32 (to_be32 x @ zs) = x"
proof (rule bit_word_eqI)
  show "bit (from_be32 (to_be32 x @ zs)) n = bit x n" if "n < LENGTH(32)" for n
    using that by (simp add: from_be32_def to_be32_def bit_or_iff bit_byte_at bit_byte_0 del: bit_push_bit_iff)
      arith
qed

lemma from_be64_to_be64 [simp]: "from_be64 (to_be64 x @ zs) = x"
proof (rule bit_word_eqI)
  show "bit (from_be64 (to_be64 x @ zs)) n = bit x n" if "n < LENGTH(64)" for n
    using that by (simp add: from_be64_def to_be64_def bit_or_iff bit_byte_at bit_byte_0 del: bit_push_bit_iff)
      arith
qed

section \<open>Buffers\<close>

definition store_bytes :: "nat \<Rightarrow> u8 list \<Rightarrow> u8 list \<Rightarrow> u8 list res" where
  "store_bytes off bs data =
     (if off + length bs \<le> length data then Inr (take off data @ bs @ drop (off + length bs) data)
      else Inl Undefined)"

lemma store_bytes_ok:
  "off + length bs \<le> length data \<Longrightarrow>
    store_bytes off bs data = Inr (take off data @ bs @ drop (off + length bs) data)"
  by (simp add: store_bytes_def)

lemma store_bytes_length: "store_bytes off bs data = Inr data' \<Longrightarrow> length data' = length data"
  by (auto simp: store_bytes_def split: if_splits)

end
