(* ===== verification/Scsi_PR.thy ===== *)
theory Scsi_PR
  imports Endian
begin

text \<open>
  The persistent reservations of a SCSI logical unit and the SPC-2 reserve and release commands
  (\<^verbatim>\<open>lib/scsi/scsi_pr.c\<close>), with the check and the dispatch of a task
  (\<^verbatim>\<open>lib/scsi/lun.c\<close>, \<^verbatim>\<open>lib/scsi/scsi_bdev.c\<close>). This theory holds the definitions,
  \<open>Scsi_PR_Inv\<close> the invariant and \<open>Scsi_PR_Props\<close> the properties.
\<close>

section \<open>Data\<close>

text \<open>Ports and registrants are objects that the code compares by address.\<close>

record scsi_port =
  port_addr :: nat
  port_index :: u16
  port_transport_id :: "u8 list"
  port_name :: string

record scsi_registrant =
  sreg_addr :: nat
  sreg_rkey :: u64
  relative_target_port_id :: u16
  transport_id :: "u8 list"
  initiator_port_name :: string
  target_port_name :: string
  initiator_port :: "nat option"
  target_port :: "nat option"

text \<open>The holder of a reservation is a registrant or the registrant object inside the LUN that
  stands for an SPC-2 reservation.\<close>

datatype holder_ptr = REG nat | SCSI2_HOLDER

record scsi_pr_reservation =
  resv_flags :: u32
  resv_holder :: "holder_ptr option"
  resv_rtype :: u8
  resv_crkey :: u64

record scsi_lun =
  pr_generation :: u32
  reg_head :: "scsi_registrant list"
  reservation :: scsi_pr_reservation
  scsi2_holder :: scsi_registrant

record scsi_task =
  task_initiator_port :: "scsi_port option"
  task_target_port :: "scsi_port option"
  task_cdb :: "u8 list"

datatype scsi_sc = GOOD | CHECK_CONDITION | RESERVATION_CONFLICT
datatype scsi_sk = NO_SENSE | NOT_READY | ILLEGAL_REQUEST
datatype scsi_asc = NO_ADDITIONAL_SENSE | INVALID_FIELD_IN_CDB

text \<open>The status of a task: status code, sense key and additional sense code.\<close>

type_synonym task_status = "scsi_sc \<times> scsi_sk \<times> scsi_asc"

abbreviation status_good :: task_status where
  "status_good \<equiv> (GOOD, NO_SENSE, NO_ADDITIONAL_SENSE)"

abbreviation status_conflict :: task_status where
  "status_conflict \<equiv> (RESERVATION_CONFLICT, NO_SENSE, NO_ADDITIONAL_SENSE)"

abbreviation status_invalid :: task_status where
  "status_invalid \<equiv> (CHECK_CONDITION, ILLEGAL_REQUEST, INVALID_FIELD_IN_CDB)"

abbreviation status_not_ready :: task_status where
  "status_not_ready \<equiv> (CHECK_CONDITION, NOT_READY, NO_ADDITIONAL_SENSE)"

text \<open>What a command returns: its error, if any, the status it set and the LUN.\<close>

type_synonym scsi_out = "errno option \<times> task_status \<times> scsi_lun"

abbreviation PR_WRITE_EXCLUSIVE :: u8 where "PR_WRITE_EXCLUSIVE \<equiv> 1"
abbreviation PR_EXCLUSIVE_ACCESS :: u8 where "PR_EXCLUSIVE_ACCESS \<equiv> 3"
abbreviation PR_WRITE_EXCLUSIVE_REGS_ONLY :: u8 where "PR_WRITE_EXCLUSIVE_REGS_ONLY \<equiv> 5"
abbreviation PR_EXCLUSIVE_ACCESS_REGS_ONLY :: u8 where "PR_EXCLUSIVE_ACCESS_REGS_ONLY \<equiv> 6"
abbreviation PR_WRITE_EXCLUSIVE_ALL_REGS :: u8 where "PR_WRITE_EXCLUSIVE_ALL_REGS \<equiv> 7"
abbreviation PR_EXCLUSIVE_ACCESS_ALL_REGS :: u8 where "PR_EXCLUSIVE_ACCESS_ALL_REGS \<equiv> 8"

abbreviation PR_OUT_REGISTER :: u8 where "PR_OUT_REGISTER \<equiv> 0"
abbreviation PR_OUT_RESERVE :: u8 where "PR_OUT_RESERVE \<equiv> 1"
abbreviation PR_OUT_RELEASE :: u8 where "PR_OUT_RELEASE \<equiv> 2"
abbreviation PR_OUT_CLEAR :: u8 where "PR_OUT_CLEAR \<equiv> 3"
abbreviation PR_OUT_PREEMPT :: u8 where "PR_OUT_PREEMPT \<equiv> 4"
abbreviation PR_OUT_PREEMPT_AND_ABORT :: u8 where "PR_OUT_PREEMPT_AND_ABORT \<equiv> 5"
abbreviation PR_OUT_REG_AND_IGNORE_KEY :: u8 where "PR_OUT_REG_AND_IGNORE_KEY \<equiv> 6"

abbreviation SPC_PERSISTENT_RESERVE_IN :: u8 where "SPC_PERSISTENT_RESERVE_IN \<equiv> 0x5e"
abbreviation SPC_PERSISTENT_RESERVE_OUT :: u8 where "SPC_PERSISTENT_RESERVE_OUT \<equiv> 0x5f"
abbreviation SPC2_RESERVE_6 :: u8 where "SPC2_RESERVE_6 \<equiv> 0x16"
abbreviation SPC2_RESERVE_10 :: u8 where "SPC2_RESERVE_10 \<equiv> 0x56"
abbreviation SPC2_RELEASE_6 :: u8 where "SPC2_RELEASE_6 \<equiv> 0x17"
abbreviation SPC2_RELEASE_10 :: u8 where "SPC2_RELEASE_10 \<equiv> 0x57"
abbreviation SPC_INQUIRY :: u8 where "SPC_INQUIRY \<equiv> 0x12"

abbreviation SCSI_SPC2_RESERVE :: u32 where "SCSI_SPC2_RESERVE \<equiv> 1"

text \<open>A reservation after \<^verbatim>\<open>memset\<close> with zero.\<close>

definition no_reservation :: scsi_pr_reservation where
  "no_reservation = \<lparr>resv_flags = 0, resv_holder = None, resv_rtype = 0, resv_crkey = 0\<rparr>"

definition no_registrant :: scsi_registrant where
  "no_registrant = \<lparr>sreg_addr = 0, sreg_rkey = 0, relative_target_port_id = 0, transport_id = [],
     initiator_port_name = [], target_port_name = [], initiator_port = None, target_port = None\<rparr>"

section \<open>Registrants\<close>

definition scsi_pr_get_registrant ::
  "scsi_lun \<Rightarrow> scsi_port option \<Rightarrow> scsi_port option \<Rightarrow> scsi_registrant option" where
  "scsi_pr_get_registrant lun ip tp =
     find (\<lambda>reg. map_option port_addr ip = initiator_port reg \<and> map_option port_addr tp = target_port reg)
       (reg_head lun)"

text \<open>The object a holder pointer refers to; a registrant that has been freed is not found.\<close>

definition holder_object :: "scsi_lun \<Rightarrow> holder_ptr \<Rightarrow> scsi_registrant option" where
  "holder_object lun h =
     (case h of REG a \<Rightarrow> find (\<lambda>reg. sreg_addr reg = a) (reg_head lun) | SCSI2_HOLDER \<Rightarrow> Some (scsi2_holder lun))"

definition scsi2_it_nexus_is_holder ::
  "scsi_lun \<Rightarrow> scsi_port option \<Rightarrow> scsi_port option \<Rightarrow> bool res" where
  "scsi2_it_nexus_is_holder lun ip tp =
     (case resv_holder (reservation lun) of
        None \<Rightarrow> Inl AssertFail
      | Some h \<Rightarrow>
          (case holder_object lun h of
             None \<Rightarrow> Inl Undefined
           | Some reg \<Rightarrow> Inr (initiator_port reg = map_option port_addr ip \<and>
                               target_port reg = map_option port_addr tp)))"

definition all_registrants_type :: "u8 \<Rightarrow> bool" where
  "all_registrants_type t = (t = PR_WRITE_EXCLUSIVE_ALL_REGS \<or> t = PR_EXCLUSIVE_ACCESS_ALL_REGS)"

definition scsi_pr_is_all_registrants_type :: "scsi_lun \<Rightarrow> bool" where
  "scsi_pr_is_all_registrants_type lun = all_registrants_type (resv_rtype (reservation lun))"

definition scsi_pr_registrant_is_holder :: "scsi_lun \<Rightarrow> scsi_registrant option \<Rightarrow> bool" where
  "scsi_pr_registrant_is_holder lun reg =
     (if reg \<noteq> None \<and> scsi_pr_is_all_registrants_type lun then True
      else resv_holder (reservation lun) = map_option (\<lambda>r. REG (sreg_addr r)) reg)"

definition scsi_pr_has_reservation :: "scsi_lun \<Rightarrow> bool" where
  "scsi_pr_has_reservation lun = (resv_holder (reservation lun) \<noteq> None)"

text \<open>\<open>alloc\<close> is the address \<^verbatim>\<open>calloc\<close> returns, if it succeeds.\<close>

definition scsi_pr_register_registrant ::
  "nat option \<Rightarrow> scsi_lun \<Rightarrow> scsi_port option \<Rightarrow> scsi_port option \<Rightarrow> u64 \<Rightarrow> errno option \<times> scsi_lun" where
  "scsi_pr_register_registrant alloc lun ip tp sa_rkey =
     (case alloc of
        None \<Rightarrow> (Some ENOMEM, lun)
      | Some a \<Rightarrow>
          (None, lun\<lparr>reg_head := reg_head lun @
             [\<lparr>sreg_addr = a, sreg_rkey = sa_rkey,
               relative_target_port_id = (case tp of None \<Rightarrow> 0 | Some p \<Rightarrow> port_index p),
               transport_id = (case ip of None \<Rightarrow> [] | Some p \<Rightarrow> port_transport_id p),
               initiator_port_name = (case ip of None \<Rightarrow> [] | Some p \<Rightarrow> port_name p),
               target_port_name = (case tp of None \<Rightarrow> [] | Some p \<Rightarrow> port_name p),
               initiator_port = map_option port_addr ip,
               target_port = map_option port_addr tp\<rparr>],
             pr_generation := pr_generation lun + 1\<rparr>))"

definition scsi_pr_release_reservation :: "scsi_lun \<Rightarrow> scsi_registrant \<Rightarrow> scsi_lun" where
  "scsi_pr_release_reservation lun reg =
     (case (if scsi_pr_is_all_registrants_type lun
            then find (\<lambda>curr_reg. sreg_addr curr_reg \<noteq> sreg_addr reg) (reg_head lun) else None) of
        Some curr_reg \<Rightarrow>
          lun\<lparr>reservation := (reservation lun)\<lparr>resv_holder := Some (REG (sreg_addr curr_reg)),
                resv_crkey := sreg_rkey curr_reg\<rparr>\<rparr>
      | None \<Rightarrow> lun\<lparr>reservation := no_reservation\<rparr>)"

definition scsi_pr_reserve_reservation :: "scsi_lun \<Rightarrow> u8 \<Rightarrow> u64 \<Rightarrow> scsi_registrant \<Rightarrow> scsi_lun" where
  "scsi_pr_reserve_reservation lun t rkey reg =
     lun\<lparr>reservation := (reservation lun)\<lparr>resv_rtype := t, resv_crkey := rkey,
           resv_holder := Some (REG (sreg_addr reg))\<rparr>\<rparr>"

definition scsi_pr_unregister_registrant :: "scsi_lun \<Rightarrow> scsi_registrant \<Rightarrow> scsi_lun" where
  "scsi_pr_unregister_registrant lun reg =
     (let lun1 = lun\<lparr>reg_head := filter (\<lambda>r. sreg_addr r \<noteq> sreg_addr reg) (reg_head lun)\<rparr>;
          lun2 = (if scsi_pr_registrant_is_holder lun1 (Some reg)
                  then scsi_pr_release_reservation lun1 reg else lun1)
      in lun2\<lparr>pr_generation := pr_generation lun2 + 1\<rparr>)"

definition scsi_pr_replace_registrant_key :: "scsi_lun \<Rightarrow> scsi_registrant \<Rightarrow> u64 \<Rightarrow> scsi_lun" where
  "scsi_pr_replace_registrant_key lun reg sa_rkey =
     (let lun1 = (if resv_holder (reservation lun) = Some (REG (sreg_addr reg))
                  then lun\<lparr>reservation := (reservation lun)\<lparr>resv_crkey := sa_rkey\<rparr>\<rparr> else lun)
      in lun1\<lparr>reg_head := map (\<lambda>r. if sreg_addr r = sreg_addr reg then r\<lparr>sreg_rkey := sa_rkey\<rparr> else r)
               (reg_head lun1),
              pr_generation := pr_generation lun1 + 1\<rparr>)"

text \<open>\<^verbatim>\<open>TAILQ_FOREACH_SAFE\<close> over the registrants as they are at the start of the loop.\<close>

fun unregister_loop :: "(scsi_registrant \<Rightarrow> bool) \<Rightarrow> scsi_registrant list \<Rightarrow> scsi_lun \<Rightarrow> scsi_lun" where
  "unregister_loop P [] lun = lun"
| "unregister_loop P (reg # regs) lun =
     unregister_loop P regs (if P reg then scsi_pr_unregister_registrant lun reg else lun)"

definition scsi_pr_remove_all_regs_by_key :: "scsi_lun \<Rightarrow> u64 \<Rightarrow> scsi_lun" where
  "scsi_pr_remove_all_regs_by_key lun sa_rkey =
     unregister_loop (\<lambda>reg. sreg_rkey reg = sa_rkey) (reg_head lun) lun"

definition scsi_pr_remove_all_other_regs :: "scsi_lun \<Rightarrow> scsi_registrant \<Rightarrow> scsi_lun" where
  "scsi_pr_remove_all_other_regs lun reg =
     unregister_loop (\<lambda>r. sreg_addr r \<noteq> sreg_addr reg) (reg_head lun) lun"

section \<open>Persistent reserve out\<close>

text \<open>The flags \<^verbatim>\<open>spec_i_pt\<close>, \<^verbatim>\<open>all_tg_pt\<close> and \<^verbatim>\<open>aptpl\<close> of the parameter list are
  unsupported; \<open>unsupported\<close> says that one of them is set.\<close>

definition scsi_pr_out_reserve :: "scsi_lun \<Rightarrow> scsi_task \<Rightarrow> u8 \<Rightarrow> u64 \<Rightarrow> bool \<Rightarrow> scsi_out" where
  "scsi_pr_out_reserve lun task rtype rkey unsupported =
     (if unsupported then (Some EINVAL, status_invalid, lun)
      else
        (case scsi_pr_get_registrant lun (task_initiator_port task) (task_target_port task) of
           None \<Rightarrow> (Some EINVAL, status_conflict, lun)
         | Some reg \<Rightarrow>
             if sreg_rkey reg \<noteq> rkey then (Some EINVAL, status_conflict, lun)
             else if scsi_pr_has_reservation lun then
               (if rtype \<noteq> resv_rtype (reservation lun) then (Some EINVAL, status_conflict, lun)
                else if \<not> scsi_pr_registrant_is_holder lun (Some reg)
                  then (Some EINVAL, status_conflict, lun)
                else (None, status_good, lun))
             else (None, status_good, scsi_pr_reserve_reservation lun rtype rkey reg)))"

definition scsi_pr_out_register ::
  "nat option \<Rightarrow> scsi_lun \<Rightarrow> scsi_task \<Rightarrow> u8 \<Rightarrow> u64 \<Rightarrow> u64 \<Rightarrow> bool \<Rightarrow> scsi_out" where
  "scsi_pr_out_register alloc lun task action rkey sa_rkey unsupported =
     (if unsupported then (Some EINVAL, status_invalid, lun)
      else
        (case scsi_pr_get_registrant lun (task_initiator_port task) (task_target_port task) of
           None \<Rightarrow>
             if rkey \<noteq> 0 \<and> action = PR_OUT_REGISTER then (Some EINVAL, status_conflict, lun)
             else if sa_rkey = 0 then (None, status_good, lun)
             else
               (let (rc, lun') = scsi_pr_register_registrant alloc lun (task_initiator_port task)
                                   (task_target_port task) sa_rkey
                in (rc, status_good, lun'))
         | Some reg \<Rightarrow>
             if rkey \<noteq> sreg_rkey reg \<and> action = PR_OUT_REGISTER
               then (Some EINVAL, status_conflict, lun)
             else if sa_rkey = 0 then (None, status_good, scsi_pr_unregister_registrant lun reg)
             else (None, status_good, scsi_pr_replace_registrant_key lun reg sa_rkey)))"

definition scsi_pr_out_release :: "scsi_lun \<Rightarrow> scsi_task \<Rightarrow> u8 \<Rightarrow> u64 \<Rightarrow> scsi_out" where
  "scsi_pr_out_release lun task rtype rkey =
     (case scsi_pr_get_registrant lun (task_initiator_port task) (task_target_port task) of
        None \<Rightarrow> (Some EINVAL, status_not_ready, lun)
      | Some reg \<Rightarrow>
          if \<not> scsi_pr_has_reservation lun then (None, status_good, lun)
          else if resv_rtype (reservation lun) \<noteq> rtype \<or> rkey \<noteq> resv_crkey (reservation lun)
            then (Some EINVAL, status_invalid, lun)
          else if \<not> scsi_pr_registrant_is_holder lun (Some reg) then (None, status_good, lun)
          else (None, status_good, scsi_pr_release_reservation lun reg))"

definition scsi_pr_out_clear :: "scsi_lun \<Rightarrow> scsi_task \<Rightarrow> u64 \<Rightarrow> scsi_out" where
  "scsi_pr_out_clear lun task rkey =
     (case scsi_pr_get_registrant lun (task_initiator_port task) (task_target_port task) of
        None \<Rightarrow> (Some EINVAL, status_not_ready, lun)
      | Some reg \<Rightarrow>
          if rkey \<noteq> sreg_rkey reg then (Some EINVAL, status_conflict, lun)
          else (None, status_good, unregister_loop (\<lambda>_. True) (reg_head lun) lun))"

definition scsi_pr_out_preempt :: "scsi_lun \<Rightarrow> scsi_task \<Rightarrow> u8 \<Rightarrow> u64 \<Rightarrow> u64 \<Rightarrow> scsi_out res" where
  "scsi_pr_out_preempt lun task rtype rkey sa_rkey =
     (let exit = (\<lambda>l. Inr (None, status_good, l\<lparr>pr_generation := pr_generation l + 1\<rparr>)) in
      case scsi_pr_get_registrant lun (task_initiator_port task) (task_target_port task) of
        None \<Rightarrow> Inr (Some EINVAL, status_conflict, lun)
      | Some reg \<Rightarrow>
          if rkey \<noteq> sreg_rkey reg then Inr (Some EINVAL, status_conflict, lun)
          else if \<not> scsi_pr_has_reservation lun then exit (scsi_pr_remove_all_regs_by_key lun sa_rkey)
          else if scsi_pr_is_all_registrants_type lun then
            (if sa_rkey \<noteq> 0 then exit (scsi_pr_remove_all_regs_by_key lun sa_rkey)
             else exit (scsi_pr_reserve_reservation (scsi_pr_remove_all_other_regs lun reg) rtype 0 reg))
          else
            c_assert (resv_crkey (reservation lun) \<noteq> 0)
              (if sa_rkey \<noteq> resv_crkey (reservation lun) then
                 (if sa_rkey = 0 then Inr (Some EINVAL, status_invalid, lun)
                  else exit (scsi_pr_remove_all_regs_by_key lun sa_rkey))
               else if scsi_pr_registrant_is_holder lun (Some reg)
                 then exit (scsi_pr_reserve_reservation lun rtype rkey reg)
               else
                 (let lun1 = scsi_pr_remove_all_regs_by_key lun sa_rkey in
                  case scsi_pr_get_registrant lun1 (task_initiator_port task) (task_target_port task) of
                    None \<Rightarrow> Inr (Some EINVAL, status_conflict, lun1)
                  | Some reg1 \<Rightarrow> exit (scsi_pr_reserve_reservation lun1 rtype rkey reg1))))"

text \<open>The parameter list is read from the first 24 bytes of the data, which the caller has
  checked to be there.\<close>

definition scsi_pr_out :: "nat option \<Rightarrow> scsi_lun \<Rightarrow> scsi_task \<Rightarrow> u8 list \<Rightarrow> scsi_out res" where
  "scsi_pr_out alloc lun task data =
     (let action = task_cdb task ! 1 AND 0x0f;
          scope = drop_bit 4 (task_cdb task ! 2) AND 0x0f;
          rtype = task_cdb task ! 2 AND 0x0f;
          rkey = from_be64 data;
          sa_rkey = from_be64 (drop 8 data);
          unsupported = (bit (data ! 20) 3 \<or> bit (data ! 20) 2 \<or> bit (data ! 20) 0);
          invalid = Inr (Some EINVAL, status_invalid, lun)
      in if length data < 24 then Inl Undefined
         else if action = PR_OUT_REGISTER \<or> action = PR_OUT_REG_AND_IGNORE_KEY
           then Inr (scsi_pr_out_register alloc lun task action rkey sa_rkey unsupported)
         else if action = PR_OUT_RESERVE then
           (if scope \<noteq> 0 then invalid else Inr (scsi_pr_out_reserve lun task rtype rkey unsupported))
         else if action = PR_OUT_RELEASE then
           (if scope \<noteq> 0 then invalid else Inr (scsi_pr_out_release lun task rtype rkey))
         else if action = PR_OUT_CLEAR then Inr (scsi_pr_out_clear lun task rkey)
         else if action = PR_OUT_PREEMPT then
           (if scope \<noteq> 0 then invalid else scsi_pr_out_preempt lun task rtype rkey sa_rkey)
         else invalid)"

section \<open>Persistent reserve in\<close>

text \<open>The handlers write into the response buffer; the result is the length they report and the
  buffer. All lengths stay below \<^verbatim>\<open>2 ^ 17\<close>, as \<^verbatim>\<open>data_len\<close> has 16 bits.\<close>

fun read_keys_loop :: "scsi_registrant list \<Rightarrow> nat \<Rightarrow> u8 list \<Rightarrow> (nat \<times> u8 list) res" where
  "read_keys_loop [] count data = Inr (count, data)"
| "read_keys_loop (reg # regs) count data =
     (if (count + 1) * 8 + 8 > length data then Inr (count, data)
      else res_bind (store_bytes (8 + count * 8) (to_be64 (sreg_rkey reg)) data)
             (\<lambda>data'. read_keys_loop regs (count + 1) data'))"

definition scsi_pr_in_read_keys :: "scsi_lun \<Rightarrow> u8 list \<Rightarrow> (nat \<times> u8 list) res" where
  "scsi_pr_in_read_keys lun data =
     res_bind (store_bytes 0 (to_be32 (pr_generation lun)) data) (\<lambda>d1.
     res_bind (read_keys_loop (reg_head lun) 0 d1) (\<lambda>(count, d2).
     res_bind (store_bytes 4 (to_be32 (of_nat (count * 8))) d2) (\<lambda>d3.
       Inr (8 + count * 8, d3))))"

definition scsi_pr_in_read_reservations :: "scsi_lun \<Rightarrow> u8 list \<Rightarrow> (nat \<times> u8 list) res" where
  "scsi_pr_in_read_reservations lun data =
     res_bind (store_bytes 0 (to_be32 (pr_generation lun)) data) (\<lambda>d1.
       if scsi_pr_has_reservation lun then
         res_bind (store_bytes 8 (to_be64 (if scsi_pr_is_all_registrants_type lun then 0
                                           else resv_crkey (reservation lun))) d1) (\<lambda>d2.
         res_bind (store_bytes 4 (to_be32 16) d2) (\<lambda>d3.
         res_bind (store_bytes 21 [resv_rtype (reservation lun) AND 0x0f] d3) (\<lambda>d4.
           Inr (24, d4))))
       else res_bind (store_bytes 4 (to_be32 0) d1) (\<lambda>d2. Inr (8, d2)))"

text \<open>Bytes 2 to 5: \<^verbatim>\<open>crh\<close>, \<^verbatim>\<open>tmv\<close> and the mask of the six types.\<close>

definition scsi_pr_in_report_capabilities :: "u8 list \<Rightarrow> (nat \<times> u8 list) res" where
  "scsi_pr_in_report_capabilities data =
     res_bind (store_bytes 0 (to_be16 8 @ [0x10, 0x80, 0xEA, 0x01, 0, 0]) data) (\<lambda>d. Inr (8, d))"

text \<open>The descriptor of a registrant, up to its transport identifier. The bit fields
  \<^verbatim>\<open>r_holder\<close> and \<^verbatim>\<open>all_tg_pt\<close> share a byte with reserved bits, which keep their value;
  the relative target port identifier is stored in the byte order of the machine.\<close>

definition full_status_desc :: "scsi_lun \<Rightarrow> scsi_registrant \<Rightarrow> nat \<Rightarrow> u8 list \<Rightarrow> u8 list res" where
  "full_status_desc lun reg off data =
     (let h = (scsi_pr_is_all_registrants_type lun \<or>
               resv_holder (reservation lun) = Some (REG (sreg_addr reg))) in
      res_bind (store_bytes off (to_be64 (sreg_rkey reg)) data) (\<lambda>d1.
      res_bind (store_bytes (off + 12)
                  [(d1 ! (off + 12) AND NOT 3) OR (if h then 1 else 0),
                   if h then resv_rtype (reservation lun) AND 0x0f else 0] d1) (\<lambda>d2.
        store_bytes (off + 18)
          [ucast (relative_target_port_id reg), ucast (drop_bit 8 (relative_target_port_id reg))] d2)))"

fun full_status_loop :: "scsi_lun \<Rightarrow> scsi_registrant list \<Rightarrow> nat \<Rightarrow> u8 list \<Rightarrow> (nat \<times> u8 list) res" where
  "full_status_loop lun [] add_len data = Inr (add_len, data)"
| "full_status_loop lun (reg # regs) add_len data =
     (if add_len + 24 + 8 > length data then Inr (add_len, data)
      else res_bind (full_status_desc lun reg (8 + add_len) data) (\<lambda>d1.
        if add_len + 24 + length (transport_id reg) + 8 > length data then Inr (add_len + 24, d1)
        else res_bind (store_bytes (8 + add_len + 24) (transport_id reg) d1) (\<lambda>d2.
             res_bind (store_bytes (8 + add_len + 20) (to_be32 (of_nat (length (transport_id reg)))) d2)
               (\<lambda>d3. full_status_loop lun regs (add_len + 24 + length (transport_id reg)) d3))))"

definition scsi_pr_in_read_full_status :: "scsi_lun \<Rightarrow> u8 list \<Rightarrow> (nat \<times> u8 list) res" where
  "scsi_pr_in_read_full_status lun data =
     res_bind (store_bytes 0 (to_be32 (pr_generation lun)) data) (\<lambda>d1.
     res_bind (full_status_loop lun (reg_head lun) 0 d1) (\<lambda>(add_len, d2).
     res_bind (store_bytes 4 (to_be32 (of_nat add_len)) d2) (\<lambda>d3. Inr (8 + add_len, d3))))"

text \<open>\<open>None\<close> is the refusal with \<^verbatim>\<open>-EINVAL\<close> and the status for an invalid field.\<close>

definition scsi_pr_in :: "scsi_lun \<Rightarrow> scsi_task \<Rightarrow> u8 list \<Rightarrow> (nat \<times> u8 list) option res" where
  "scsi_pr_in lun task data =
     (let action = task_cdb task ! 1 AND 0x1f in
      if length data < 8 then Inr None
      else if action = 0 then map_sum id Some (scsi_pr_in_read_keys lun data)
      else if action = 1 then
        (if length data < 24 then Inr None else map_sum id Some (scsi_pr_in_read_reservations lun data))
      else if action = 2 then map_sum id Some (scsi_pr_in_report_capabilities data)
      else if action = 3 then map_sum id Some (scsi_pr_in_read_full_status lun data)
      else Inr None)"

section \<open>Checks before a command\<close>

text \<open>Commands that never conflict, commands that only a registrant may give, reads and writes.\<close>

definition always_allowed :: "u8 list" where
  "always_allowed = [0x12, 0xa0, 0x03, 0x4d, 0x00, 0x1b, 0x25, 0x5e, 0x9e, 0x16, 0x56, 0x17, 0x57]"

definition registrants_allowed :: "u8 list" where
  "registrants_allowed = [0x15, 0x55, 0x1a, 0x5a, 0x4c]"

definition read_opcodes :: "u8 list" where
  "read_opcodes = [0x08, 0x28, 0xa8, 0x88]"

definition write_opcodes :: "u8 list" where
  "write_opcodes = [0x0a, 0x2a, 0xaa, 0x8a, 0x42, 0x35, 0x91]"

text \<open>\<open>True\<close> lets the command through; \<open>False\<close> sets the status for a reservation conflict.\<close>

definition scsi_pr_check :: "scsi_lun \<Rightarrow> scsi_task \<Rightarrow> bool res" where
  "scsi_pr_check lun task =
     (if \<not> scsi_pr_has_reservation lun then Inr True
      else
        (let rtype = resv_rtype (reservation lun);
             op = task_cdb task ! 0;
             action = task_cdb task ! 1 AND 0x1f;
             reg = scsi_pr_get_registrant lun (task_initiator_port task) (task_target_port task);
             dma_to_device = (op \<in> set write_opcodes)
         in c_assert (rtype \<noteq> 0)
           (if scsi_pr_registrant_is_holder lun reg then Inr True
            else if op \<in> set always_allowed then Inr True
            else if op \<in> set registrants_allowed then Inr (reg \<noteq> None)
            else if op = SPC_PERSISTENT_RESERVE_OUT then
              (if action \<in> {PR_OUT_RELEASE, PR_OUT_CLEAR, PR_OUT_PREEMPT, PR_OUT_PREEMPT_AND_ABORT}
               then Inr (reg \<noteq> None)
               else Inr (action \<in> {PR_OUT_REGISTER, PR_OUT_REG_AND_IGNORE_KEY}))
            else if op \<notin> set read_opcodes \<and> op \<notin> set write_opcodes then Inr False
            else if rtype = PR_WRITE_EXCLUSIVE then Inr (\<not> dma_to_device)
            else if rtype = PR_EXCLUSIVE_ACCESS then Inr False
            else if rtype = PR_WRITE_EXCLUSIVE_REGS_ONLY \<or> rtype = PR_WRITE_EXCLUSIVE_ALL_REGS
              then Inr (\<not> (reg = None \<and> dma_to_device))
            else if rtype = PR_EXCLUSIVE_ACCESS_REGS_ONLY \<or> rtype = PR_EXCLUSIVE_ACCESS_ALL_REGS
              then Inr (reg \<noteq> None)
            else Inr True)))"

section \<open>SPC-2 reserve and release\<close>

text \<open>The results 1, 0 and -1 of the check.\<close>

datatype scsi2_check = PR_ENABLED | NO_CONFLICT | CONFLICT

definition scsi2_check_reservation_conflict :: "scsi_lun \<Rightarrow> scsi_task \<Rightarrow> scsi2_check" where
  "scsi2_check_reservation_conflict lun task =
     (case scsi_pr_get_registrant lun (task_initiator_port task) (task_target_port task) of
        Some reg \<Rightarrow>
          if scsi_pr_registrant_is_holder lun (Some reg) then PR_ENABLED
          else if resv_rtype (reservation lun) = PR_WRITE_EXCLUSIVE_REGS_ONLY \<or>
                  resv_rtype (reservation lun) = PR_EXCLUSIVE_ACCESS_REGS_ONLY then PR_ENABLED
          else CONFLICT
      | None \<Rightarrow> if reg_head lun = [] then NO_CONFLICT else CONFLICT)"

definition scsi2_reserve :: "scsi_lun \<Rightarrow> scsi_task \<Rightarrow> scsi_out" where
  "scsi2_reserve lun task =
     (if task_cdb task ! 1 AND 0x3 \<noteq> 0 then (Some EPERM, status_invalid, lun)
      else
        (case scsi2_check_reservation_conflict lun task of
           PR_ENABLED \<Rightarrow> (None, status_good, lun)
         | CONFLICT \<Rightarrow> (Some EPERM, status_conflict, lun)
         | NO_CONFLICT \<Rightarrow>
             let reg = scsi2_holder lun;
                 reg1 = reg\<lparr>initiator_port := map_option port_addr (task_initiator_port task),
                   target_port := map_option port_addr (task_target_port task)\<rparr>;
                 reg2 = (case task_initiator_port task of None \<Rightarrow> reg1
                         | Some p \<Rightarrow> reg1\<lparr>initiator_port_name := port_name p,
                                          transport_id := port_transport_id p\<rparr>);
                 reg3 = (case task_target_port task of None \<Rightarrow> reg2
                         | Some p \<Rightarrow> reg2\<lparr>target_port_name := port_name p\<rparr>)
             in (None, status_good, lun\<lparr>scsi2_holder := reg3,
                  reservation := (reservation lun)\<lparr>resv_flags := SCSI_SPC2_RESERVE,
                    resv_holder := Some SCSI2_HOLDER\<rparr>\<rparr>)))"

definition scsi2_release :: "scsi_lun \<Rightarrow> scsi_task \<Rightarrow> scsi_out" where
  "scsi2_release lun task =
     (case scsi2_check_reservation_conflict lun task of
        PR_ENABLED \<Rightarrow> (None, status_good, lun)
      | CONFLICT \<Rightarrow> (Some EPERM, status_conflict, lun)
      | NO_CONFLICT \<Rightarrow>
          if resv_flags (reservation lun) AND SCSI_SPC2_RESERVE = 0
          then (Some EINVAL, status_invalid, lun)
          else (None, status_good, lun\<lparr>reservation := no_reservation, scsi2_holder := no_registrant\<rparr>))"

definition scsi2_reserve_check :: "scsi_lun \<Rightarrow> scsi_task \<Rightarrow> bool res" where
  "scsi2_reserve_check lun task =
     (if task_cdb task ! 0 \<in> {SPC_INQUIRY, SPC2_RELEASE_6, SPC2_RELEASE_10} then Inr True
      else if \<not> scsi_pr_has_reservation lun then Inr True
      else scsi2_it_nexus_is_holder lun (task_initiator_port task) (task_target_port task))"

section \<open>Executing a task\<close>

definition bdev_scsi_check_len :: "int \<Rightarrow> int \<Rightarrow> bool" where
  "bdev_scsi_check_len len min_len = (len \<ge> min_len)"

text \<open>
  The reservation commands of \<^verbatim>\<open>bdev_scsi_process_primary\<close>. \<open>alloc\<close> is what the one
  \<^verbatim>\<open>calloc\<close> of the command answers: the address of a new registrant or of the response to a
  PERSISTENT RESERVE IN, \<open>None\<close> when it fails. \<open>gathered\<close> is the data that came
  with the command, \<open>None\<close> when no buffer could be allocated for it. The second component of
  the result is the data returned. Any other command leaves the reservation state alone.
\<close>

definition scsi_process_reservation ::
  "nat option \<Rightarrow> u8 list option \<Rightarrow> scsi_lun \<Rightarrow> scsi_task \<Rightarrow> (task_status \<times> u8 list \<times> scsi_lun) res" where
  "scsi_process_reservation alloc gathered lun task =
     (let op = task_cdb task ! 0 in
      if op = SPC_PERSISTENT_RESERVE_OUT then
        (if \<not> bdev_scsi_check_len (sint (from_be32 (drop 5 (task_cdb task)))) 24
         then Inr (status_invalid, [], lun)
         else
           (case gathered of
              None \<Rightarrow> Inr (status_good, [], lun)
            | Some data \<Rightarrow>
                if length data < 24 then Inr (status_good, [], lun)
                else map_sum id (\<lambda>(rc, st, lun'). (st, [], lun')) (scsi_pr_out alloc lun task data)))
      else if op = SPC_PERSISTENT_RESERVE_IN then
        (let alloc_len = unat (task_cdb task ! 7) * 256 + unat (task_cdb task ! 8) in
         c_assert (alloc \<noteq> None)
           (map_sum id (\<lambda>r. case r of
               None \<Rightarrow> (status_invalid, [], lun)
             | Some (rc, data) \<Rightarrow> (status_good, data, lun))
             (scsi_pr_in lun task (replicate alloc_len 0))))
      else if op = SPC2_RESERVE_6 \<or> op = SPC2_RESERVE_10 then
        (let (rc, st, lun') = scsi2_reserve lun task in Inr (st, [], lun'))
      else if op = SPC2_RELEASE_6 \<or> op = SPC2_RELEASE_10 then
        (let (rc, st, lun') = scsi2_release lun task in Inr (st, [], lun'))
      else Inr (status_good, [], lun))"

definition scsi_lun_execute_task ::
  "nat option \<Rightarrow> u8 list option \<Rightarrow> scsi_lun \<Rightarrow> scsi_task \<Rightarrow> (task_status \<times> u8 list \<times> scsi_lun) res" where
  "scsi_lun_execute_task alloc gathered lun task =
     res_bind (if resv_flags (reservation lun) AND SCSI_SPC2_RESERVE \<noteq> 0
               then scsi2_reserve_check lun task else scsi_pr_check lun task)
       (\<lambda>ok. if ok then scsi_process_reservation alloc gathered lun task
             else Inr (status_conflict, [], lun))"

end
