(* ===== verification/Scsi_PR_Inv.thy ===== *)
theory Scsi_PR_Inv
  imports Scsi_PR
begin

text \<open>
  The invariant of a logical unit's reservation state and its preservation by every task. The
  invariant has a strict form, kept by the tasks that give defined reservation types, under which
  no assertion can fail.
\<close>

section \<open>Invariant\<close>

definition pr_type_valid :: "u8 \<Rightarrow> bool" where
  "pr_type_valid t \<longleftrightarrow> t \<in> {PR_WRITE_EXCLUSIVE, PR_EXCLUSIVE_ACCESS, PR_WRITE_EXCLUSIVE_REGS_ONLY,
     PR_EXCLUSIVE_ACCESS_REGS_ONLY, PR_WRITE_EXCLUSIVE_ALL_REGS, PR_EXCLUSIVE_ACCESS_ALL_REGS}"

definition nexus :: "scsi_registrant \<Rightarrow> nat option \<times> nat option" where
  "nexus r = (initiator_port r, target_port r)"

text \<open>What the reservation says of a list of registrants.\<close>

definition resv_wf :: "bool \<Rightarrow> scsi_registrant list \<Rightarrow> scsi_pr_reservation \<Rightarrow> bool" where
  "resv_wf strict regs r \<longleftrightarrow>
     (resv_holder r = None \<longrightarrow> r = no_reservation) \<and>
     (resv_holder r = Some SCSI2_HOLDER \<longrightarrow> resv_flags r = 1 \<and> resv_rtype r = 0 \<and> resv_crkey r = 0 \<and> \<not> strict) \<and>
     (\<forall>a. resv_holder r = Some (REG a) \<longrightarrow> resv_flags r = 0 \<and>
        (\<exists>reg \<in> set regs. sreg_addr reg = a \<and> (resv_crkey r = sreg_rkey reg \<or> resv_crkey r = 0 \<and> \<not> strict)) \<and>
        (strict \<longrightarrow> pr_type_valid (resv_rtype r)))"

definition regs_wf :: "scsi_registrant list \<Rightarrow> bool" where
  "regs_wf regs \<longleftrightarrow> distinct (map sreg_addr regs) \<and> distinct (map nexus regs) \<and>
     (\<forall>r \<in> set regs. sreg_rkey r \<noteq> 0)"

definition lun_inv :: "bool \<Rightarrow> scsi_lun \<Rightarrow> bool" where
  "lun_inv strict lun \<longleftrightarrow> regs_wf (reg_head lun) \<and> resv_wf strict (reg_head lun) (reservation lun)"

lemma resv_wf_none [simp]: "resv_wf s regs no_reservation"
  by (simp add: resv_wf_def no_reservation_def)

lemma resv_wf_reg:
  assumes "reg \<in> set regs" and "resv_flags r = 0" and "strict \<Longrightarrow> pr_type_valid (resv_rtype r)"
    and "resv_holder r = Some (REG (sreg_addr reg))"
    and "resv_crkey r = sreg_rkey reg \<or> resv_crkey r = 0 \<and> \<not> strict"
  shows "resv_wf strict regs r"
  using assms by (auto simp: resv_wf_def)

lemma regs_wf_filter: "regs_wf regs \<Longrightarrow> regs_wf (filter P regs)"
  by (auto simp: regs_wf_def intro: distinct_map_filter)

lemma addr_inj:
  "regs_wf regs \<Longrightarrow> r \<in> set regs \<Longrightarrow> r' \<in> set regs \<Longrightarrow> sreg_addr r = sreg_addr r' \<longleftrightarrow> r = r'"
  by (auto simp: regs_wf_def distinct_map dest: inj_onD)

lemma get_registrant_SomeD:
  assumes "scsi_pr_get_registrant lun ip tp = Some reg"
  shows "reg \<in> set (reg_head lun)" and "nexus reg = (map_option port_addr ip, map_option port_addr tp)"
  using assms by (auto simp: scsi_pr_get_registrant_def find_Some_iff nexus_def)

lemma get_registrant_None_iff:
  "scsi_pr_get_registrant lun ip tp = None \<longleftrightarrow>
    (map_option port_addr ip, map_option port_addr tp) \<notin> nexus ` set (reg_head lun)"
  by (auto simp: scsi_pr_get_registrant_def find_None_iff nexus_def)

lemma find_SomeD: "find P xs = Some x \<Longrightarrow> x \<in> set xs \<and> P x"
  by (auto simp: find_Some_iff)

lemma all_registrants_type_0 [simp]: "\<not> all_registrants_type 0"
  by (simp add: all_registrants_type_def)

lemma flags_holder:
  assumes "resv_wf s regs r" shows "resv_flags r AND 1 \<noteq> 0 \<longleftrightarrow> resv_holder r = Some SCSI2_HOLDER"
  using assms
  by (cases "resv_holder r" rule: option.exhaust; cases "the (resv_holder r)")
    (auto simp: resv_wf_def no_reservation_def)

lemma resv_wf_type0:
  assumes "resv_wf s regs r" and "\<And>a. resv_holder r \<noteq> Some (REG a)"
  shows "resv_rtype r = 0" and "resv_crkey r = 0"
  using assms holder_ptr.exhaust unfolding resv_wf_def no_reservation_def
  by (metis option.exhaust scsi_pr_reservation.select_convs(3), metis option.exhaust scsi_pr_reservation.select_convs(4))

section \<open>Operations on the registrants\<close>

lemma release_reservation_wf:
  assumes inv: "regs_wf (reg_head lun)" and flags: "resv_flags (reservation lun) = 0"
    and strict: "s \<longrightarrow> pr_type_valid (resv_rtype (reservation lun))"
  shows "lun_inv s (scsi_pr_release_reservation lun reg)"
    and "reg_head (scsi_pr_release_reservation lun reg) = reg_head lun"
proof -
  show "reg_head (scsi_pr_release_reservation lun reg) = reg_head lun"
    by (simp add: scsi_pr_release_reservation_def split: option.split)
  show "lun_inv s (scsi_pr_release_reservation lun reg)"
  proof (cases "if scsi_pr_is_all_registrants_type lun
      then find (\<lambda>c. sreg_addr c \<noteq> sreg_addr reg) (reg_head lun) else None")
    case None
    then show ?thesis using inv by (simp add: scsi_pr_release_reservation_def lun_inv_def)
  next
    case (Some c)
    then have "c \<in> set (reg_head lun)" by (auto split: if_splits dest: find_SomeD)
    moreover have "scsi_pr_release_reservation lun reg =
      lun\<lparr>reservation := (reservation lun)\<lparr>resv_holder := Some (REG (sreg_addr c)), resv_crkey := sreg_rkey c\<rparr>\<rparr>"
      by (simp only: scsi_pr_release_reservation_def Some option.case)
    ultimately show ?thesis using inv flags strict
      by (auto simp: lun_inv_def intro: resv_wf_reg)
  qed
qed

lemma unregister_inv:
  assumes inv: "lun_inv s lun" and reg: "reg \<in> set (reg_head lun)"
  shows "lun_inv s (scsi_pr_unregister_registrant lun reg)"
    and "reg_head (scsi_pr_unregister_registrant lun reg) = filter (\<lambda>r. r \<noteq> reg) (reg_head lun)"
proof -
  let ?l = "lun\<lparr>reg_head := filter (\<lambda>r. sreg_addr r \<noteq> sreg_addr reg) (reg_head lun)\<rparr>"
  note wf = inv [unfolded lun_inv_def, THEN conjunct1] and rv = inv [unfolded lun_inv_def, THEN conjunct2]
  have flt: "filter (\<lambda>r. sreg_addr r \<noteq> sreg_addr reg) (reg_head lun) = filter (\<lambda>r. r \<noteq> reg) (reg_head lun)"
    using addr_inj [OF wf _ reg] by (intro filter_cong) auto
  have wf': "regs_wf (reg_head ?l)" by (simp add: regs_wf_filter wf)
  have "lun_inv s (scsi_pr_unregister_registrant lun reg) \<and>
    reg_head (scsi_pr_unregister_registrant lun reg) = reg_head ?l"
  proof (cases "scsi_pr_registrant_is_holder ?l (Some reg)")
    case True
    then have "\<exists>a. resv_holder (reservation lun) = Some (REG a)"
      using resv_wf_type0(1) [OF rv] all_registrants_type_0
      by (force simp: scsi_pr_registrant_is_holder_def scsi_pr_is_all_registrants_type_def split: if_splits)
    then obtain a where a: "resv_holder (reservation lun) = Some (REG a)" ..
    with rv have "resv_flags (reservation ?l) = 0" and "s \<longrightarrow> pr_type_valid (resv_rtype (reservation ?l))"
      by (simp_all add: resv_wf_def)
    from release_reservation_wf [OF wf' this, of reg] True show ?thesis
      by (simp add: scsi_pr_unregister_registrant_def lun_inv_def Let_def)
  next
    case False
    then have "resv_holder (reservation lun) \<noteq> Some (REG (sreg_addr reg))"
      by (auto simp: scsi_pr_registrant_is_holder_def split: if_splits)
    with rv have "resv_wf s (reg_head ?l) (reservation lun)" by (fastforce simp: resv_wf_def)
    with False wf' show ?thesis by (simp add: scsi_pr_unregister_registrant_def lun_inv_def Let_def)
  qed
  then show "lun_inv s (scsi_pr_unregister_registrant lun reg)"
    and "reg_head (scsi_pr_unregister_registrant lun reg) = filter (\<lambda>r. r \<noteq> reg) (reg_head lun)"
    by (simp_all add: flt)
qed

lemma unregister_loop_inv:
  assumes "lun_inv s lun" and "set regs \<subseteq> set (reg_head lun)" and "distinct regs"
  shows "lun_inv s (unregister_loop P regs lun) \<and>
    reg_head (unregister_loop P regs lun) = filter (\<lambda>r. \<not> (r \<in> set regs \<and> P r)) (reg_head lun)"
  using assms
proof (induction regs arbitrary: lun)
  case (Cons reg regs)
  show ?case
  proof (cases "P reg")
    case True
    let ?l = "scsi_pr_unregister_registrant lun reg"
    have reg: "reg \<in> set (reg_head lun)" using Cons.prems by simp
    note u = unregister_inv [OF Cons.prems(1) reg]
    have "set regs \<subseteq> set (reg_head ?l)" using Cons.prems by (auto simp: u(2))
    from Cons.IH [OF u(1) this] Cons.prems True show ?thesis
      by (auto simp: u(2) intro: filter_cong)
  next
    case False
    with Cons.IH [OF Cons.prems(1)] Cons.prems show ?thesis by (auto intro: filter_cong)
  qed
qed simp

lemma unregister_all_inv:
  assumes "lun_inv s lun"
  shows "lun_inv s (unregister_loop P (reg_head lun) lun)"
    and "reg_head (unregister_loop P (reg_head lun) lun) = filter (\<lambda>r. \<not> P r) (reg_head lun)"
proof -
  have "distinct (reg_head lun)" using assms by (auto simp: lun_inv_def regs_wf_def distinct_map)
  from unregister_loop_inv [OF assms _ this, of P]
  show "lun_inv s (unregister_loop P (reg_head lun) lun)"
    and "reg_head (unregister_loop P (reg_head lun) lun) = filter (\<lambda>r. \<not> P r) (reg_head lun)"
    by (auto intro: filter_cong)
qed

lemma unregister_flags:
  "resv_flags (reservation lun) = 0 \<Longrightarrow> resv_flags (reservation (scsi_pr_unregister_registrant lun reg)) = 0"
  by (auto simp: scsi_pr_unregister_registrant_def scsi_pr_release_reservation_def no_reservation_def Let_def
      split: option.split)

lemma unregister_loop_flags:
  "resv_flags (reservation lun) = 0 \<Longrightarrow> resv_flags (reservation (unregister_loop P regs lun)) = 0"
  by (induction regs arbitrary: lun) (auto simp: unregister_flags)

lemmas remove_by_key_inv =
  unregister_all_inv [of _ _ "\<lambda>reg. sreg_rkey reg = key" for key, folded scsi_pr_remove_all_regs_by_key_def]

lemmas remove_others_inv =
  unregister_all_inv [of _ _ "\<lambda>r. sreg_addr r \<noteq> sreg_addr reg" for reg, folded scsi_pr_remove_all_other_regs_def]

section \<open>Commands\<close>

lemma lun_inv_generation [simp]: "lun_inv s (lun\<lparr>pr_generation := g\<rparr>) = lun_inv s lun"
  by (simp add: lun_inv_def)

lemma reserve_reservation_inv:
  assumes "lun_inv s lun" and "reg \<in> set (reg_head lun)" and "resv_flags (reservation lun) = 0"
    and "s \<longrightarrow> pr_type_valid t" and "key = sreg_rkey reg \<or> key = 0 \<and> \<not> s"
  shows "lun_inv s (scsi_pr_reserve_reservation lun t key reg)"
  using assms by (auto simp: lun_inv_def scsi_pr_reserve_reservation_def intro!: resv_wf_reg)

lemma regs_wf_update_key:
  assumes wf: "regs_wf regs" and key: "key \<noteq> 0"
  shows "regs_wf (map (\<lambda>r. if sreg_addr r = a then r\<lparr>sreg_rkey := key\<rparr> else r) regs)"
proof -
  define f where "f r = (if sreg_addr r = a then r\<lparr>sreg_rkey := key\<rparr> else r)" for r :: scsi_registrant
  have "map sreg_addr (map f regs) = map sreg_addr regs" "map nexus (map f regs) = map nexus regs"
    by (simp_all add: f_def nexus_def)
  moreover have "\<forall>r \<in> set (map f regs). sreg_rkey r \<noteq> 0"
    using wf key by (auto simp: regs_wf_def f_def)
  ultimately have "regs_wf (map f regs)" using wf unfolding regs_wf_def by presburger
  moreover have "f = (\<lambda>r. if sreg_addr r = a then r\<lparr>sreg_rkey := key\<rparr> else r)" by (rule ext) (simp add: f_def)
  ultimately show ?thesis by (simp only:)
qed

lemma resv_wf_other_regs:
  assumes "resv_wf s regs r" and "\<And>a reg. resv_holder r = Some (REG a) \<Longrightarrow> reg \<in> set regs \<Longrightarrow>
    sreg_addr reg = a \<Longrightarrow> reg \<in> set regs'"
  shows "resv_wf s regs' r"
  using assms unfolding resv_wf_def by meson

lemma replace_key_inv:
  assumes inv: "lun_inv s lun" and reg: "reg \<in> set (reg_head lun)" and key: "sa_rkey \<noteq> 0"
  shows "lun_inv s (scsi_pr_replace_registrant_key lun reg sa_rkey)"
proof -
  define regs' where "regs' = map (\<lambda>r. if sreg_addr r = sreg_addr reg then r\<lparr>sreg_rkey := sa_rkey\<rparr> else r) (reg_head lun)"
  have wf': "regs_wf regs'" using inv key regs_wf_update_key by (simp add: regs'_def lun_inv_def)
  have rv: "resv_wf s (reg_head lun) (reservation lun)" using inv by (simp add: lun_inv_def)
  show ?thesis
  proof (cases "resv_holder (reservation lun) = Some (REG (sreg_addr reg))")
    case True
    have "reg\<lparr>sreg_rkey := sa_rkey\<rparr> \<in> set regs'" using reg by (force simp: regs'_def)
    moreover have "resv_flags (reservation lun) = 0" "s \<Longrightarrow> pr_type_valid (resv_rtype (reservation lun))"
      using True rv by (simp_all add: resv_wf_def)
    ultimately have "resv_wf s regs' ((reservation lun)\<lparr>resv_crkey := sa_rkey\<rparr>)"
      using True by (intro resv_wf_reg [of "reg\<lparr>sreg_rkey := sa_rkey\<rparr>"]) simp_all
    with True wf' show ?thesis
      by (simp add: scsi_pr_replace_registrant_key_def lun_inv_def regs'_def)
  next
    case False
    have "r \<in> set regs'" if "resv_holder (reservation lun) = Some (REG (sreg_addr r))" "r \<in> set (reg_head lun)" for r
      using False that by (force simp: regs'_def)
    then have "resv_wf s regs' (reservation lun)" using resv_wf_other_regs [OF rv] by blast
    with False wf' show ?thesis
      by (simp add: scsi_pr_replace_registrant_key_def lun_inv_def regs'_def)
  qed
qed

lemma register_new_inv:
  assumes inv: "lun_inv s lun" and new: "scsi_pr_get_registrant lun ip tp = None"
    and fresh: "alloc \<notin> Some ` sreg_addr ` set (reg_head lun)" and key: "sa_rkey \<noteq> 0"
  shows "lun_inv s (snd (scsi_pr_register_registrant alloc lun ip tp sa_rkey))"
proof (cases alloc)
  case (Some a)
  from new have "(map_option port_addr ip, map_option port_addr tp) \<notin> nexus ` set (reg_head lun)"
    by (simp add: get_registrant_None_iff)
  moreover have "a \<notin> sreg_addr ` set (reg_head lun)" using fresh Some by auto
  ultimately show ?thesis using inv key Some
    by (auto simp: scsi_pr_register_registrant_def lun_inv_def regs_wf_def resv_wf_def nexus_def)
qed (simp add: scsi_pr_register_registrant_def inv)

lemma register_inv [step_inv]:
  assumes "lun_inv s lun" and "alloc \<notin> Some ` sreg_addr ` set (reg_head lun)"
  shows "lun_inv s (snd (snd (scsi_pr_out_register alloc lun task action rkey sa_rkey uns)))"
  using assms register_new_inv [OF assms(1) _ assms(2), of "task_initiator_port task" "task_target_port task" sa_rkey]
  by (auto simp: scsi_pr_out_register_def split_beta unregister_inv(1) replace_key_inv
      dest: get_registrant_SomeD(1) split: option.split)

lemma holder_flags:
  "lun_inv s lun \<Longrightarrow> resv_holder (reservation lun) = Some (REG a) \<Longrightarrow> resv_flags (reservation lun) = 0"
  "lun_inv s lun \<Longrightarrow> resv_holder (reservation lun) = None \<Longrightarrow> resv_flags (reservation lun) = 0"
  by (simp_all add: lun_inv_def resv_wf_def no_reservation_def)

lemma is_holder_flags:
  assumes "lun_inv s lun" and "scsi_pr_registrant_is_holder lun (Some reg)"
  shows "resv_flags (reservation lun) = 0" and "s \<longrightarrow> pr_type_valid (resv_rtype (reservation lun))"
proof -
  have rv: "resv_wf s (reg_head lun) (reservation lun)" using assms(1) by (simp add: lun_inv_def)
  have "\<exists>a. resv_holder (reservation lun) = Some (REG a)"
    using assms(2) resv_wf_type0(1) [OF rv] all_registrants_type_0
    by (force simp: scsi_pr_registrant_is_holder_def scsi_pr_is_all_registrants_type_def split: if_splits)
  with rv show "resv_flags (reservation lun) = 0" and "s \<longrightarrow> pr_type_valid (resv_rtype (reservation lun))"
    by (auto simp: resv_wf_def)
qed

lemma reserve_inv [step_inv]:
  assumes "lun_inv s lun" and "s \<longrightarrow> pr_type_valid rtype"
  shows "lun_inv s (snd (snd (scsi_pr_out_reserve lun task rtype rkey uns)))"
  using assms reserve_reservation_inv [OF assms(1) _ holder_flags(2) [OF assms(1)] assms(2)]
  by (auto simp: scsi_pr_out_reserve_def scsi_pr_has_reservation_def
      dest: get_registrant_SomeD(1) split: option.split)

lemma release_inv [step_inv]:
  assumes "lun_inv s lun"
  shows "lun_inv s (snd (snd (scsi_pr_out_release lun task rtype rkey)))"
  using assms release_reservation_wf(1) [OF _ is_holder_flags [OF assms]]
  by (auto simp: scsi_pr_out_release_def lun_inv_def split: option.split)

lemma clear_inv [step_inv]:
  assumes "lun_inv s lun"
  shows "lun_inv s (snd (snd (scsi_pr_out_clear lun task rkey)))"
  using assms by (auto simp: scsi_pr_out_clear_def unregister_all_inv split: option.split)

text \<open>What every command returns: an assertion can fail only without the strict invariant.\<close>

definition cmd_ok :: "bool \<Rightarrow> ('a \<times> 'b \<times> scsi_lun) res \<Rightarrow> bool" where
  "cmd_ok s r \<longleftrightarrow> (case r of Inl e \<Rightarrow> e = AssertFail \<and> \<not> s | Inr (_, _, lun) \<Rightarrow> lun_inv s lun)"

lemma cmd_ok_simps [simp]:
  "cmd_ok s (Inl e) \<longleftrightarrow> e = AssertFail \<and> \<not> s" "cmd_ok s (Inr (a, b, lun)) \<longleftrightarrow> lun_inv s lun"
  by (simp_all add: cmd_ok_def)

lemma cmd_ok_Inr: "lun_inv s (snd (snd r)) \<Longrightarrow> cmd_ok s (Inr r)"
  by (cases r) simp

lemma preempt_inv [step_inv]:
  assumes inv: "lun_inv s lun" and clean: "s \<longrightarrow> pr_type_valid rtype \<and> sa_rkey \<noteq> 0"
  shows "cmd_ok s (scsi_pr_out_preempt lun task rtype rkey sa_rkey)"
proof (cases "scsi_pr_get_registrant lun (task_initiator_port task) (task_target_port task)")
  case None
  with inv show ?thesis by (simp add: scsi_pr_out_preempt_def)
next
  case (Some reg)
  let ?r = "reservation lun"
  note reg = get_registrant_SomeD(1) [OF Some]
  note by_key = remove_by_key_inv [OF inv, of sa_rkey]
  have rv: "resv_wf s (reg_head lun) ?r" using inv by (simp add: lun_inv_def)
  show ?thesis
  proof (cases "rkey \<noteq> sreg_rkey reg \<or> \<not> scsi_pr_has_reservation lun")
    case True
    with Some inv by_key(1) show ?thesis by (auto simp: scsi_pr_out_preempt_def)
  next
    case False
    then have key: "rkey = sreg_rkey reg" and has: "scsi_pr_has_reservation lun" by auto
    show ?thesis
    proof (cases "\<exists>a. resv_holder ?r = Some (REG a)")
      case False
      then have "resv_crkey ?r = 0" "resv_rtype ?r = 0" "\<not> s"
        using has rv resv_wf_type0 [OF rv] holder_ptr.exhaust
        by (auto simp: scsi_pr_has_reservation_def resv_wf_def) metis+
      with Some key has show ?thesis
        by (simp add: scsi_pr_out_preempt_def scsi_pr_is_all_registrants_type_def c_assert_def)
    next
      case True
      then obtain a r where h: "resv_holder ?r = Some (REG a)" "r \<in> set (reg_head lun)"
        "resv_crkey ?r = sreg_rkey r \<or> resv_crkey ?r = 0 \<and> \<not> s" "resv_flags ?r = 0"
        using rv by (fastforce simp: resv_wf_def)
      have crkey: "s \<longrightarrow> resv_crkey ?r \<noteq> 0" using h(2,3) inv by (auto simp: lun_inv_def regs_wf_def)
      note flags = unregister_loop_flags [OF h(4)]
      have others: "lun_inv s (scsi_pr_reserve_reservation (scsi_pr_remove_all_other_regs lun reg) rtype 0 reg)"
        if "sa_rkey = 0"
        using that clean reg remove_others_inv [OF inv, of reg]
        by (intro reserve_reservation_inv) (auto simp: scsi_pr_remove_all_other_regs_def flags)
      have self: "lun_inv s (scsi_pr_reserve_reservation lun rtype rkey reg)"
        using inv reg h(4) clean key by (intro reserve_reservation_inv) auto
      have take: "lun_inv s (scsi_pr_reserve_reservation (scsi_pr_remove_all_regs_by_key lun sa_rkey) rtype rkey reg1)"
        if "scsi_pr_get_registrant (scsi_pr_remove_all_regs_by_key lun sa_rkey) (task_initiator_port task)
              (task_target_port task) = Some reg1" for reg1
      proof -
        have "reg1 \<in> set (reg_head lun)" "nexus reg1 = nexus reg"
          using get_registrant_SomeD [OF that] get_registrant_SomeD(2) [OF Some] by (auto simp: by_key(2))
        then have "reg1 = reg" using reg inv by (auto simp: lun_inv_def regs_wf_def distinct_map dest: inj_onD)
        then show ?thesis using by_key(1) get_registrant_SomeD(1) [OF that] clean key
          by (intro reserve_reservation_inv) (auto simp: scsi_pr_remove_all_regs_by_key_def flags)
      qed
      from Some key has inv by_key(1) others self take crkey show ?thesis
        by (auto simp: scsi_pr_out_preempt_def c_assert_def Let_def split: option.split)
    qed
  qed
qed

lemma scsi2_reserve_inv [step_inv]:
  assumes inv: "lun_inv False lun"
  shows "lun_inv False (snd (snd (scsi2_reserve lun task)))"
proof (cases "scsi2_check_reservation_conflict lun task")
  case NO_CONFLICT
  then have regs: "reg_head lun = []"
    by (auto simp: scsi2_check_reservation_conflict_def split: option.splits if_splits)
  with inv have rv: "resv_wf False [] (reservation lun)" by (simp add: lun_inv_def)
  have "resv_holder (reservation lun) \<noteq> Some (REG a)" for a using rv by (auto simp: resv_wf_def)
  from resv_wf_type0 [OF rv this]
  have "resv_wf False [] ((reservation lun)\<lparr>resv_flags := 1, resv_holder := Some SCSI2_HOLDER\<rparr>)"
    by (simp add: resv_wf_def)
  with regs inv show ?thesis
    by (simp add: scsi2_reserve_def NO_CONFLICT Let_def lun_inv_def)
qed (use inv in \<open>simp_all add: scsi2_reserve_def\<close>)

lemma scsi2_release_inv [step_inv]:
  assumes "lun_inv s lun"
  shows "lun_inv s (snd (snd (scsi2_release lun task)))"
  using assms by (auto simp: scsi2_release_def lun_inv_def split: scsi2_check.split)

section \<open>The response buffer\<close>

text \<open>A handler stays in its buffer: it returns the length it filled and keeps the size.\<close>

definition in_ok :: "nat \<Rightarrow> (nat \<times> u8 list) res \<Rightarrow> bool" where
  "in_ok n r \<longleftrightarrow> (\<exists>len data. r = Inr (len, data) \<and> length data = n \<and> len \<le> n)"

lemma read_keys_loop_ok:
  "8 + count * 8 \<le> length data \<Longrightarrow> \<exists>count' data'. read_keys_loop regs count data = Inr (count', data') \<and>
    length data' = length data \<and> 8 + count' * 8 \<le> length data"
proof (induction regs arbitrary: count data)
  case (Cons reg regs)
  show ?case
  proof (cases "(count + 1) * 8 + 8 > length data")
    case False
    then obtain d where d: "store_bytes (8 + count * 8) (to_be64 (sreg_rkey reg)) data = Inr d"
      by (simp add: store_bytes_ok)
    note len = store_bytes_length [OF d]
    from Cons.IH [of "count + 1" d] False d show ?thesis by (simp add: len)
  qed (use Cons.prems in simp)
qed simp

lemma full_status_desc_ok:
  assumes "off + 24 \<le> length data"
  obtains data' where "full_status_desc lun reg off data = Inr data'" "length data' = length data"
  using assms by (simp add: full_status_desc_def store_bytes_ok Let_def)

lemma full_status_loop_ok:
  "8 + add_len \<le> length data \<Longrightarrow> \<exists>add_len' data'. full_status_loop lun regs add_len data = Inr (add_len', data') \<and>
    length data' = length data \<and> 8 + add_len' \<le> length data"
proof (induction regs arbitrary: add_len data)
  case (Cons reg regs)
  let ?tid = "transport_id reg"
  show ?case
  proof (cases "add_len + 24 + 8 > length data")
    case False
    then have "8 + add_len + 24 \<le> length data" by simp
    then obtain d1 where d1: "full_status_desc lun reg (8 + add_len) data = Inr d1" "length d1 = length data"
      by (rule full_status_desc_ok)
    show ?thesis
    proof (cases "add_len + 24 + length ?tid + 8 > length data")
      case tid: False
      then obtain d2 where d2: "store_bytes (8 + add_len + 24) ?tid d1 = Inr d2"
        by (simp add: store_bytes_ok d1(2))
      then have l2: "length d2 = length data" using store_bytes_length d1(2) by metis
      then obtain d3 where d3: "store_bytes (8 + add_len + 20) (to_be32 (of_nat (length ?tid))) d2 = Inr d3"
        using False by (simp add: store_bytes_ok)
      then have l3: "length d3 = length data" using store_bytes_length l2 by metis
      from Cons.IH [of "add_len + 24 + length ?tid" d3] False tid d1(1) d2 d3 show ?thesis
        by (simp add: l3)
    qed (use False d1 in simp)
  qed (use Cons.prems in simp)
qed simp

lemma pr_in_ok:
  assumes "scsi_pr_in lun task data = r"
  shows "r = Inr None \<or> (\<exists>len data'. r = Inr (Some (len, data')) \<and> length data' = length data \<and> len \<le> length data)"
proof -
  have keys: "in_ok (length data) (scsi_pr_in_read_keys lun data)" if "8 \<le> length data"
    using that read_keys_loop_ok [of 0 "to_be32 (pr_generation lun) @ drop 4 data" "reg_head lun"]
    by (auto simp: in_ok_def scsi_pr_in_read_keys_def store_bytes_ok)
  have full: "in_ok (length data) (scsi_pr_in_read_full_status lun data)" if "8 \<le> length data"
    using that full_status_loop_ok [of 0 "to_be32 (pr_generation lun) @ drop 4 data" lun "reg_head lun"]
    by (auto simp: in_ok_def scsi_pr_in_read_full_status_def store_bytes_ok)
  have resv: "in_ok (length data) (scsi_pr_in_read_reservations lun data)" if "24 \<le> length data"
    using that by (auto simp: in_ok_def scsi_pr_in_read_reservations_def store_bytes_ok)
  have cap: "in_ok (length data) (scsi_pr_in_report_capabilities data)" if "8 \<le> length data"
    using that by (simp add: in_ok_def scsi_pr_in_report_capabilities_def store_bytes_ok)
  show ?thesis using assms keys full resv cap
    by (auto simp: scsi_pr_in_def in_ok_def Let_def split: if_splits)
qed

section \<open>Tasks\<close>

text \<open>The tasks that give a reservation only a defined type, name a key to preempt and use no SPC-2
  reservation.\<close>

definition clean_task :: "scsi_task \<Rightarrow> u8 list option \<Rightarrow> bool" where
  "clean_task task gathered \<longleftrightarrow>
     (let op = task_cdb task ! 0; action = task_cdb task ! 1 AND 0x0f in
      op \<noteq> SPC2_RESERVE_6 \<and> op \<noteq> SPC2_RESERVE_10 \<and>
      (op = SPC_PERSISTENT_RESERVE_OUT \<and> action \<in> {PR_OUT_RESERVE, PR_OUT_PREEMPT} \<longrightarrow>
         pr_type_valid (task_cdb task ! 2 AND 0x0f)) \<and>
      (op = SPC_PERSISTENT_RESERVE_OUT \<and> action = PR_OUT_PREEMPT \<longrightarrow>
         (\<forall>data. gathered = Some data \<longrightarrow> from_be64 (drop 8 data) \<noteq> 0)))"

text \<open>The response to a PERSISTENT RESERVE IN gets its buffer.\<close>

definition response_allocated :: "nat option \<Rightarrow> scsi_task \<Rightarrow> bool" where
  "response_allocated alloc task \<longleftrightarrow> (task_cdb task ! 0 = SPC_PERSISTENT_RESERVE_IN \<longrightarrow> alloc \<noteq> None)"

lemma strict_rtype:
  assumes "lun_inv True lun" and "resv_holder (reservation lun) \<noteq> None"
  shows "pr_type_valid (resv_rtype (reservation lun))"
proof -
  have rv: "resv_wf True (reg_head lun) (reservation lun)" using assms(1) by (simp add: lun_inv_def)
  obtain h where h: "resv_holder (reservation lun) = Some h" using assms(2) by auto
  with rv show ?thesis by (cases h) (simp_all add: resv_wf_def)
qed

lemma pr_check_ok:
  assumes "lun_inv s lun"
  shows "(scsi_pr_check lun task = Inl AssertFail \<and> \<not> s) \<or> (\<exists>b. scsi_pr_check lun task = Inr b)"
proof (cases "scsi_pr_has_reservation lun \<and> resv_rtype (reservation lun) = 0")
  case True
  then have "\<not> s" using assms strict_rtype [of lun] by (cases s) (auto simp: scsi_pr_has_reservation_def pr_type_valid_def)
  with True show ?thesis by (simp add: scsi_pr_check_def c_assert_def Let_def)
next
  case False
  then have "\<not> isl (scsi_pr_check lun task)"
    by (simp add: scsi_pr_check_def c_assert_def Let_def)
  then show ?thesis by (cases "scsi_pr_check lun task") auto
qed

lemma pr_out_ok:
  assumes inv: "lun_inv s lun" and fresh: "alloc \<notin> Some ` sreg_addr ` set (reg_head lun)"
    and len: "24 \<le> length data" and op: "task_cdb task ! 0 = SPC_PERSISTENT_RESERVE_OUT"
    and clean: "s \<longrightarrow> clean_task task (Some data)"
  shows "cmd_ok s (scsi_pr_out alloc lun task data)"
proof -
  let ?a = "task_cdb task ! 1 AND 0x0f"
  have "s \<longrightarrow> pr_type_valid (task_cdb task ! 2 AND 0x0f)" if "?a \<in> {PR_OUT_RESERVE, PR_OUT_PREEMPT}"
    using that clean op by (auto simp: clean_task_def Let_def)
  moreover have "s \<longrightarrow> from_be64 (drop 8 data) \<noteq> 0" if "?a = PR_OUT_PREEMPT"
    using that clean op by (auto simp: clean_task_def Let_def)
  ultimately show ?thesis using inv len fresh
    unfolding scsi_pr_out_def Let_def
    by (auto intro!: cmd_ok_Inr register_inv reserve_inv release_inv clear_inv preempt_inv)
qed

lemma process_reservation_ok:
  assumes inv: "lun_inv s lun" and fresh: "alloc \<notin> Some ` sreg_addr ` set (reg_head lun)"
    and clean: "s \<longrightarrow> clean_task task gathered \<and> response_allocated alloc task"
  shows "cmd_ok s (scsi_process_reservation alloc gathered lun task)"
proof -
  let ?op = "task_cdb task ! 0"
  consider (pr_out) "?op = SPC_PERSISTENT_RESERVE_OUT" | (pr_in) "?op = SPC_PERSISTENT_RESERVE_IN"
    | (reserve) "?op = SPC2_RESERVE_6 \<or> ?op = SPC2_RESERVE_10"
    | (release) "?op = SPC2_RELEASE_6 \<or> ?op = SPC2_RELEASE_10"
    | (other) "?op \<notin> {SPC_PERSISTENT_RESERVE_OUT, SPC_PERSISTENT_RESERVE_IN, SPC2_RESERVE_6, SPC2_RESERVE_10,
        SPC2_RELEASE_6, SPC2_RELEASE_10}" by blast
  then show ?thesis
  proof cases
    case pr_out
    have "cmd_ok s (map_sum id (\<lambda>(rc, st, lun'). (st, [] :: u8 list, lun')) (scsi_pr_out alloc lun task data))"
      if "gathered = Some data" "24 \<le> length data" for data
      using pr_out_ok [OF inv fresh that(2) pr_out] clean that(1)
      by (cases "scsi_pr_out alloc lun task data") auto
    with inv pr_out show ?thesis by (auto simp: scsi_process_reservation_def Let_def split: option.split)
  next
    case pr_in
    have "cmd_ok s (map_sum id (\<lambda>r. case r of None \<Rightarrow> (status_invalid, [], lun)
        | Some (rc, data) \<Rightarrow> (status_good, data, lun)) (scsi_pr_in lun task data))" for data
      using pr_in_ok [OF refl, of lun task data] inv by auto
    with pr_in clean show ?thesis
      by (cases alloc) (auto simp: scsi_process_reservation_def response_allocated_def c_assert_def Let_def)
  next
    case reserve
    then have "\<not> s" using clean by (auto simp: clean_task_def Let_def)
    with reserve inv scsi2_reserve_inv [of lun task] show ?thesis
      by (auto simp: scsi_process_reservation_def split_beta Let_def)
  next
    case release
    with scsi2_release_inv [OF inv, of task] show ?thesis
      by (auto simp: scsi_process_reservation_def split_beta Let_def)
  qed (simp add: scsi_process_reservation_def inv)
qed

lemma execute_task_ok:
  assumes inv: "lun_inv s lun" and fresh: "alloc \<notin> Some ` sreg_addr ` set (reg_head lun)"
    and clean: "s \<longrightarrow> clean_task task gathered \<and> response_allocated alloc task"
  shows "cmd_ok s (scsi_lun_execute_task alloc gathered lun task)"
proof -
  have rv: "resv_wf s (reg_head lun) (reservation lun)" using inv by (simp add: lun_inv_def)
  note ok = process_reservation_ok [OF inv fresh clean]
  show ?thesis
  proof (cases "resv_holder (reservation lun) = Some SCSI2_HOLDER")
    case True
    then have "\<not> isl (scsi2_reserve_check lun task)"
      by (simp add: scsi2_reserve_check_def scsi2_it_nexus_is_holder_def holder_object_def)
    then obtain b where "scsi2_reserve_check lun task = Inr b" by (cases "scsi2_reserve_check lun task") auto
    with True ok inv flags_holder [OF rv] show ?thesis by (simp add: scsi_lun_execute_task_def)
  next
    case False
    with pr_check_ok [OF inv, of task] ok inv flags_holder [OF rv] show ?thesis
      by (auto simp: scsi_lun_execute_task_def)
  qed
qed

text \<open>Without the buffer the command stops at an assertion or is refused before.\<close>

lemma response_not_allocated:
  assumes "\<not> response_allocated alloc task"
    and "scsi_lun_execute_task alloc gathered lun task = Inr (st, data, lun')"
  shows "lun' = lun"
  using assms by (auto simp: response_allocated_def scsi_lun_execute_task_def scsi_process_reservation_def
      c_assert_def Let_def elim!: res_bind_InrE split: if_splits)

section \<open>Reachable states\<close>

text \<open>A step executes a task; \<open>scsi_clean_step\<close> one of the clean tasks. A new registrant has an
  address that none of the unit's registrants has.\<close>

inductive scsi_step :: "scsi_lun \<Rightarrow> scsi_lun \<Rightarrow> bool" where
  task: "alloc \<notin> Some ` sreg_addr ` set (reg_head lun) \<Longrightarrow>
    scsi_lun_execute_task alloc gathered lun task = Inr (st, data, lun') \<Longrightarrow> scsi_step lun lun'"

inductive scsi_clean_step :: "scsi_lun \<Rightarrow> scsi_lun \<Rightarrow> bool" where
  task: "clean_task task gathered \<Longrightarrow> alloc \<notin> Some ` sreg_addr ` set (reg_head lun) \<Longrightarrow>
    scsi_lun_execute_task alloc gathered lun task = Inr (st, data, lun') \<Longrightarrow> scsi_clean_step lun lun'"

definition scsi_init :: "scsi_lun \<Rightarrow> bool" where
  "scsi_init lun \<longleftrightarrow> reg_head lun = [] \<and> reservation lun = no_reservation"

lemma scsi_init_inv: "scsi_init lun \<Longrightarrow> lun_inv s lun"
  by (simp add: scsi_init_def lun_inv_def regs_wf_def)

interpretation scsi_machine: transition_invariant scsi_step scsi_init "lun_inv False"
proof
  show "lun_inv False t" if "lun_inv False l" "scsi_step l t" for l t
    using that(2)
  proof cases
    case (task alloc gathered task st data)
    with execute_task_ok [OF that(1) task(1), of task gathered] show ?thesis by simp
  qed
qed (rule scsi_init_inv)

interpretation scsi_clean_machine: transition_invariant scsi_clean_step scsi_init "lun_inv True"
proof
  show "lun_inv True t" if "lun_inv True l" "scsi_clean_step l t" for l t
    using that(2)
  proof cases
    case (task task gathered alloc st data)
    show ?thesis
    proof (cases "response_allocated alloc task")
      case True
      with execute_task_ok [OF that(1) task(2), of task gathered] task show ?thesis by simp
    next
      case False
      from response_not_allocated [OF this task(3)] that(1) show ?thesis by simp
    qed
  qed
qed (rule scsi_init_inv)

end
