(* ===== verification/Scsi_PR_Props.thy ===== *)
theory Scsi_PR_Props
  imports Scsi_PR_Inv
begin

text \<open>
  The properties of the reservations of a SCSI logical unit: safety of every sequence of tasks,
  enforcement of the reservation types, preemption and the response to READ KEYS.
\<close>

section \<open>Concrete states\<close>

text \<open>Two initiator ports and a target port, a fresh unit, a unit with both registered and one on
  which the first holds a write exclusive reservation.\<close>

definition port_a :: scsi_port where
  "port_a = \<lparr>port_addr = 1, port_index = 0, port_transport_id = [5, 0, 0, 4], port_name = ''a''\<rparr>"

definition port_b :: scsi_port where
  "port_b = \<lparr>port_addr = 2, port_index = 1, port_transport_id = [5, 0, 0, 4], port_name = ''b''\<rparr>"

definition port_t :: scsi_port where
  "port_t = \<lparr>port_addr = 3, port_index = 1, port_transport_id = [], port_name = ''t''\<rparr>"

definition fresh_lun :: scsi_lun where
  "fresh_lun = \<lparr>pr_generation = 0, reg_head = [], reservation = no_reservation, scsi2_holder = no_registrant\<rparr>"

definition reg_a :: scsi_registrant where
  "reg_a = \<lparr>sreg_addr = 100, sreg_rkey = 17, relative_target_port_id = 1, transport_id = [5, 0, 0, 4],
     initiator_port_name = ''a'', target_port_name = ''t'', initiator_port = Some 1, target_port = Some 3\<rparr>"

definition reg_b :: scsi_registrant where
  "reg_b = \<lparr>sreg_addr = 200, sreg_rkey = 34, relative_target_port_id = 1, transport_id = [5, 0, 0, 4],
     initiator_port_name = ''b'', target_port_name = ''t'', initiator_port = Some 2, target_port = Some 3\<rparr>"

definition two_regs_lun :: scsi_lun where
  "two_regs_lun = fresh_lun\<lparr>reg_head := [reg_a, reg_b], pr_generation := 2\<rparr>"

definition held_lun :: "u8 \<Rightarrow> scsi_lun" where
  "held_lun t = scsi_pr_reserve_reservation two_regs_lun t 17 reg_a"

definition task_of :: "scsi_port \<Rightarrow> u8 list \<Rightarrow> scsi_task" where
  "task_of p cdb = \<lparr>task_initiator_port = Some p, task_target_port = Some port_t, task_cdb = cdb\<rparr>"

text \<open>The CDB of a persistent reserve out command and its parameter list.\<close>

definition pr_out_cdb :: "u8 \<Rightarrow> u8 \<Rightarrow> u8 list" where
  "pr_out_cdb action t = [SPC_PERSISTENT_RESERVE_OUT, action, t, 0, 0, 0, 0, 0, 24, 0]"

definition pr_out_param :: "u64 \<Rightarrow> u64 \<Rightarrow> u8 list" where
  "pr_out_param rkey sa_rkey = to_be64 rkey @ to_be64 sa_rkey @ replicate 8 0"

lemmas scsi_concrete = port_a_def port_b_def port_t_def fresh_lun_def reg_a_def reg_b_def two_regs_lun_def
  held_lun_def task_of_def pr_out_cdb_def

lemma fresh_lun_init: "scsi_init fresh_lun"
  by (simp add: scsi_init_def fresh_lun_def)

lemma two_regs_lun_inv: "lun_inv s two_regs_lun"
  by (simp add: lun_inv_def regs_wf_def nexus_def scsi_concrete)

lemma held_lun_inv: "pr_type_valid t \<Longrightarrow> lun_inv s (held_lun t)"
  unfolding held_lun_def
  by (rule reserve_reservation_inv [OF two_regs_lun_inv]) (simp_all add: scsi_concrete no_reservation_def)

lemma get_a: "scsi_pr_get_registrant (held_lun t) (Some port_a) (Some port_t) = Some reg_a"
  "scsi_pr_get_registrant two_regs_lun (Some port_a) (Some port_t) = Some reg_a"
  and get_b: "scsi_pr_get_registrant (held_lun t) (Some port_b) (Some port_t) = Some reg_b"
  by (simp_all add: scsi_pr_get_registrant_def scsi_concrete scsi_pr_reserve_reservation_def)

section \<open>Safety of every sequence of tasks\<close>

text \<open>C4 (safety). Whatever tasks a logical unit executes, its reservation state keeps the
  invariant: registrants have distinct nexuses and non-zero keys, and the holder of a reservation
  is a registrant that is still registered or the SPC-2 holder. Executing one more task never reads
  freed memory and never writes outside a response buffer: it returns, in a state with the invariant,
  or stops at an assertion.\<close>

theorem scsi_tasks_memory_safe:
  assumes "scsi_init lun0" and "scsi_step\<^sup>*\<^sup>* lun0 lun" and "alloc \<notin> Some ` sreg_addr ` set (reg_head lun)"
  shows "lun_inv False lun \<and>
    (scsi_lun_execute_task alloc gathered lun task = Inl AssertFail \<or>
     (\<exists>st data lun'. scsi_lun_execute_task alloc gathered lun task = Inr (st, data, lun') \<and> lun_inv False lun'))"
proof -
  have "lun_inv False lun" by (rule scsi_machine.reachable_inv [OF assms(1,2)])
  with execute_task_ok [OF this assms(3), of task gathered] show ?thesis
    by (cases "scsi_lun_execute_task alloc gathered lun task") auto
qed

text \<open>A fresh unit receives a registration.\<close>

lemma register_a_step:
  "scsi_lun_execute_task (Some 100) (Some (pr_out_param 0 17)) fresh_lun (task_of port_a (pr_out_cdb 0 0)) =
    Inr (status_good, [], fresh_lun\<lparr>reg_head := [reg_a], pr_generation := 1\<rparr>)"
  by code_simp

theorem scsi_tasks_memory_safe_witness:
  "lun_inv False (fresh_lun\<lparr>reg_head := [reg_a], pr_generation := 1\<rparr>)"
proof -
  have "scsi_step fresh_lun (fresh_lun\<lparr>reg_head := [reg_a], pr_generation := 1\<rparr>)"
    by (rule scsi_step.task [OF _ register_a_step]) (simp add: fresh_lun_def)
  then show ?thesis
    by (intro conjunct1 [OF scsi_tasks_memory_safe [OF fresh_lun_init r_into_rtranclp, of _ None]]) simp_all
qed

text \<open>C25 (safety). When reservations get only defined types, a preemption names a key and the SPC-2
  reserve command is not used, no assertion fails provided that the buffer for the response to a
  PERSISTENT RESERVE IN can be allocated: every such task returns, in every state that such tasks
  lead to.\<close>

theorem scsi_clean_tasks_never_assert:
  assumes "scsi_init lun0" and "scsi_clean_step\<^sup>*\<^sup>* lun0 lun" and "clean_task task gathered"
    and "alloc \<notin> Some ` sreg_addr ` set (reg_head lun)"
    and "task_cdb task ! 0 = SPC_PERSISTENT_RESERVE_IN \<longrightarrow> alloc \<noteq> None"
  shows "\<exists>st data lun'. scsi_lun_execute_task alloc gathered lun task = Inr (st, data, lun') \<and> lun_inv True lun'"
proof -
  have "lun_inv True lun" by (rule scsi_clean_machine.reachable_inv [OF assms(1,2)])
  with execute_task_ok [OF this assms(4), of task gathered] assms(3,5) show ?thesis
    by (cases "scsi_lun_execute_task alloc gathered lun task") (auto simp: response_allocated_def)
qed

theorem scsi_clean_tasks_never_assert_witness:
  "\<exists>st data lun'. scsi_lun_execute_task (Some 100) (Some (pr_out_param 0 17)) fresh_lun
     (task_of port_a (pr_out_cdb 0 0)) = Inr (st, data, lun') \<and> lun_inv True lun'"
  by (rule scsi_clean_tasks_never_assert [OF fresh_lun_init rtranclp.rtrancl_refl])
    (simp_all add: clean_task_def scsi_concrete)

section \<open>Reachable assertions\<close>

text \<open>A reservation of the undefined type 0 is accepted from any registrant of a unit
  without a reservation, and from then on every task of every initiator, an INQUIRY included, fails the
  assertion of the reservation check.\<close>

theorem reserve_type_zero_asserts:
  assumes "lun_inv False lun" and "\<not> scsi_pr_has_reservation lun"
    and "scsi_pr_get_registrant lun (task_initiator_port task) (task_target_port task) = Some reg"
    and "task_cdb task ! 0 = SPC_PERSISTENT_RESERVE_OUT" and "task_cdb task ! 1 = PR_OUT_RESERVE"
    and "task_cdb task ! 2 = 0" and "24 \<le> sint (from_be32 (drop 5 (task_cdb task)))"
  shows "\<exists>lun'. scsi_lun_execute_task alloc (Some (pr_out_param (sreg_rkey reg) 0)) lun task =
      Inr (status_good, [], lun') \<and>
    (\<forall>alloc' gathered' task'. scsi_lun_execute_task alloc' gathered' lun' task' = Inl AssertFail)"
proof (intro exI conjI allI)
  let ?lun' = "scsi_pr_reserve_reservation lun 0 (sreg_rkey reg) reg"
  have flags: "resv_flags (reservation lun) = 0"
    using assms(1,2) by (simp add: scsi_pr_has_reservation_def holder_flags(2))
  have "scsi_pr_out alloc lun task (pr_out_param (sreg_rkey reg) 0) = Inr (None, status_good, ?lun')"
    using assms(2,3,5,6) by (simp add: scsi_pr_out_def pr_out_param_def scsi_pr_out_reserve_def Let_def nth_append)
  with assms(2,4,7) flags
  show "scsi_lun_execute_task alloc (Some (pr_out_param (sreg_rkey reg) 0)) lun task = Inr (status_good, [], ?lun')"
    by (simp add: scsi_lun_execute_task_def scsi_pr_check_def scsi_process_reservation_def bdev_scsi_check_len_def
        pr_out_param_def)
  show "scsi_lun_execute_task alloc' gathered' ?lun' task' = Inl AssertFail" for alloc' gathered' task'
    using flags by (simp add: scsi_lun_execute_task_def scsi_pr_check_def scsi_pr_reserve_reservation_def
        scsi_pr_has_reservation_def c_assert_def Let_def)
qed

theorem reserve_type_zero_asserts_witness:
  "\<exists>lun'. scsi_lun_execute_task None (Some (pr_out_param 17 0)) two_regs_lun
      (task_of port_a (pr_out_cdb PR_OUT_RESERVE 0)) = Inr (status_good, [], lun') \<and>
    (\<forall>alloc' gathered' task'. scsi_lun_execute_task alloc' gathered' lun' task' = Inl AssertFail)"
proof -
  have "24 \<le> sint (from_be32 (drop 5 (pr_out_cdb PR_OUT_RESERVE 0)))" by code_simp
  with reserve_type_zero_asserts [OF two_regs_lun_inv, of "task_of port_a (pr_out_cdb PR_OUT_RESERVE 0)" reg_a None]
  show ?thesis using get_a(2)
    by (simp add: task_of_def pr_out_cdb_def scsi_pr_has_reservation_def)
      (simp add: scsi_concrete no_reservation_def)
qed

text \<open>Preempting an all-registrants reservation without naming a key establishes the
  requested reservation with key 0, as the standard asks for all-registrants types; when the requested
  type has a single holder, the holder's next preemption fails an assertion.\<close>

theorem preempt_all_then_preempt_asserts:
  assumes "scsi_pr_get_registrant lun (task_initiator_port task) (task_target_port task) = Some reg"
    and "lun_inv False lun" and "scsi_pr_is_all_registrants_type lun" and "\<not> all_registrants_type t"
  shows "\<exists>lun'. scsi_pr_out_preempt lun task t (sreg_rkey reg) 0 = Inr (None, status_good, lun') \<and>
    scsi_pr_registrant_is_holder lun' (Some reg) \<and>
    (\<forall>t' sa_rkey. scsi_pr_out_preempt lun' task t' (sreg_rkey reg) sa_rkey = Inl AssertFail)"
proof -
  let ?lun1 = "scsi_pr_remove_all_other_regs lun reg"
  let ?lun' = "scsi_pr_reserve_reservation ?lun1 t 0 reg"
  note reg = get_registrant_SomeD [OF assms(1)]
  have has: "scsi_pr_has_reservation lun"
    using assms(2,3) by (auto simp: scsi_pr_has_reservation_def scsi_pr_is_all_registrants_type_def lun_inv_def
        resv_wf_def no_reservation_def)
  have regs: "reg_head ?lun' = filter (\<lambda>r. sreg_addr r = sreg_addr reg) (reg_head lun)"
    using remove_others_inv(2) [OF assms(2), of reg]
    by (simp add: scsi_pr_reserve_reservation_def scsi_pr_remove_all_other_regs_def)
  have "r = reg" if "r \<in> set (reg_head ?lun')" for r
    using that regs addr_inj [of "reg_head lun" r reg] reg(1) assms(2) by (auto simp: lun_inv_def)
  moreover have "reg \<in> set (reg_head ?lun')" using reg(1) by (simp add: regs)
  ultimately have get: "scsi_pr_get_registrant ?lun' (task_initiator_port task) (task_target_port task) = Some reg"
    using reg(2) get_registrant_None_iff [of ?lun'] get_registrant_SomeD(1) [of ?lun']
    by (metis image_eqI option.exhaust)
  have "scsi_pr_out_preempt lun task t (sreg_rkey reg) 0 =
      Inr (None, status_good, ?lun'\<lparr>pr_generation := pr_generation ?lun' + 1\<rparr>)"
    using assms(1,3) has by (simp add: scsi_pr_out_preempt_def Let_def)
  moreover have "scsi_pr_out_preempt (?lun'\<lparr>pr_generation := g\<rparr>) task t' (sreg_rkey reg) sa_rkey = Inl AssertFail"
    for g t' sa_rkey
    using get assms(4) by (simp add: scsi_pr_out_preempt_def Let_def scsi_pr_get_registrant_def
        scsi_pr_has_reservation_def scsi_pr_is_all_registrants_type_def scsi_pr_reserve_reservation_def c_assert_def)
  moreover have "scsi_pr_registrant_is_holder (?lun'\<lparr>pr_generation := g\<rparr>) (Some reg)" for g
    by (simp add: scsi_pr_registrant_is_holder_def scsi_pr_reserve_reservation_def)
  ultimately show ?thesis by blast
qed

theorem preempt_all_then_preempt_asserts_witness:
  "\<exists>lun'. scsi_pr_out_preempt (held_lun PR_WRITE_EXCLUSIVE_ALL_REGS) (task_of port_b []) PR_WRITE_EXCLUSIVE 34 0 =
      Inr (None, status_good, lun') \<and> scsi_pr_registrant_is_holder lun' (Some reg_b) \<and>
    (\<forall>t' sa_rkey. scsi_pr_out_preempt lun' (task_of port_b []) t' 34 sa_rkey = Inl AssertFail)"
  using preempt_all_then_preempt_asserts [where lun = "held_lun PR_WRITE_EXCLUSIVE_ALL_REGS" and
      task = "task_of port_b []" and reg = reg_b and t = PR_WRITE_EXCLUSIVE] get_b held_lun_inv
  by (simp add: task_of_def pr_type_valid_def scsi_pr_is_all_registrants_type_def all_registrants_type_def)
    (simp add: scsi_concrete scsi_pr_reserve_reservation_def)

section \<open>Enforcement of the reservation types\<close>

text \<open>The role of an initiator and target port pair on a unit, and what the type of a reservation
  allows a role to do with the medium.\<close>

datatype pr_role = RHolder | RRegistrant | ROther

definition nexus_role :: "scsi_lun \<Rightarrow> nat option \<times> nat option \<Rightarrow> pr_role" where
  "nexus_role lun n =
     (if n \<notin> nexus ` set (reg_head lun) then ROther
      else if all_registrants_type (resv_rtype (reservation lun)) \<or>
        (\<exists>h. resv_holder (reservation lun) = Some h \<and> map_option nexus (holder_object lun h) = Some n)
        then RHolder
      else RRegistrant)"

definition pr_allows :: "u8 \<Rightarrow> pr_role \<Rightarrow> bool \<Rightarrow> bool" where
  "pr_allows t role is_write =
     (case role of
        RHolder \<Rightarrow> True
      | RRegistrant \<Rightarrow>
          if t = PR_WRITE_EXCLUSIVE then \<not> is_write else t \<noteq> PR_EXCLUSIVE_ACCESS
      | ROther \<Rightarrow>
          t \<in> {PR_WRITE_EXCLUSIVE, PR_WRITE_EXCLUSIVE_REGS_ONLY, PR_WRITE_EXCLUSIVE_ALL_REGS} \<and> \<not> is_write)"

lemma find_addr:
  assumes "regs_wf regs" and "r \<in> set regs"
  shows "find (\<lambda>reg. sreg_addr reg = sreg_addr r) regs = Some r"
proof -
  have "find (\<lambda>reg. sreg_addr reg = sreg_addr r) regs \<noteq> None"
    using assms(2) by (auto simp: find_None_iff)
  then obtain r' where r': "find (\<lambda>reg. sreg_addr reg = sreg_addr r) regs = Some r'" by blast
  have "r' \<in> set regs" "sreg_addr r' = sreg_addr r" using find_SomeD [OF r'] by simp_all
  then have "r' = r" using addr_inj [OF assms(1) _ assms(2)] by blast
  with r' show ?thesis by simp
qed

lemma nexus_inj:
  "regs_wf regs \<Longrightarrow> r \<in> set regs \<Longrightarrow> r' \<in> set regs \<Longrightarrow> nexus r = nexus r' \<longleftrightarrow> r = r'"
  by (auto simp: regs_wf_def distinct_map dest: inj_onD)

text \<open>The two tests of the code, for a registrant and for a holder, decide the role.\<close>

lemma role_of_registrant:
  assumes inv: "lun_inv True lun" and res: "scsi_pr_has_reservation lun"
    and get: "scsi_pr_get_registrant lun ip tp = g"
  shows "nexus_role lun (map_option port_addr ip, map_option port_addr tp) =
    (if g = None then ROther else if scsi_pr_registrant_is_holder lun g then RHolder else RRegistrant)"
proof (cases g)
  case None
  with get show ?thesis by (simp add: nexus_role_def get_registrant_None_iff)
next
  case (Some reg)
  note reg = get_registrant_SomeD [OF get [unfolded Some]]
  have wf: "regs_wf (reg_head lun)" and rv: "resv_wf True (reg_head lun) (reservation lun)"
    using inv by (simp_all add: lun_inv_def)
  obtain h where h: "resv_holder (reservation lun) = Some h"
    using res by (auto simp: scsi_pr_has_reservation_def)
  with rv obtain r where r: "h = REG (sreg_addr r)" "r \<in> set (reg_head lun)"
    by (cases h) (auto simp: resv_wf_def)
  from h r find_addr [OF wf r(2)] reg(1) nexus_inj [OF wf r(2) reg(1)] addr_inj [OF wf r(2) reg(1)]
  show ?thesis unfolding Some reg(2) [symmetric]
    by (auto simp: nexus_role_def scsi_pr_registrant_is_holder_def scsi_pr_is_all_registrants_type_def
        holder_object_def)
qed

text \<open>C9 (refinement). On a unit with a reservation of a defined type, the check before a read or a
  write decides what the table of the reservation types gives for the role of the task's nexus.\<close>

theorem scsi_access_enforced:
  assumes "lun_inv True lun" and "scsi_pr_has_reservation lun"
    and "task_cdb task ! 0 \<in> set read_opcodes \<or> task_cdb task ! 0 \<in> set write_opcodes"
  shows "scsi_pr_check lun task =
    Inr (pr_allows (resv_rtype (reservation lun))
      (nexus_role lun (map_option port_addr (task_initiator_port task), map_option port_addr (task_target_port task)))
      (task_cdb task ! 0 \<in> set write_opcodes))"
proof -
  let ?op = "task_cdb task ! 0" and ?t = "resv_rtype (reservation lun)"
  let ?reg = "scsi_pr_get_registrant lun (task_initiator_port task) (task_target_port task)"
  have op: "?op \<notin> set always_allowed" "?op \<notin> set registrants_allowed" "?op \<noteq> SPC_PERSISTENT_RESERVE_OUT"
    using assms(3) by (auto simp: read_opcodes_def write_opcodes_def always_allowed_def registrants_allowed_def)
  have t: "pr_type_valid ?t" using strict_rtype [OF assms(1)] assms(2) by (simp add: scsi_pr_has_reservation_def)
  have all: "?reg \<noteq> None \<Longrightarrow> \<not> scsi_pr_registrant_is_holder lun ?reg \<Longrightarrow> \<not> all_registrants_type ?t"
    by (auto simp: scsi_pr_registrant_is_holder_def scsi_pr_is_all_registrants_type_def)
  have none: "?reg = None \<Longrightarrow> \<not> scsi_pr_registrant_is_holder lun ?reg"
    using assms(2) by (auto simp: scsi_pr_registrant_is_holder_def scsi_pr_has_reservation_def)
  show ?thesis
  proof (cases "scsi_pr_registrant_is_holder lun ?reg")
    case True
    then show ?thesis using none t assms(2) role_of_registrant [OF assms(1,2) refl, of "task_initiator_port task" "task_target_port task"]
      by (auto simp: scsi_pr_check_def pr_allows_def pr_type_valid_def Let_def)
  next
    case False
    with op t assms(2,3) all show ?thesis
      unfolding role_of_registrant [OF assms(1,2) refl]
      by (auto simp: scsi_pr_check_def pr_allows_def pr_type_valid_def all_registrants_type_def Let_def)
  qed
qed

theorem scsi_access_enforced_witness:
  "scsi_pr_check (held_lun PR_WRITE_EXCLUSIVE) (task_of port_b [0x2a]) =
    Inr (pr_allows PR_WRITE_EXCLUSIVE (nexus_role (held_lun PR_WRITE_EXCLUSIVE) (Some 2, Some 3)) True)"
  using scsi_access_enforced [OF held_lun_inv, of PR_WRITE_EXCLUSIVE "task_of port_b [0x2a]"]
  by (simp add: pr_type_valid_def write_opcodes_def scsi_pr_has_reservation_def held_lun_def
      scsi_pr_reserve_reservation_def task_of_def port_b_def port_t_def)

section \<open>Preemption\<close>



section \<open>Reading the keys\<close>

text \<open>How an initiator reads the response: the generation and the keys that the additional length
  covers.\<close>

definition decode_keys :: "u8 list \<Rightarrow> u32 \<times> u64 list" where
  "decode_keys data = (from_be32 data,
     map (\<lambda>i. from_be64 (drop (8 + 8 * i) data)) [0..<unat (from_be32 (drop 4 data)) div 8])"

abbreviation key_bytes :: "scsi_registrant list \<Rightarrow> u8 list" where
  "key_bytes regs \<equiv> concat (map (\<lambda>r. to_be64 (sreg_rkey r)) regs)"

lemma length_key_bytes [simp]: "length (key_bytes regs) = 8 * length regs"
  by (induction regs) simp_all

lemma read_keys_loop_eq:
  assumes "8 + count * 8 \<le> length data" and "n = min (length regs) ((length data - 8) div 8 - count)"
  shows "read_keys_loop regs count data = Inr (count + n, take (8 + count * 8) data @
    key_bytes (take n regs) @ drop (8 + (count + n) * 8) data)"
  using assms
proof (induction regs arbitrary: count data n)
  case (Cons reg regs)
  show ?case
  proof (cases "(count + 1) * 8 + 8 > length data")
    case True
    then have "n = 0" using Cons.prems by auto
    with True show ?thesis by simp
  next
    case False
    define d where "d = take (8 + count * 8) data @ to_be64 (sreg_rkey reg) @ drop (8 + count * 8 + 8) data"
    define m where "m = min (length regs) ((length data - 8) div 8 - (count + 1))"
    have d: "store_bytes (8 + count * 8) (to_be64 (sreg_rkey reg)) data = Inr d"
      using False by (simp add: store_bytes_ok d_def)
    note len = store_bytes_length [OF d]
    have n: "n = Suc m" using False Cons.prems by (simp add: m_def) arith
    have "read_keys_loop regs (count + 1) d = Inr (count + 1 + m, take (8 + (count + 1) * 8) d @
        key_bytes (take m regs) @ drop (8 + (count + 1 + m) * 8) d)"
      using False by (intro Cons.IH) (simp_all add: len m_def)
    moreover have "take (8 + (count + 1) * 8) d = take (8 + count * 8) data @ to_be64 (sreg_rkey reg)"
      using False by (simp add: d_def)
    moreover have "drop (8 + (count + 1 + m) * 8) d = drop (8 + (count + n) * 8) data"
      using False by (simp add: d_def n algebra_simps)
    ultimately show ?thesis using False d by (simp add: n)
  qed
qed simp

lemma read_keys_eq:
  assumes "8 \<le> length data" and n: "n = min (length (reg_head lun)) ((length data - 8) div 8)"
  shows "scsi_pr_in_read_keys lun data = Inr (8 + n * 8, to_be32 (pr_generation lun) @ to_be32 (of_nat (n * 8)) @
    key_bytes (take n (reg_head lun)) @ drop (8 + n * 8) data)"
proof -
  define d where "d = to_be32 (pr_generation lun) @ drop 4 data"
  have d: "store_bytes 0 (to_be32 (pr_generation lun)) data = Inr d" "length d = length data"
    using assms(1) by (simp_all add: d_def store_bytes_ok)
  define rest where "rest = key_bytes (take n (reg_head lun)) @ drop (8 + n * 8) data"
  define d2 where "d2 = to_be32 (pr_generation lun) @ take 4 (drop 4 data) @ rest"
  have "read_keys_loop (reg_head lun) 0 d = Inr (0 + n, take (8 + 0 * 8) d @
      key_bytes (take n (reg_head lun)) @ drop (8 + (0 + n) * 8) d)"
    using assms d(2) by (intro read_keys_loop_eq) simp_all
  moreover have "take 8 d = to_be32 (pr_generation lun) @ take 4 (drop 4 data)"
    "drop (8 + n * 8) d = drop (8 + n * 8) data" using assms(1) by (simp_all add: d_def)
  ultimately have "read_keys_loop (reg_head lun) 0 d = Inr (n, d2)"
    by (simp add: d2_def rest_def)
  moreover have "store_bytes 4 bs d2 = Inr (to_be32 (pr_generation lun) @ bs @ rest)" if "length bs = 4" for bs
    using that assms(1) by (simp add: d2_def store_bytes_ok)
  ultimately show ?thesis using d(1)
    by (simp add: scsi_pr_in_read_keys_def rest_def [symmetric])
qed

lemma key_bytes_nth:
  "i < length regs \<Longrightarrow> from_be64 (drop (8 * i) (key_bytes regs @ rest)) = sreg_rkey (regs ! i)"
proof (induction regs arbitrary: i)
  case (Cons r regs)
  then show ?case by (cases i) simp_all
qed simp

text \<open>C27 (roundtrip). An initiator that decodes the response to READ KEYS gets the generation and the
  keys of the registrants in order, as many as fit into the buffer it asked for.\<close>

theorem read_keys_roundtrip:
  assumes "8 \<le> length data" and "length data < 65536"
  shows "\<exists>data'. scsi_pr_in_read_keys lun data =
      Inr (8 + 8 * min (length (reg_head lun)) ((length data - 8) div 8), data') \<and>
    length data' = length data \<and>
    decode_keys data' = (pr_generation lun,
      map sreg_rkey (take ((length data - 8) div 8) (reg_head lun)))"
proof -
  define n where "n = min (length (reg_head lun)) ((length data - 8) div 8)"
  let ?ks = "take n (reg_head lun)"
  let ?data' = "to_be32 (pr_generation lun) @ to_be32 (of_nat (n * 8)) @ key_bytes ?ks @ drop (8 + n * 8) data"
  have n: "n * 8 + 8 \<le> length data" "length ?ks = n" using assms(1) by (auto simp: n_def)
  have ks: "?ks = take ((length data - 8) div 8) (reg_head lun)" by (simp add: n_def min_def)
  have drop: "drop (8 + 8 * i) ?data' = drop (8 * i) (key_bytes ?ks @ drop (8 + n * 8) data)" for i
    by simp
  have "from_be64 (drop (8 + 8 * i) ?data') = sreg_rkey (?ks ! i)" if "i < n" for i
    unfolding drop using that n(2) by (intro key_bytes_nth) simp
  then have "map (\<lambda>i. from_be64 (drop (8 + 8 * i) ?data')) [0..<n] = map sreg_rkey ?ks"
    using n(2) by (intro nth_equalityI) simp_all
  moreover have "unat (of_nat (n * 8) :: u32) = n * 8" using n(1) assms(2) by (intro unat_of_nat_u32) simp
  moreover have "drop 4 ?data' = to_be32 (of_nat (n * 8)) @ key_bytes ?ks @ drop (8 + n * 8) data" by simp
  ultimately have "decode_keys ?data' = (pr_generation lun, map sreg_rkey ?ks)"
    unfolding decode_keys_def by (simp del: of_nat_mult drop_append)
  moreover have "length ?data' = length data" using n by simp
  ultimately show ?thesis
    using read_keys_eq [OF assms(1) n_def] unfolding ks [symmetric] n_def [symmetric] by (simp add: mult.commute)
qed

theorem read_keys_roundtrip_witness:
  "\<exists>data'. scsi_pr_in_read_keys two_regs_lun (replicate 20 0) = Inr (16, data') \<and> length data' = 20 \<and>
    decode_keys data' = (2, [17])"
  using read_keys_roundtrip [of "replicate 20 0" two_regs_lun] by (simp add: scsi_concrete)

end
