(* ===== verification/Pipe.thy ===== *)
theory Pipe
  imports Endian
begin

text \<open>
  The byte pipe of \<^verbatim>\<open>lib/util/pipe.c\<close>: a ring buffer whose free and filled regions are handed
  out as up to two memory segments, and the groups that share the buffers of empty pipes.
  \<open>Pipe_Props\<close> holds the properties.
\<close>

section \<open>Data\<close>

text \<open>A buffer is the list of its bytes; \<open>None\<close> is the NULL pointer of an empty pipe in a group.\<close>

record spdk_pipe =
  pipe_buf :: "u8 list option"
  pipe_sz :: u32
  pipe_write :: u32
  pipe_read :: u32
  pipe_full :: bool
  pipe_group :: bool

text \<open>The free buffers of a group with their sizes, first to last.\<close>

type_synonym pipe_bufs = "(u32 \<times> u8 list) list"

text \<open>A segment of the pipe's buffer: its offset, or NULL, and its length.\<close>

type_synonym iov = "u32 option \<times> u32"

definition spdk_pipe_create :: "u8 list \<Rightarrow> u32 \<Rightarrow> spdk_pipe" where
  "spdk_pipe_create buf sz = \<lparr>pipe_buf = Some buf, pipe_sz = sz, pipe_write = 0, pipe_read = 0,
     pipe_full = False, pipe_group = False\<rparr>"

section \<open>Groups\<close>

definition pipe_alloc_buf_from_group :: "pipe_bufs \<Rightarrow> spdk_pipe \<Rightarrow> (pipe_bufs \<times> spdk_pipe) res" where
  "pipe_alloc_buf_from_group bufs pipe =
     c_assert (pipe_group pipe)
       (case List.extract (\<lambda>buf. fst buf = pipe_sz pipe) bufs of
          None \<Rightarrow> Inl AssertFail
        | Some (before, buf, after) \<Rightarrow> Inr (before @ after, pipe\<lparr>pipe_buf := Some (snd buf)\<rparr>))"

text \<open>A buffer that is given to the group starts with a header, the link and the size; \<open>hdr\<close> are
  the bytes of that header.\<close>

definition pipe_free_buf_to_group :: "u8 list \<Rightarrow> pipe_bufs \<Rightarrow> spdk_pipe \<Rightarrow> (pipe_bufs \<times> spdk_pipe) res" where
  "pipe_free_buf_to_group hdr bufs pipe =
     (case pipe_buf pipe of
        None \<Rightarrow> Inl Undefined
      | Some buf \<Rightarrow>
          if length hdr \<le> length buf
          then Inr ((pipe_sz pipe, hdr @ drop (length hdr) buf) # bufs, pipe\<lparr>pipe_buf := None\<rparr>)
          else Inl Undefined)"

definition spdk_pipe_group_create :: pipe_bufs where
  "spdk_pipe_group_create = []"

definition spdk_pipe_group_destroy :: "pipe_bufs \<Rightarrow> unit res" where
  "spdk_pipe_group_destroy bufs = c_assert (bufs = []) (Inr ())"

definition spdk_pipe_group_add :: "u8 list \<Rightarrow> pipe_bufs \<Rightarrow> spdk_pipe \<Rightarrow> (pipe_bufs \<times> spdk_pipe) res" where
  "spdk_pipe_group_add hdr bufs pipe =
     c_assert (\<not> pipe_group pipe)
       (let pipe' = pipe\<lparr>pipe_group := True\<rparr> in
        if pipe_read pipe \<noteq> pipe_write pipe \<or> pipe_full pipe then Inr (bufs, pipe')
        else pipe_free_buf_to_group hdr bufs pipe')"

definition spdk_pipe_group_remove :: "pipe_bufs \<Rightarrow> spdk_pipe \<Rightarrow> (pipe_bufs \<times> spdk_pipe) res" where
  "spdk_pipe_group_remove bufs pipe =
     c_assert (pipe_group pipe)
       (res_bind (if pipe_buf pipe = None then pipe_alloc_buf_from_group bufs pipe else Inr (bufs, pipe))
          (\<lambda>(bufs', pipe'). Inr (bufs', pipe'\<lparr>pipe_group := False\<rparr>)))"

text \<open>Destroying a pipe returns its buffer.\<close>

definition spdk_pipe_destroy :: "pipe_bufs \<Rightarrow> spdk_pipe \<Rightarrow> (pipe_bufs \<times> u8 list option) res" where
  "spdk_pipe_destroy bufs pipe =
     res_bind (if pipe_group pipe then spdk_pipe_group_remove bufs pipe else Inr (bufs, pipe))
       (\<lambda>(bufs', pipe'). Inr (bufs', pipe_buf pipe'))"

section \<open>Writer\<close>

text \<open>The result is the number of bytes, the segments the function sets, and the state. The code returns
  the number as an \<^verbatim>\<open>int\<close>, which is the same below \<open>2 ^ 31\<close>.\<close>

definition spdk_pipe_writer_get_buffer ::
  "pipe_bufs \<Rightarrow> spdk_pipe \<Rightarrow> u32 \<Rightarrow> (u32 \<times> iov list \<times> pipe_bufs \<times> spdk_pipe) res" where
  "spdk_pipe_writer_get_buffer bufs pipe requested_sz =
     (let read = pipe_read pipe; write = pipe_write pipe in
      if pipe_full pipe \<or> requested_sz = 0 then Inr (0, [(None, 0)], bufs, pipe)
      else
        res_bind (if pipe_buf pipe = None then pipe_alloc_buf_from_group bufs pipe else Inr (bufs, pipe))
          (\<lambda>(bufs', pipe').
             if read \<le> write then
               (let sz = min requested_sz (pipe_sz pipe' - write);
                    rest = requested_sz - sz;
                    sz' = (if rest > 0 then min rest read else 0)
                in Inr (sz + sz', [(Some write, sz), (if sz' = 0 then None else Some 0, sz')], bufs', pipe'))
             else
               (let sz = min requested_sz (read - write)
                in Inr (sz, [(Some write, sz), (None, 0)], bufs', pipe'))))"

definition writer_advance_to :: "spdk_pipe \<Rightarrow> u32 \<Rightarrow> spdk_pipe" where
  "writer_advance_to pipe write =
     pipe\<lparr>pipe_full := (pipe_full pipe \<or> pipe_read pipe = write), pipe_write := write\<rparr>"

definition spdk_pipe_writer_advance :: "spdk_pipe \<Rightarrow> u32 \<Rightarrow> errno option \<times> spdk_pipe" where
  "spdk_pipe_writer_advance pipe requested_sz =
     (let read = pipe_read pipe; write = pipe_write pipe in
      if requested_sz > pipe_sz pipe \<or> pipe_full pipe then (Some EINVAL, pipe)
      else if read \<le> write then
        (if requested_sz > (pipe_sz pipe - write) + read then (Some EINVAL, pipe)
         else
           (let sz = min requested_sz (pipe_sz pipe - write);
                write1 = (if write + sz = pipe_sz pipe then 0 else write + sz);
                rest = requested_sz - sz
            in (None, writer_advance_to pipe (if rest > 0 then rest else write1))))
      else if requested_sz > read - write then (Some EINVAL, pipe)
      else (None, writer_advance_to pipe (write + requested_sz)))"

section \<open>Reader\<close>

definition spdk_pipe_reader_bytes_available :: "spdk_pipe \<Rightarrow> u32" where
  "spdk_pipe_reader_bytes_available pipe =
     (let read = pipe_read pipe; write = pipe_write pipe in
      if read = write \<and> \<not> pipe_full pipe then 0
      else if read < write then write - read
      else (pipe_sz pipe - read) + write)"

definition spdk_pipe_reader_get_buffer :: "spdk_pipe \<Rightarrow> u32 \<Rightarrow> u32 \<times> iov list" where
  "spdk_pipe_reader_get_buffer pipe requested_sz =
     (let read = pipe_read pipe; write = pipe_write pipe in
      if (read = write \<and> \<not> pipe_full pipe) \<or> requested_sz = 0 then (0, [(None, 0), (None, 0)])
      else if read < write then
        (let sz = min requested_sz (write - read) in (sz, [(Some read, sz), (None, 0)]))
      else
        (let sz = min requested_sz (pipe_sz pipe - read);
             rest = requested_sz - sz;
             sz' = (if rest > 0 then min rest write else 0)
         in (sz + sz', [(Some read, sz), (if sz' = 0 then None else Some 0, sz')])))"

text \<open>The end of \<^verbatim>\<open>spdk_pipe_reader_advance\<close>: an emptied pipe starts over at the beginning of
  its buffer and, in a group, gives the buffer back.\<close>

definition reader_advance_to ::
  "u8 list \<Rightarrow> pipe_bufs \<Rightarrow> spdk_pipe \<Rightarrow> u32 \<Rightarrow> (pipe_bufs \<times> spdk_pipe) res" where
  "reader_advance_to hdr bufs pipe read =
     (let pipe1 = pipe\<lparr>pipe_full := False\<rparr> in
      if read = pipe_write pipe then
        (let pipe2 = pipe1\<lparr>pipe_read := 0, pipe_write := 0\<rparr> in
         if pipe_group pipe then pipe_free_buf_to_group hdr bufs pipe2 else Inr (bufs, pipe2))
      else Inr (bufs, pipe1\<lparr>pipe_read := read\<rparr>))"

definition spdk_pipe_reader_advance ::
  "u8 list \<Rightarrow> pipe_bufs \<Rightarrow> spdk_pipe \<Rightarrow> u32 \<Rightarrow> (errno option \<times> pipe_bufs \<times> spdk_pipe) res" where
  "spdk_pipe_reader_advance hdr bufs pipe requested_sz =
     (let read = pipe_read pipe; write = pipe_write pipe;
          advance = (\<lambda>r. map_sum id (\<lambda>(b, p). (None, b, p)) (reader_advance_to hdr bufs pipe r));
          refuse = Inr (Some EINVAL, bufs, pipe)
      in if requested_sz = 0 then Inr (None, bufs, pipe)
         else if read < write then
           (if requested_sz > write - read then refuse else advance (read + requested_sz))
         else
           (let sz = min requested_sz (pipe_sz pipe - read);
                read1 = (if read + sz = pipe_sz pipe then 0 else read + sz);
                rest = requested_sz - sz
            in if rest > 0 then (if rest > write then refuse else advance rest)
               else advance read1))"

section \<open>Using the segments\<close>

text \<open>A client stores bytes into the segments it got, or loads them. A NULL or out-of-range segment
  is undefined behaviour unless it is empty.\<close>

fun iov_store :: "iov list \<Rightarrow> u8 list \<Rightarrow> u8 list \<Rightarrow> u8 list res" where
  "iov_store [] bs buf = Inr buf"
| "iov_store ((base, len) # iovs) bs buf =
     (if len = 0 then iov_store iovs bs buf
      else
        (case base of
           None \<Rightarrow> Inl Undefined
         | Some off \<Rightarrow>
             res_bind (store_bytes (unat off) (take (unat len) bs) buf)
               (\<lambda>buf'. iov_store iovs (drop (unat len) bs) buf')))"

fun iov_load :: "iov list \<Rightarrow> u8 list \<Rightarrow> u8 list res" where
  "iov_load [] buf = Inr []"
| "iov_load ((base, len) # iovs) buf =
     (if len = 0 then iov_load iovs buf
      else
        (case base of
           None \<Rightarrow> Inl Undefined
         | Some off \<Rightarrow>
             if unat off + unat len \<le> length buf
             then map_sum id (\<lambda>bs. take (unat len) (drop (unat off) buf) @ bs) (iov_load iovs buf)
             else Inl Undefined))"

text \<open>A write of a client that needs room for all its bytes, and a read of as many bytes as there
  are, up to a limit.\<close>

definition pipe_put :: "u8 list \<Rightarrow> pipe_bufs \<times> spdk_pipe \<Rightarrow> (pipe_bufs \<times> spdk_pipe) res" where
  "pipe_put bs s =
     res_bind (spdk_pipe_writer_get_buffer (fst s) (snd s) (of_nat (length bs))) (\<lambda>(n, iovs, bufs, pipe).
       if n \<noteq> of_nat (length bs) then Inl (Errno ENOSPC)
       else
         (case pipe_buf pipe of
            None \<Rightarrow> if bs = [] then Inr (bufs, pipe) else Inl Undefined
          | Some buf \<Rightarrow>
              res_bind (iov_store iovs bs buf) (\<lambda>buf'.
                if bs = [] then Inr (bufs, pipe)
                else
                  (case spdk_pipe_writer_advance (pipe\<lparr>pipe_buf := Some buf'\<rparr>) (of_nat (length bs)) of
                     (Some e, _) \<Rightarrow> Inl (Errno e)
                   | (None, pipe') \<Rightarrow> Inr (bufs, pipe')))))"

definition pipe_get ::
  "u8 list \<Rightarrow> u32 \<Rightarrow> pipe_bufs \<times> spdk_pipe \<Rightarrow> (u8 list \<times> pipe_bufs \<times> spdk_pipe) res" where
  "pipe_get hdr limit s =
     (let (n, iovs) = spdk_pipe_reader_get_buffer (snd s) limit in
      if n = 0 then Inr ([], s)
      else
        (case pipe_buf (snd s) of
           None \<Rightarrow> Inl Undefined
         | Some buf \<Rightarrow>
             res_bind (iov_load iovs buf) (\<lambda>bs.
             res_bind (spdk_pipe_reader_advance hdr (fst s) (snd s) n) (\<lambda>(rc, bufs, pipe).
               case rc of Some e \<Rightarrow> Inl (Errno e) | None \<Rightarrow> Inr (bs, bufs, pipe)))))"

end
