(* ===== verification/Pipe_Props.thy ===== *)
theory Pipe_Props
  imports Pipe
begin

text \<open>
  The byte pipe refines a bounded queue of bytes. The queue's interface is the locale
  \<open>byte_fifo\<close>; the pipe's writer and reader operations are an instance of it.
\<close>

section \<open>Ring buffers\<close>

definition ring_slice :: "'a list \<Rightarrow> nat \<Rightarrow> nat \<Rightarrow> 'a list" where
  "ring_slice b r n = map (\<lambda>i. b ! ((r + i) mod length b)) [0..<n]"

definition ring_put :: "'a list \<Rightarrow> nat \<Rightarrow> 'a list \<Rightarrow> 'a list" where
  "ring_put b w bs =
     (let s = length b; n = length bs in
      if w + n \<le> s then take w b @ bs @ drop (w + n) b
      else drop (s - w) bs @ take (s - n) (drop (w + n - s) b) @ take (s - w) bs)"

lemma mod_less_double: "(x :: nat) < 2 * s \<Longrightarrow> x mod s = (if x < s then x else x - s)"
  by (simp add: le_mod_geq)

lemma length_ring_slice [simp]: "length (ring_slice b r n) = n"
  by (simp add: ring_slice_def)

lemma ring_slice_0 [simp]: "ring_slice b r 0 = []"
  by (simp add: ring_slice_def)

lemma nth_ring_slice [simp]: "i < n \<Longrightarrow> ring_slice b r n ! i = b ! ((r + i) mod length b)"
  by (simp add: ring_slice_def)

lemma ring_slice_nowrap: "r + n \<le> length b \<Longrightarrow> ring_slice b r n = take n (drop r b)"
  by (intro nth_equalityI) simp_all

lemma ring_slice_wrap:
  assumes "r < length b" and "length b \<le> r + n" and "n \<le> length b"
  shows "ring_slice b r n = drop r b @ take (r + n - length b) b"
  using assms by (intro nth_equalityI) (auto simp: nth_append mod_less_double add.commute)

lemma ring_slice_append:
  "ring_slice b r (m + n) = ring_slice b r m @ ring_slice b ((r + m) mod length b) n"
proof (intro nth_equalityI)
  show "ring_slice b r (m + n) ! i = (ring_slice b r m @ ring_slice b ((r + m) mod length b) n) ! i"
    if "i < length (ring_slice b r (m + n))" for i
  proof (cases "i < m")
    case False
    then obtain k where "i = m + k" using le_Suc_ex not_less by blast
    with that show ?thesis using mod_add_left_eq [of "r + m" "length b" k]
      by (simp add: nth_append add.assoc)
  qed (simp add: nth_append)
qed simp

lemma take_ring_slice: "k \<le> n \<Longrightarrow> take k (ring_slice b r n) = ring_slice b r k"
  by (intro nth_equalityI) simp_all

lemma drop_ring_slice: "k \<le> n \<Longrightarrow> drop k (ring_slice b r n) = ring_slice b ((r + k) mod length b) (n - k)"
  using mod_add_left_eq [of "r + k" "length b"] by (intro nth_equalityI) (auto simp: add.assoc)

lemma length_ring_put [simp]: "w < length b \<Longrightarrow> length bs \<le> length b \<Longrightarrow> length (ring_put b w bs) = length b"
  by (simp add: ring_put_def Let_def)

lemma nth_ring_put:
  assumes "j < length b" and "w < length b" and "length bs \<le> length b"
  shows "ring_put b w bs ! j =
    (let k = (if w \<le> j then j - w else j + length b - w) in if k < length bs then bs ! k else b ! j)"
  using assms by (auto simp: ring_put_def Let_def nth_append add.commute)

lemma ring_slice_put:
  assumes "w < length b" and "length bs \<le> length b"
  shows "ring_slice (ring_put b w bs) w (length bs) = bs"
  using assms by (intro nth_equalityI) (auto simp: mod_less_double nth_ring_put Let_def)

lemma ring_slice_put_other:
  assumes "r < length b" and "len + length bs \<le> length b" and "w = (r + len) mod length b"
  shows "ring_slice (ring_put b w bs) r len = ring_slice b r len"
proof (intro nth_equalityI)
  have "0 < length b" using assms(1) by (rule le_less_trans [rotated]) simp
  then have "w < length b" using assms(3) by simp
  then show "ring_slice (ring_put b w bs) r len ! i = ring_slice b r len ! i"
    if "i < length (ring_slice (ring_put b w bs) r len)" for i
    using that assms by (auto simp: mod_less_double nth_ring_put Let_def split: if_splits)
qed simp

section \<open>Abstraction and invariant\<close>

abbreviation rd :: "spdk_pipe \<Rightarrow> nat" where "rd p \<equiv> unat (pipe_read p)"
abbreviation wr :: "spdk_pipe \<Rightarrow> nat" where "wr p \<equiv> unat (pipe_write p)"
abbreviation cap :: "spdk_pipe \<Rightarrow> nat" where "cap p \<equiv> unat (pipe_sz p)"

definition pipe_len :: "spdk_pipe \<Rightarrow> nat" where
  "pipe_len p = (if pipe_full p then cap p else if rd p \<le> wr p then wr p - rd p else cap p - rd p + wr p)"

definition pipe_contents :: "spdk_pipe \<Rightarrow> u8 list" where
  "pipe_contents p = (case pipe_buf p of None \<Rightarrow> [] | Some b \<Rightarrow> ring_slice b (rd p) (pipe_len p))"

definition pipe_inv :: "spdk_pipe \<Rightarrow> bool" where
  "pipe_inv p \<longleftrightarrow> rd p < cap p \<and> wr p < cap p \<and> (pipe_full p \<longrightarrow> rd p = wr p) \<and>
     (pipe_buf p = None \<longrightarrow> pipe_group p \<and> rd p = wr p \<and> \<not> pipe_full p) \<and>
     (\<forall>b. pipe_buf p = Some b \<longrightarrow> length b = cap p)"

definition bufs_inv :: "pipe_bufs \<Rightarrow> bool" where
  "bufs_inv bufs \<longleftrightarrow> (\<forall>(s, b) \<in> set bufs. length b = unat s)"

text \<open>A pipe with the free buffers of its group: a pipe without a buffer finds one, and a buffer is
  large enough for the header of size \<open>h\<close>.\<close>

definition fifo_inv :: "nat \<Rightarrow> pipe_bufs \<times> spdk_pipe \<Rightarrow> bool" where
  "fifo_inv h s \<longleftrightarrow> pipe_inv (snd s) \<and> bufs_inv (fst s) \<and>
     (pipe_buf (snd s) = None \<longrightarrow> pipe_sz (snd s) \<in> fst ` set (fst s)) \<and>
     (pipe_group (snd s) \<longrightarrow> h \<le> cap (snd s))"

text \<open>How many buffers of a size a pipe has given to its group, and how an operation balances that
  with the free buffers.\<close>

definition owed :: "u32 \<Rightarrow> spdk_pipe \<Rightarrow> nat" where
  "owed z p = (if pipe_buf p = None \<and> pipe_sz p = z then 1 else 0)"

definition balanced :: "pipe_bufs \<times> spdk_pipe \<Rightarrow> pipe_bufs \<times> spdk_pipe \<Rightarrow> bool" where
  "balanced s s' \<longleftrightarrow> pipe_sz (snd s') = pipe_sz (snd s) \<and> pipe_group (snd s') = pipe_group (snd s) \<and>
     (\<forall>z. count_list (map fst (fst s')) z + owed z (snd s) = count_list (map fst (fst s)) z + owed z (snd s'))"

lemma balanced_refl: "balanced s s"
  by (simp add: balanced_def)

lemma pipe_len_le: "pipe_inv p \<Longrightarrow> pipe_len p \<le> cap p"
  by (auto simp: pipe_inv_def pipe_len_def)

lemma pipe_end: "pipe_inv p \<Longrightarrow> (rd p + pipe_len p) mod cap p = wr p"
  by (auto simp: pipe_inv_def pipe_len_def)

lemma length_contents: "pipe_inv p \<Longrightarrow> length (pipe_contents p) = pipe_len p"
  by (auto simp: pipe_contents_def pipe_inv_def pipe_len_def split: option.split)

text \<open>The number the code computes as available is the length of the contents.\<close>

lemma bytes_available_eq:
  assumes "pipe_inv p" shows "unat (spdk_pipe_reader_bytes_available p) = pipe_len p"
proof -
  have "unat (pipe_sz p - pipe_read p + pipe_write p) = cap p - rd p + wr p" if "wr p \<le> rd p"
    using assms that by (subst unat_add_u32)
      (auto simp: pipe_inv_def word_nat intro: le_less_trans [OF _ unat_u32_bound [of "pipe_sz p"]])
  with assms show ?thesis
    by (auto simp: spdk_pipe_reader_bytes_available_def pipe_len_def pipe_inv_def Let_def word_nat unat_eq_iff)
qed

section \<open>Writer\<close>

lemma iov_store_one:
  "0 < unat l \<Longrightarrow> unat off + unat l \<le> length b \<Longrightarrow> length bs = unat l \<Longrightarrow>
    iov_store [(Some off, l), (x, 0)] bs b = Inr (take (unat off) b @ bs @ drop (unat off + unat l) b)"
  by (auto simp: store_bytes_ok)

lemma iov_store_two:
  assumes "0 < unat l" and "0 < unat l'" and "unat off + unat l = length b" and "length bs = unat l + unat l'"
    and "unat l' \<le> unat off"
  shows "iov_store [(Some off, l), (Some 0, l')] bs b = Inr (ring_put b (unat off) bs)"
proof -
  have "l \<noteq> 0" "l' \<noteq> 0" using assms(1,2) by auto
  moreover have "store_bytes (unat off) (take (unat l) bs) b = Inr (take (unat off) b @ take (unat l) bs)"
    using assms by (simp add: store_bytes_ok)
  moreover have "store_bytes 0 (take (unat l') (drop (unat l) bs)) (take (unat off) b @ take (unat l) bs) =
      Inr (drop (unat l) bs @ drop (unat l') (take (unat off) b) @ take (unat l) bs)"
    using assms by (simp add: store_bytes_ok)
  moreover have "ring_put b (unat off) bs = drop (unat l) bs @ drop (unat l') (take (unat off) b) @ take (unat l) bs"
    using assms by (simp add: ring_put_def Let_def drop_take) (simp add: algebra_simps flip: assms(3))
  ultimately show ?thesis by simp
qed

text \<open>The request of a writer that has room for its bytes.\<close>

lemma writer_request:
  assumes "pipe_inv p" and "bs \<noteq> []" and "pipe_len p + length bs \<le> cap p"
  shows "unat (of_nat (length bs) :: u32) = length bs" and "of_nat (length bs) \<noteq> (0 :: u32)" and "\<not> pipe_full p"
proof -
  show u: "unat (of_nat (length bs) :: u32) = length bs"
    using assms(3) by (intro unat_of_nat_u32) (use unat_u32_bound [of "pipe_sz p"] in linarith)
  show "of_nat (length bs) \<noteq> (0 :: u32)" using u assms(2) by (metis length_0_conv unat_0)
  show "\<not> pipe_full p" using assms by (auto simp: pipe_len_def)
qed

lemma writer_get_store:
  assumes inv: "pipe_inv p" and buf: "pipe_buf p = Some b" and bs: "bs \<noteq> []"
    and room: "pipe_len p + length bs \<le> cap p"
  obtains iovs where "spdk_pipe_writer_get_buffer bufs p (of_nat (length bs)) = Inr (of_nat (length bs), iovs, bufs, p)"
    and "iov_store iovs bs b = Inr (ring_put b (wr p) bs)"
proof -
  define N where "N = (of_nat (length bs) :: u32)"
  note req = writer_request [OF inv bs room, folded N_def]
  have inv': "rd p < cap p" "wr p < cap p" "length b = cap p" using inv buf by (auto simp: pipe_inv_def)
  have left: "unat (pipe_sz p - pipe_write p) = cap p - wr p" using inv' by (simp add: word_nat)
  have n0: "0 < length bs" using bs by simp
  consider (wrap) "rd p \<le> wr p" "cap p - wr p < length bs"
    | (tail) "rd p \<le> wr p" "length bs \<le> cap p - wr p" | (mid) "wr p < rd p" by linarith
  then show ?thesis
  proof cases
    case wrap
    let ?l = "pipe_sz p - pipe_write p" and ?l' = "N - (pipe_sz p - pipe_write p)"
    have l: "?l \<le> N" "min N ?l = ?l" using wrap left req(1) by (simp_all add: word_le_nat_alt min_def)
    have l': "unat ?l' = length bs - (cap p - wr p)" using l left req(1) by (simp add: word_nat)
    have "length bs - (cap p - wr p) \<le> rd p" using room wrap(1) req(3) inv' by (simp add: pipe_len_def)
    then have m: "min ?l' (pipe_read p) = ?l'" using l' by (simp add: min_def word_le_nat_alt)
    have pos: "0 < ?l'" "?l' \<noteq> 0" using l' wrap(2) by (auto simp: word_less_nat_alt)
    have "spdk_pipe_writer_get_buffer bufs p N = Inr (N, [(Some (pipe_write p), ?l), (Some 0, ?l')], bufs, p)"
      using req(2,3) wrap(1) buf l m pos by (simp add: spdk_pipe_writer_get_buffer_def word_le_nat_alt Let_def)
    moreover have "iov_store [(Some (pipe_write p), ?l), (Some 0, ?l')] bs b = Inr (ring_put b (wr p) bs)"
      using wrap left l' inv' room by (intro iov_store_two) (auto simp: pipe_len_def)
    ultimately show ?thesis using that N_def by metis
  next
    case tail
    have m: "min N (pipe_sz p - pipe_write p) = N" using tail left req(1) by (simp add: word_le_nat_alt min_def)
    have "spdk_pipe_writer_get_buffer bufs p N = Inr (N, [(Some (pipe_write p), N), (None, 0)], bufs, p)"
      using req(2,3) tail(1) buf m by (simp add: spdk_pipe_writer_get_buffer_def word_le_nat_alt Let_def)
    moreover have "iov_store [(Some (pipe_write p), N), (None, 0)] bs b = Inr (ring_put b (wr p) bs)"
      using tail inv' req(1) n0 by (subst iov_store_one) (auto simp: ring_put_def Let_def)
    ultimately show ?thesis using that N_def by metis
  next
    case mid
    then have d: "unat (pipe_read p - pipe_write p) = rd p - wr p" by (simp add: word_nat)
    have n: "length bs \<le> rd p - wr p" using room mid req(3) by (auto simp: pipe_len_def)
    then have m: "min N (pipe_read p - pipe_write p) = N" using d req(1) by (simp add: word_le_nat_alt min_def)
    have "spdk_pipe_writer_get_buffer bufs p N = Inr (N, [(Some (pipe_write p), N), (None, 0)], bufs, p)"
      using req(2,3) mid buf m by (simp add: spdk_pipe_writer_get_buffer_def word_le_nat_alt Let_def)
    moreover have "iov_store [(Some (pipe_write p), N), (None, 0)] bs b = Inr (ring_put b (wr p) bs)"
      using mid inv' req(1) n0 n by (subst iov_store_one) (auto simp: ring_put_def Let_def)
    ultimately show ?thesis using that N_def by metis
  qed
qed

lemma writer_advance_eq:
  assumes inv: "pipe_inv p" and bs: "bs \<noteq> []" and room: "pipe_len p + length bs \<le> cap p"
  obtains W where "unat W = (wr p + length bs) mod cap p"
    and "spdk_pipe_writer_advance p (of_nat (length bs)) =
      (None, p\<lparr>pipe_full := (pipe_read p = W), pipe_write := W\<rparr>)"
proof -
  define N where "N = (of_nat (length bs) :: u32)"
  note req = writer_request [OF inv bs room, folded N_def]
  have inv': "rd p < cap p" "wr p < cap p" using inv by (auto simp: pipe_inv_def)
  have left: "unat (pipe_sz p - pipe_write p) = cap p - wr p" using inv' by (simp add: word_nat)
  have fits: "\<not> N > pipe_sz p" using room req(1) by (simp add: word_nat)
  have sum: "unat (pipe_write p + N) = wr p + length bs" if "wr p + length bs \<le> cap p"
    using that req(1) by (subst unat_add_u32) (auto intro: le_less_trans [OF _ unat_u32_bound [of "pipe_sz p"]])
  consider (wrap) "rd p \<le> wr p" "cap p - wr p < length bs"
    | (tail) "rd p \<le> wr p" "length bs \<le> cap p - wr p" | (mid) "wr p < rd p" by linarith
  then show ?thesis
  proof cases
    case wrap
    let ?l = "pipe_sz p - pipe_write p" and ?l' = "N - (pipe_sz p - pipe_write p)"
    have "unat (?l + pipe_read p) = cap p - wr p + rd p"
      using wrap inv' left by (subst unat_add_u32) (auto intro: le_less_trans [OF _ unat_u32_bound [of "pipe_sz p"]])
    then have "\<not> N > ?l + pipe_read p" using room wrap(1) req by (simp add: word_nat pipe_len_def)
    moreover have l: "?l \<le> N" "min N ?l = ?l" using wrap left req(1) by (simp_all add: word_le_nat_alt min_def)
    moreover have l': "unat ?l' = length bs - (cap p - wr p)" using l left req(1) by (simp add: word_nat)
    moreover have "0 < ?l'" using l' wrap(2) by (simp add: word_less_nat_alt)
    ultimately have adv: "spdk_pipe_writer_advance p N = (None, p\<lparr>pipe_full := (pipe_read p = ?l'), pipe_write := ?l'\<rparr>)"
      using fits req(3) wrap(1)
      by (simp add: spdk_pipe_writer_advance_def writer_advance_to_def word_le_nat_alt Let_def)
    have W: "unat ?l' = (wr p + length bs) mod cap p"
    proof -
      have "wr p + length bs < 2 * cap p" using room inv' by linarith
      moreover have "\<not> wr p + length bs < cap p" using wrap(2) by linarith
      ultimately have "(wr p + length bs) mod cap p = wr p + length bs - cap p"
        by (simp only: mod_less_double if_False)
      with l' wrap(2) inv' show ?thesis by linarith
    qed
    show ?thesis by (rule that [OF W [unfolded N_def] adv [unfolded N_def]])
  next
    case tail
    let ?W = "if pipe_write p + N = pipe_sz p then 0 else pipe_write p + N"
    have "unat (pipe_sz p - pipe_write p + pipe_read p) = cap p - wr p + rd p"
      using tail inv' left by (subst unat_add_u32) (auto intro: le_less_trans [OF _ unat_u32_bound [of "pipe_sz p"]])
    then have "\<not> N > pipe_sz p - pipe_write p + pipe_read p" using tail req(1) by (simp add: word_nat)
    moreover have m: "min N (pipe_sz p - pipe_write p) = N" using tail left req(1) by (simp add: word_le_nat_alt min_def)
    ultimately have adv: "spdk_pipe_writer_advance p N = (None, p\<lparr>pipe_full := (pipe_read p = ?W), pipe_write := ?W\<rparr>)"
      using fits req(3) tail(1)
      by (simp add: spdk_pipe_writer_advance_def writer_advance_to_def word_le_nat_alt Let_def)
    have W: "unat ?W = (wr p + length bs) mod cap p"
    proof -
      have le: "wr p + length bs \<le> cap p" using tail(2) inv' by linarith
      have "pipe_write p + N = pipe_sz p \<longleftrightarrow> wr p + length bs = cap p"
        using sum [OF le] by (metis unat_eq_iff)
      with sum [OF le] le show ?thesis by (cases "wr p + length bs = cap p") simp_all
    qed
    show ?thesis by (rule that [OF W [unfolded N_def] adv [unfolded N_def]])
  next
    case mid
    then have d: "unat (pipe_read p - pipe_write p) = rd p - wr p" by (simp add: word_nat)
    have n: "length bs \<le> rd p - wr p" using room mid req(3) by (auto simp: pipe_len_def)
    have adv: "spdk_pipe_writer_advance p N =
        (None, p\<lparr>pipe_full := (pipe_read p = pipe_write p + N), pipe_write := pipe_write p + N\<rparr>)"
      using fits req(1,3) mid d n
      by (simp add: spdk_pipe_writer_advance_def writer_advance_to_def word_nat Let_def)
    have W: "unat (pipe_write p + N) = (wr p + length bs) mod cap p"
      using sum n mid inv' by simp
    show ?thesis by (rule that [OF W [unfolded N_def] adv [unfolded N_def]])
  qed
qed

lemma put_state:
  assumes inv: "pipe_inv p" and buf: "pipe_buf p = Some b" and bs: "bs \<noteq> []"
    and room: "pipe_len p + length bs \<le> cap p" and W: "unat W = (wr p + length bs) mod cap p"
  defines "p' \<equiv> p\<lparr>pipe_buf := Some (ring_put b (wr p) bs), pipe_full := (pipe_read p = W), pipe_write := W\<rparr>"
  shows "pipe_inv p'" and "pipe_contents p' = pipe_contents p @ bs"
proof -
  have b: "length b = cap p" and r: "rd p < cap p" and w: "wr p < cap p" using inv buf by (auto simp: pipe_inv_def)
  have n: "length bs \<le> cap p" "0 < length bs" using room bs by auto
  have W': "unat W = (if wr p + length bs < cap p then wr p + length bs else wr p + length bs - cap p)"
    unfolding W using w n by (intro mod_less_double) linarith
  show "pipe_inv p'" using inv b w n r W' by (auto simp: pipe_inv_def p'_def)
  have nf: "\<not> pipe_full p" using writer_request [OF inv bs room] by simp
  have len: "pipe_len p' = pipe_len p + length bs"
  proof (cases "rd p \<le> wr p")
    case True
    with nf have l: "pipe_len p = wr p - rd p" by (simp add: pipe_len_def)
    have "pipe_read p = W \<longleftrightarrow> rd p = unat W" by (simp add: unat_eq_iff)
    with True room n r w l W' show ?thesis by (auto simp: p'_def pipe_len_def split: if_splits)
  next
    case False
    with nf have l: "pipe_len p = cap p - rd p + wr p" by (simp add: pipe_len_def)
    have "pipe_read p = W \<longleftrightarrow> rd p = unat W" by (simp add: unat_eq_iff)
    with False room n r w l W' show ?thesis by (auto simp: p'_def pipe_len_def split: if_splits)
  qed
  have e: "wr p = (rd p + pipe_len p) mod length b" using pipe_end [OF inv] b by simp
  have "pipe_contents p' = ring_slice (ring_put b (wr p) bs) (rd p) (pipe_len p + length bs)"
    using len by (simp add: pipe_contents_def p'_def)
  also have "\<dots> = ring_slice b (rd p) (pipe_len p) @ bs"
    using ring_slice_put_other [of "rd p" b "pipe_len p" bs "wr p"] ring_slice_put [of "wr p" b bs] b r w n room e
    by (simp add: ring_slice_append)
  finally show "pipe_contents p' = pipe_contents p @ bs" by (simp add: pipe_contents_def buf)
qed

lemma put_with_buffer:
  assumes inv: "fifo_inv h (bufs, p)" and buf: "pipe_buf p = Some b" and bs: "bs \<noteq> []"
    and room: "pipe_len p + length bs \<le> cap p"
  shows "\<exists>p'. pipe_put bs (bufs, p) = Inr (bufs, p') \<and> fifo_inv h (bufs, p') \<and>
    pipe_contents p' = pipe_contents p @ bs \<and> balanced (bufs, p) (bufs, p')"
proof -
  have pi: "pipe_inv p" using inv by (simp add: fifo_inv_def)
  obtain iovs where io: "spdk_pipe_writer_get_buffer bufs p (of_nat (length bs)) = Inr (of_nat (length bs), iovs, bufs, p)"
    "iov_store iovs bs b = Inr (ring_put b (wr p) bs)"
    by (rule writer_get_store [OF pi buf bs room])
  let ?p = "p\<lparr>pipe_buf := Some (ring_put b (wr p) bs)\<rparr>"
  have b: "length b = cap p" "wr p < cap p" using pi buf by (auto simp: pipe_inv_def)
  then have pi1: "pipe_inv ?p" using pi room by (simp add: pipe_inv_def)
  have l1: "pipe_len ?p = pipe_len p" by (simp add: pipe_len_def)
  obtain W where W: "unat W = (wr p + length bs) mod cap p"
    "spdk_pipe_writer_advance ?p (of_nat (length bs)) =
      (None, ?p\<lparr>pipe_full := (pipe_read p = W), pipe_write := W\<rparr>)"
    by (rule writer_advance_eq [OF pi1 bs]) (use room l1 in simp_all)
  note st = put_state [OF pi buf bs room W(1)]
  have "pipe_put bs (bufs, p) = Inr (bufs, ?p\<lparr>pipe_full := (pipe_read p = W), pipe_write := W\<rparr>)"
    using io W(2) bs buf by (simp add: pipe_put_def)
  with st inv buf show ?thesis by (simp add: fifo_inv_def balanced_def owed_def)
qed

lemma alloc_ok:
  assumes inv: "fifo_inv h (bufs, p)" and buf: "pipe_buf p = None"
  obtains bufs' b where "pipe_alloc_buf_from_group bufs p = Inr (bufs', p\<lparr>pipe_buf := Some b\<rparr>)"
    and "fifo_inv h (bufs', p\<lparr>pipe_buf := Some b\<rparr>)" and "balanced (bufs, p) (bufs', p\<lparr>pipe_buf := Some b\<rparr>)"
proof -
  obtain b0 where "(pipe_sz p, b0) \<in> set bufs" using inv buf by (auto simp: fifo_inv_def)
  then have "List.extract (\<lambda>b. fst b = pipe_sz p) bufs \<noteq> None"
    by (auto simp: extract_None_iff intro!: bexI [of _ "(pipe_sz p, b0)"])
  then obtain ys b zs where e: "List.extract (\<lambda>b. fst b = pipe_sz p) bufs = Some (ys, b, zs)" by auto
  then have bufs: "bufs = ys @ b # zs" "fst b = pipe_sz p" by (auto dest: extract_SomeE)
  then have "length (snd b) = cap p" using inv by (cases b) (auto simp: fifo_inv_def bufs_inv_def)
  with inv buf bufs have "fifo_inv h (ys @ zs, p\<lparr>pipe_buf := Some (snd b)\<rparr>)"
    by (auto simp: fifo_inv_def bufs_inv_def pipe_inv_def)
  moreover have "pipe_alloc_buf_from_group bufs p = Inr (ys @ zs, p\<lparr>pipe_buf := Some (snd b)\<rparr>)"
    using inv buf e by (simp add: pipe_alloc_buf_from_group_def fifo_inv_def pipe_inv_def)
  moreover have "balanced (bufs, p) (ys @ zs, p\<lparr>pipe_buf := Some (snd b)\<rparr>)"
    using buf bufs by (simp add: balanced_def owed_def)
  ultimately show ?thesis using that by blast
qed

lemma put_ok:
  assumes inv: "fifo_inv h s" and room: "length (pipe_contents (snd s)) + length bs \<le> cap (snd s)"
  shows "\<exists>s'. pipe_put bs s = Inr s' \<and> fifo_inv h s' \<and>
    pipe_contents (snd s') = pipe_contents (snd s) @ bs \<and> balanced s s'"
proof -
  obtain bufs p where s: "s = (bufs, p)" by (cases s)
  have pi: "pipe_inv p" using inv s by (simp add: fifo_inv_def)
  have room': "pipe_len p + length bs \<le> cap p" using room s length_contents [OF pi] by simp
  show ?thesis
  proof (cases "bs = []")
    case True
    then have "pipe_put bs s = Inr s"
      by (cases "pipe_buf p") (simp_all add: s pipe_put_def spdk_pipe_writer_get_buffer_def)
    with True inv show ?thesis by (simp add: balanced_refl)
  next
    case bs: False
    show ?thesis
    proof (cases "pipe_buf p")
      case (Some b)
      from put_with_buffer [OF inv [unfolded s] Some bs room'] show ?thesis by (force simp: s)
    next
      case None
      obtain bufs' b where a: "pipe_alloc_buf_from_group bufs p = Inr (bufs', p\<lparr>pipe_buf := Some b\<rparr>)"
        "fifo_inv h (bufs', p\<lparr>pipe_buf := Some b\<rparr>)" "balanced (bufs, p) (bufs', p\<lparr>pipe_buf := Some b\<rparr>)"
        by (rule alloc_ok [OF inv [unfolded s] None])
      let ?p = "p\<lparr>pipe_buf := Some b\<rparr>"
      have "spdk_pipe_writer_get_buffer bufs p n = spdk_pipe_writer_get_buffer bufs' ?p n" if "n \<noteq> 0" for n
        using that pi None a(1) by (simp add: spdk_pipe_writer_get_buffer_def pipe_inv_def)
      then have "pipe_put bs s = pipe_put bs (bufs', ?p)"
        using writer_request [OF pi bs room'] by (simp add: s pipe_put_def)
      moreover have "pipe_len ?p = pipe_len p" by (simp add: pipe_len_def)
      moreover have "pipe_contents ?p = pipe_contents p"
        using None pi by (simp add: pipe_contents_def pipe_len_def pipe_inv_def)
      moreover obtain p' where "pipe_put bs (bufs', ?p) = Inr (bufs', p')" "fifo_inv h (bufs', p')"
        "pipe_contents p' = pipe_contents ?p @ bs" "balanced (bufs', ?p) (bufs', p')"
        using put_with_buffer [OF a(2) _ bs, of b] room' \<open>pipe_len ?p = pipe_len p\<close> by auto
      moreover have "balanced s (bufs', p')" using a(3) calculation(7) unfolding balanced_def s by auto
      ultimately show ?thesis by (auto simp: s)
    qed
  qed
qed

section \<open>Reader\<close>

lemma reader_get_load:
  assumes inv: "pipe_inv p" and buf: "pipe_buf p = Some b" and limit: "limit \<noteq> 0" and ne: "0 < pipe_len p"
  obtains n iovs where "spdk_pipe_reader_get_buffer p limit = (n, iovs)" and "unat n = min (unat limit) (pipe_len p)"
    and "iov_load iovs b = Inr (take (unat n) (pipe_contents p))"
proof -
  have b: "length b = cap p" and r: "rd p < cap p" and w: "wr p < cap p" using inv buf by (auto simp: pipe_inv_def)
  have l0: "0 < unat limit" using limit by (simp add: unat_gt_0)
  have ne': "\<not> (pipe_read p = pipe_write p \<and> \<not> pipe_full p)" using ne by (auto simp: pipe_len_def split: if_splits)
  have c: "take k (pipe_contents p) = ring_slice b (rd p) k" if "k \<le> pipe_len p" for k
    using that by (simp add: pipe_contents_def buf take_ring_slice)
  show ?thesis
  proof (cases "rd p < wr p")
    case True
    let ?n = "min limit (pipe_write p - pipe_read p)"
    have len: "pipe_len p = wr p - rd p" using True inv by (auto simp: pipe_len_def pipe_inv_def)
    have n: "unat ?n = min (unat limit) (pipe_len p)" using True len by (simp add: unat_min word_nat)
    have "0 < unat ?n" using n l0 ne by simp
    then have "?n \<noteq> 0" by (metis unat_0 less_numeral_extra(3))
    moreover have "rd p + unat ?n \<le> length b" unfolding n using len w b True by linarith
    ultimately have "iov_load [(Some (pipe_read p), ?n), (None, 0)] b = Inr (take (unat ?n) (pipe_contents p))"
      using c [of "unat ?n"] n by (simp add: ring_slice_nowrap)
    moreover have "spdk_pipe_reader_get_buffer p limit = (?n, [(Some (pipe_read p), ?n), (None, 0)])"
      using ne' limit True by (simp add: spdk_pipe_reader_get_buffer_def word_less_nat_alt Let_def)
    ultimately show ?thesis using that n by blast
  next
    case False
    have len: "pipe_len p = cap p - rd p + wr p" using False ne inv by (auto simp: pipe_len_def pipe_inv_def split: if_splits)
    have left: "unat (pipe_sz p - pipe_read p) = cap p - rd p" using r by (simp add: word_nat)
    have lt: "\<not> pipe_read p < pipe_write p" using False by (simp add: word_less_nat_alt)
    show ?thesis
    proof (cases "unat limit \<le> cap p - rd p")
      case True
      then have m: "min limit (pipe_sz p - pipe_read p) = limit" using left by (simp add: min_def word_le_nat_alt)
      have "spdk_pipe_reader_get_buffer p limit = (limit, [(Some (pipe_read p), limit), (None, 0)])"
        using ne' limit lt m by (simp add: spdk_pipe_reader_get_buffer_def Let_def)
      moreover have n: "unat limit = min (unat limit) (pipe_len p)" using True len by simp
      moreover have "iov_load [(Some (pipe_read p), limit), (None, 0)] b = Inr (take (unat limit) (pipe_contents p))"
        using True limit r b c [of "unat limit"] n by (simp add: ring_slice_nowrap)
      ultimately show ?thesis by (rule that)
    next
      case wrap: False
      define L where "L = pipe_sz p - pipe_read p"
      define M where "M = min (limit - L) (pipe_write p)"
      have L: "unat L = cap p - rd p" "0 < unat L" using left r by (simp_all add: L_def)
      have m: "min limit L = L" "0 < limit - L" "unat (limit - L) = unat limit - unat L"
        using wrap L by (simp_all add: min_def word_nat)
      have M: "unat M = min (unat limit - unat L) (wr p)" by (simp add: M_def unat_min m(3))
      have N: "unat (L + M) = unat L + unat M"
        using L M False r by (subst unat_add_u32) (auto intro: le_less_trans [OF _ unat_u32_bound [of "pipe_sz p"]])
      have n: "unat (L + M) = min (unat limit) (pipe_len p)" unfolding N M len using wrap L by simp
      have "spdk_pipe_reader_get_buffer p limit = (L + M, [(Some (pipe_read p), L), (if M = 0 then None else Some 0, M)])"
        using ne' limit lt m(1,2) by (simp add: spdk_pipe_reader_get_buffer_def Let_def L_def [symmetric] M_def [symmetric])
      moreover have "iov_load [(Some (pipe_read p), L), (if M = 0 then None else Some 0, M)] b = Inr (drop (rd p) b @ take (unat M) b)"
        using L M r b w by (auto simp: unat_gt_0)
      moreover have "take (unat (L + M)) (pipe_contents p) = drop (rd p) b @ take (unat M) b"
      proof -
        have "unat (L + M) \<le> pipe_len p" using n by simp
        moreover have "length b \<le> rd p + unat (L + M)" "unat (L + M) \<le> length b"
          "rd p + unat (L + M) - length b = unat M" using N L(1) M b r False by linarith+
        ultimately show ?thesis using c [of "unat (L + M)"] ring_slice_wrap [of "rd p" b "unat (L + M)"] r b by simp
      qed
      ultimately show ?thesis using that n by metis
    qed
  qed
qed

lemma reader_advance_eq:
  assumes inv: "pipe_inv p" and n: "0 < unat n" "unat n \<le> pipe_len p"
  obtains R where "unat R = (rd p + unat n) mod cap p"
    and "spdk_pipe_reader_advance hdr bufs p n = map_sum id (\<lambda>(b, p). (None, b, p)) (reader_advance_to hdr bufs p R)"
proof -
  have r: "rd p < cap p" and w: "wr p < cap p" using inv by (auto simp: pipe_inv_def)
  have n0: "n \<noteq> 0" using n(1) by (simp add: unat_gt_0)
  have sum: "unat (pipe_read p + n) = rd p + unat n" if "rd p + unat n \<le> cap p"
    using that by (subst unat_add_u32) (auto intro: le_less_trans [OF _ unat_u32_bound [of "pipe_sz p"]])
  show ?thesis
  proof (cases "rd p < wr p")
    case True
    have len: "pipe_len p = wr p - rd p" using True inv by (auto simp: pipe_len_def pipe_inv_def)
    have "unat (pipe_read p + n) = (rd p + unat n) mod cap p" using sum n(2) len True w by simp
    moreover have "\<not> n > pipe_write p - pipe_read p" using n(2) len True by (simp add: word_nat)
    ultimately show ?thesis using True n0
      by (intro that [of "pipe_read p + n"]) (simp_all add: spdk_pipe_reader_advance_def word_less_nat_alt Let_def)
  next
    case False
    have len: "pipe_len p = cap p - rd p + wr p" using False n inv by (auto simp: pipe_len_def pipe_inv_def split: if_splits)
    have left: "unat (pipe_sz p - pipe_read p) = cap p - rd p" using r by (simp add: word_nat)
    have lt: "\<not> pipe_read p < pipe_write p" using False by (simp add: word_less_nat_alt)
    show ?thesis
    proof (cases "unat n \<le> cap p - rd p")
      case True
      then have m: "min n (pipe_sz p - pipe_read p) = n" using left by (simp add: min_def word_le_nat_alt)
      let ?R = "if pipe_read p + n = pipe_sz p then 0 else pipe_read p + n"
      have le: "rd p + unat n \<le> cap p" using True r by linarith
      have "pipe_read p + n = pipe_sz p \<longleftrightarrow> rd p + unat n = cap p" using sum [OF le] by (metis unat_eq_iff)
      with sum [OF le] le have R: "unat ?R = (rd p + unat n) mod cap p" by (cases "rd p + unat n = cap p") simp_all
      have "spdk_pipe_reader_advance hdr bufs p n = map_sum id (\<lambda>(b, p). (None, b, p)) (reader_advance_to hdr bufs p ?R)"
        using n0 lt m by (simp add: spdk_pipe_reader_advance_def Let_def)
      with R show ?thesis by (rule that)
    next
      case wrap: False
      define L where "L = pipe_sz p - pipe_read p"
      have L: "unat L = cap p - rd p" using left by (simp add: L_def)
      have m: "min n L = L" "0 < n - L" "unat (n - L) = unat n - unat L"
        using wrap L by (simp_all add: min_def word_nat)
      have "\<not> n - L > pipe_write p" using m(3) n(2) len L by (simp add: word_less_nat_alt)
      then have adv: "spdk_pipe_reader_advance hdr bufs p n =
          map_sum id (\<lambda>(b, p). (None, b, p)) (reader_advance_to hdr bufs p (n - L))"
        using n0 lt m(1,2) by (simp add: spdk_pipe_reader_advance_def Let_def L_def [symmetric])
      have "rd p + unat n < 2 * cap p" "\<not> rd p + unat n < cap p" using n(2) len r w wrap False by linarith+
      then have "(rd p + unat n) mod cap p = rd p + unat n - cap p" by (simp only: mod_less_double if_False)
      then have "unat (n - L) = (rd p + unat n) mod cap p" using m(3) L wrap r by linarith
      from this adv show ?thesis by (rule that)
    qed
  qed
qed

lemma advance_to_ok:
  assumes inv: "fifo_inv (length hdr) (bufs, p)" and buf: "pipe_buf p = Some b"
    and n: "0 < n" "n \<le> pipe_len p" and R: "unat R = (rd p + n) mod cap p"
  shows "\<exists>s'. reader_advance_to hdr bufs p R = Inr s' \<and> fifo_inv (length hdr) s' \<and>
    pipe_contents (snd s') = drop n (pipe_contents p) \<and> balanced (bufs, p) s'"
proof -
  have pi: "pipe_inv p" using inv by (simp add: fifo_inv_def)
  have b: "length b = cap p" and r: "rd p < cap p" and w: "wr p < cap p" using pi buf by (auto simp: pipe_inv_def)
  have len: "pipe_len p \<le> cap p" by (rule pipe_len_le [OF pi])
  have R': "unat R = (if rd p + n < cap p then rd p + n else rd p + n - cap p)"
    unfolding R using r n len by (intro mod_less_double) linarith
  have e: "wr p = (if rd p + pipe_len p < cap p then rd p + pipe_len p else rd p + pipe_len p - cap p)"
    using pipe_end [OF pi] r len mod_less_double [of "rd p + pipe_len p" "cap p"] by linarith
  have empties: "R = pipe_write p \<longleftrightarrow> n = pipe_len p"
    unfolding unat_eq_iff R' using e n len r by (auto split: if_splits)
  show ?thesis
  proof (cases "R = pipe_write p")
    case True
    then have d: "drop n (pipe_contents p) = []" using empties length_contents [OF pi] by simp
    show ?thesis
    proof (cases "pipe_group p")
      case grp: True
      then have "length hdr \<le> length b" using inv b by (simp add: fifo_inv_def)
      with True grp buf d inv b r show ?thesis
        by (auto simp: reader_advance_to_def pipe_free_buf_to_group_def fifo_inv_def pipe_inv_def bufs_inv_def
            pipe_contents_def balanced_def owed_def)
    next
      case False
      with True buf d inv b r show ?thesis
        by (auto simp: reader_advance_to_def fifo_inv_def pipe_inv_def pipe_contents_def pipe_len_def balanced_def owed_def)
    qed
  next
    case False
    let ?p = "p\<lparr>pipe_full := False, pipe_read := R\<rparr>"
    have nl: "n < pipe_len p" using False empties n(2) by simp
    have ru: "unat R < cap p" using R' r n len by (auto split: if_splits)
    have neq: "unat R \<noteq> wr p" using False by (simp add: unat_eq_iff)
    have "pipe_len ?p = pipe_len p - n" using R' e nl neq len r by (auto simp: pipe_len_def [of ?p] split: if_splits)
    moreover have "(rd p + n) mod length b = unat R" using R b by simp
    ultimately have "pipe_contents ?p = drop n (pipe_contents p)"
      using buf n by (simp add: pipe_contents_def drop_ring_slice)
    moreover have "reader_advance_to hdr bufs p R = Inr (bufs, ?p)"
      using False by (simp add: reader_advance_to_def)
    moreover have "fifo_inv (length hdr) (bufs, ?p)" using inv buf ru neq by (simp add: fifo_inv_def pipe_inv_def)
    ultimately show ?thesis using buf by (simp add: balanced_def owed_def)
  qed
qed

lemma get_ok:
  assumes inv: "fifo_inv (length hdr) s"
  shows "\<exists>s'. pipe_get hdr limit s = Inr (take (unat limit) (pipe_contents (snd s)), s') \<and> fifo_inv (length hdr) s' \<and>
    pipe_contents (snd s') = drop (unat limit) (pipe_contents (snd s)) \<and> balanced s s'"
proof -
  obtain bufs p where s: "s = (bufs, p)" by (cases s)
  have pi: "pipe_inv p" using inv s by (simp add: fifo_inv_def)
  note lc = length_contents [OF pi]
  show ?thesis
  proof (cases "limit = 0 \<or> pipe_len p = 0")
    case True
    have "pipe_len p = 0 \<Longrightarrow> pipe_read p = pipe_write p \<and> \<not> pipe_full p"
      using pi by (auto simp: pipe_len_def pipe_inv_def unat_eq_iff split: if_splits)
    then have "pipe_get hdr limit s = Inr ([], s)"
      using True by (auto simp: s pipe_get_def spdk_pipe_reader_get_buffer_def Let_def)
    moreover have "take (unat limit) (pipe_contents p) = []" "drop (unat limit) (pipe_contents p) = pipe_contents p"
      using True lc by auto
    ultimately show ?thesis using inv by (simp add: s balanced_refl)
  next
    case False
    then have limit: "limit \<noteq> 0" and ne: "0 < pipe_len p" by auto
    obtain b where b: "pipe_buf p = Some b" using ne pi by (auto simp: pipe_len_def pipe_inv_def)
    obtain n iovs where g: "spdk_pipe_reader_get_buffer p limit = (n, iovs)" "unat n = min (unat limit) (pipe_len p)"
      "iov_load iovs b = Inr (take (unat n) (pipe_contents p))" by (rule reader_get_load [OF pi b limit ne])
    have n: "0 < unat n" "unat n \<le> pipe_len p" using g(2) limit ne by (simp_all add: unat_gt_0)
    then have "n \<noteq> 0" by (simp add: unat_gt_0)
    obtain R where R: "unat R = (rd p + unat n) mod cap p"
      "spdk_pipe_reader_advance hdr bufs p n = map_sum id (\<lambda>(b, p). (None, b, p)) (reader_advance_to hdr bufs p R)"
      by (rule reader_advance_eq [OF pi n])
    obtain s' where s': "reader_advance_to hdr bufs p R = Inr s'" "fifo_inv (length hdr) s'"
      "pipe_contents (snd s') = drop (unat n) (pipe_contents p)" "balanced (bufs, p) s'"
      using advance_to_ok [OF inv [unfolded s] b n R(1)] by blast
    have "pipe_get hdr limit s = Inr (take (unat n) (pipe_contents p), s')"
      using g R(2) s'(1) b \<open>n \<noteq> 0\<close> by (cases s') (simp add: s pipe_get_def)
    moreover have "take (unat n) (pipe_contents p) = take (unat limit) (pipe_contents p)"
      "drop (unat n) (pipe_contents p) = drop (unat limit) (pipe_contents p)"
      using g(2) lc by (auto simp: min_def)
    ultimately show ?thesis using s' by (simp add: s)
  qed
qed

section \<open>Bounded queues of bytes\<close>

datatype fifo_op = Put "u8 list" | Get u32

text \<open>The abstract queue: a list of bytes with a capacity. A \<open>Put\<close> that does not fit is not
  part of a run.\<close>

fun queue_run :: "nat \<Rightarrow> fifo_op list \<Rightarrow> u8 list \<Rightarrow> (u8 list \<times> u8 list) option" where
  "queue_run c [] q = Some ([], q)"
| "queue_run c (Put bs # ops) q =
     (if length q + length bs \<le> c then queue_run c ops (q @ bs) else None)"
| "queue_run c (Get n # ops) q =
     map_option (\<lambda>(out, q'). (take (unat n) q @ out, q')) (queue_run c ops (drop (unat n) q))"

fun fifo_run ::
  "(u8 list \<Rightarrow> 's \<Rightarrow> 's res) \<Rightarrow> (u32 \<Rightarrow> 's \<Rightarrow> (u8 list \<times> 's) res) \<Rightarrow> fifo_op list \<Rightarrow> 's \<Rightarrow> (u8 list \<times> 's) res" where
  "fifo_run put get [] s = Inr ([], s)"
| "fifo_run put get (Put bs # ops) s = res_bind (put bs s) (fifo_run put get ops)"
| "fifo_run put get (Get n # ops) s =
     res_bind (get n s) (\<lambda>(bs, s'). map_sum id (\<lambda>(out, s''). (bs @ out, s'')) (fifo_run put get ops s'))"

fun put_bytes :: "fifo_op list \<Rightarrow> u8 list" where
  "put_bytes [] = []"
| "put_bytes (Put bs # ops) = bs @ put_bytes ops"
| "put_bytes (Get n # ops) = put_bytes ops"

lemma queue_run_stream: "queue_run c ops q = Some (out, q') \<Longrightarrow> q @ put_bytes ops = out @ q'"
proof (induction c ops q arbitrary: out rule: queue_run.induct)
  case (3 c n ops q)
  then obtain out' where "queue_run c ops (drop (unat n) q) = Some (out', q')" "out = take (unat n) q @ out'"
    by auto
  with 3 show ?case by (metis append.assoc append_take_drop_id put_bytes.simps(3))
qed (auto split: if_splits)

locale byte_fifo =
  fixes contents :: "'s \<Rightarrow> u8 list" and capacity :: "'s \<Rightarrow> nat" and invar :: "'s \<Rightarrow> bool"
    and put :: "u8 list \<Rightarrow> 's \<Rightarrow> 's res" and get :: "u32 \<Rightarrow> 's \<Rightarrow> (u8 list \<times> 's) res"
  assumes put_law: "invar s \<Longrightarrow> length (contents s) + length bs \<le> capacity s \<Longrightarrow>
      \<exists>s'. put bs s = Inr s' \<and> invar s' \<and> contents s' = contents s @ bs \<and> capacity s' = capacity s"
    and get_law: "invar s \<Longrightarrow> \<exists>s'. get n s = Inr (take (unat n) (contents s), s') \<and> invar s' \<and>
      contents s' = drop (unat n) (contents s) \<and> capacity s' = capacity s"
begin

lemma run_simulates:
  assumes "invar s" and "queue_run (capacity s) ops (contents s) = Some (out, q)"
  shows "\<exists>s'. fifo_run put get ops s = Inr (out, s') \<and> invar s' \<and> contents s' = q \<and> capacity s' = capacity s"
  using assms
proof (induction ops arbitrary: s out)
  case (Cons op ops)
  show ?case
  proof (cases op)
    case (Put bs)
    with Cons.prems have room: "length (contents s) + length bs \<le> capacity s"
      and run: "queue_run (capacity s) ops (contents s @ bs) = Some (out, q)" by (auto split: if_splits)
    obtain s1 where s1: "put bs s = Inr s1" "invar s1" "contents s1 = contents s @ bs" "capacity s1 = capacity s"
      using put_law [OF Cons.prems(1) room] by blast
    with Cons.IH [OF s1(2)] run Put show ?thesis by simp
  next
    case (Get n)
    with Cons.prems obtain out' where out: "out = take (unat n) (contents s) @ out'"
      and run: "queue_run (capacity s) ops (drop (unat n) (contents s)) = Some (out', q)" by auto
    obtain s1 where s1: "get n s = Inr (take (unat n) (contents s), s1)" "invar s1"
      "contents s1 = drop (unat n) (contents s)" "capacity s1 = capacity s"
      using get_law [OF Cons.prems(1)] by blast
    with Cons.IH [OF s1(2)] run Get out show ?thesis by fastforce
  qed
qed simp

end

text \<open>The header of a free buffer is part of the instance: it is what the group writes into the buffer
  of an emptied pipe.\<close>

interpretation pipe_fifo: byte_fifo "\<lambda>s. pipe_contents (snd s)" "\<lambda>s. cap (snd s)" "fifo_inv (length hdr)"
  pipe_put "pipe_get hdr" for hdr
proof
  show "\<exists>s'. pipe_put bs s = Inr s' \<and> fifo_inv (length hdr) s' \<and>
      pipe_contents (snd s') = pipe_contents (snd s) @ bs \<and> cap (snd s') = cap (snd s)"
    if "fifo_inv (length hdr) s" "length (pipe_contents (snd s)) + length bs \<le> cap (snd s)" for s bs
    using put_ok [OF that] by (auto simp: balanced_def)
  show "\<exists>s'. pipe_get hdr n s = Inr (take (unat n) (pipe_contents (snd s)), s') \<and> fifo_inv (length hdr) s' \<and>
      pipe_contents (snd s') = drop (unat n) (pipe_contents (snd s)) \<and> cap (snd s') = cap (snd s)"
    if "fifo_inv (length hdr) s" for s n
    using get_ok [OF that, of n] by (auto simp: balanced_def)
qed

text \<open>C6 (refinement). A pipe refines a bounded queue of bytes: every run of writes and reads that a
  queue with the pipe's capacity accepts is executed by the pipe without an error or undefined
  behaviour and reads the same bytes. The bytes read, followed by those still in the pipe, are the
  bytes that were in it followed by the bytes written.\<close>

theorem pipe_refines_queue:
  assumes "fifo_inv (length hdr) (bufs, p)" and "queue_run (cap p) ops (pipe_contents p) = Some (out, q)"
  shows "\<exists>bufs' p'. fifo_run pipe_put (pipe_get hdr) ops (bufs, p) = Inr (out, bufs', p') \<and>
    pipe_contents p' = q \<and> fifo_inv (length hdr) (bufs', p') \<and> pipe_contents p @ put_bytes ops = out @ q"
  using pipe_fifo.run_simulates [of hdr "(bufs, p)" ops out q] assms queue_run_stream [OF assms(2)] by auto

text \<open>A pipe of four bytes over which the data wraps around.\<close>

lemma create_inv: "length b = unat sz \<Longrightarrow> 0 < unat sz \<Longrightarrow> fifo_inv h ([], spdk_pipe_create b sz)"
  by (simp add: fifo_inv_def pipe_inv_def bufs_inv_def spdk_pipe_create_def)

lemma create_contents: "0 < length b \<Longrightarrow> pipe_contents (spdk_pipe_create b sz) = []"
  by (simp add: pipe_contents_def pipe_len_def spdk_pipe_create_def)

theorem pipe_refines_queue_witness:
  "\<exists>bufs' p'. fifo_run pipe_put (pipe_get []) [Put [1, 2, 3], Get 2, Put [4, 5, 6], Get 3]
      ([], spdk_pipe_create [0, 0, 0, 0] 4) = Inr ([1, 2, 3, 4, 5], bufs', p') \<and> pipe_contents p' = [6]"
  using pipe_refines_queue [of "[]" "[]" "spdk_pipe_create [0, 0, 0, 0] 4"
      "[Put [1, 2, 3], Get 2, Put [4, 5, 6], Get 3]" "[1, 2, 3, 4, 5]" "[6]"]
    create_inv [of "[0, 0, 0, 0]" 4 0]
  by (simp add: create_contents) (auto simp: spdk_pipe_create_def)

section \<open>Groups of pipes\<close>

text \<open>A group with its member pipes: for every size, there are as many free buffers as members of that
  size without a buffer.\<close>

type_synonym pipe_group_state = "pipe_bufs \<times> spdk_pipe list"

definition group_inv :: "nat \<Rightarrow> pipe_group_state \<Rightarrow> bool" where
  "group_inv h g \<longleftrightarrow> bufs_inv (fst g) \<and>
     (\<forall>p \<in> set (snd g). pipe_inv p \<and> pipe_group p \<and> h \<le> cap p) \<and>
     (\<forall>z. count_list (map fst (fst g)) z = sum_list (map (owed z) (snd g)))"

lemma group_member_inv:
  assumes inv: "group_inv h (bufs, pipes)" and i: "i < length pipes"
  shows "fifo_inv h (bufs, pipes ! i)"
proof -
  have mem: "pipes ! i \<in> set pipes" using i by simp
  have "pipe_sz (pipes ! i) \<in> fst ` set bufs" if "pipe_buf (pipes ! i) = None"
  proof -
    have "owed (pipe_sz (pipes ! i)) (pipes ! i) = 1" using that by (simp add: owed_def)
    then have "1 \<le> sum_list (map (owed (pipe_sz (pipes ! i))) pipes)"
      using member_le_sum_list [of 1 "map (owed (pipe_sz (pipes ! i))) pipes"] mem by force
    moreover have "count_list (map fst bufs) (pipe_sz (pipes ! i)) = sum_list (map (owed (pipe_sz (pipes ! i))) pipes)"
      using inv by (simp add: group_inv_def)
    ultimately have "count_list (map fst bufs) (pipe_sz (pipes ! i)) \<noteq> 0" by linarith
    then show ?thesis by (auto simp: count_list_0_iff)
  qed
  with inv mem show ?thesis by (auto simp: fifo_inv_def group_inv_def)
qed

lemma sum_list_update_owed:
  "i < length pipes \<Longrightarrow> sum_list (map f (pipes[i := p])) + f (pipes ! i) = sum_list (map f pipes) + (f p :: nat)"
proof (induction pipes arbitrary: i)
  case (Cons q pipes)
  then show ?case by (cases i) auto
qed simp

lemma group_update_inv:
  assumes inv: "group_inv h (bufs, pipes)" and i: "i < length pipes"
    and fi: "fifo_inv h (bufs', p')" and bal: "balanced (bufs, pipes ! i) (bufs', p')"
  shows "group_inv h (bufs', pipes[i := p'])"
proof -
  have mem: "pipes ! i \<in> set pipes" using i by simp
  have "count_list (map fst bufs') z = sum_list (map (owed z) (pipes[i := p']))" for z
    using sum_list_update_owed [OF i, of "owed z" p'] inv bal by (simp add: group_inv_def balanced_def) (metis add.commute add_right_cancel)
  moreover have "pipe_inv p \<and> pipe_group p \<and> h \<le> cap p" if p: "p \<in> set (pipes[i := p'])" for p
  proof -
    have all: "\<forall>q \<in> set pipes. pipe_inv q \<and> pipe_group q \<and> h \<le> cap q" using inv by (simp add: group_inv_def)
    have "pipe_inv p'" "pipe_group p'" "pipe_sz p' = pipe_sz (pipes ! i)"
      using fi bal all mem by (simp_all add: fifo_inv_def balanced_def)
    with all mem have "pipe_inv p' \<and> pipe_group p' \<and> h \<le> cap p'" by simp
    with all p show ?thesis using set_update_subset_insert [of pipes i p'] by blast
  qed
  ultimately show ?thesis using fi by (simp add: group_inv_def fifo_inv_def)
qed

text \<open>A member writes what fits into it, reads, leaves the group; another pipe joins.\<close>

inductive group_step :: "u8 list \<Rightarrow> pipe_group_state \<Rightarrow> pipe_group_state \<Rightarrow> bool" for hdr where
  put: "i < length pipes \<Longrightarrow> length (pipe_contents (pipes ! i)) + length bs \<le> cap (pipes ! i) \<Longrightarrow>
    pipe_put bs (bufs, pipes ! i) = Inr (bufs', p) \<Longrightarrow> group_step hdr (bufs, pipes) (bufs', pipes[i := p])"
| get: "i < length pipes \<Longrightarrow> pipe_get hdr n (bufs, pipes ! i) = Inr (bs, bufs', p) \<Longrightarrow>
    group_step hdr (bufs, pipes) (bufs', pipes[i := p])"
| join: "pipe_inv p0 \<Longrightarrow> \<not> pipe_group p0 \<Longrightarrow> length hdr \<le> cap p0 \<Longrightarrow>
    spdk_pipe_group_add hdr bufs p0 = Inr (bufs', p) \<Longrightarrow> group_step hdr (bufs, pipes) (bufs', pipes @ [p])"
| leave: "i < length pipes \<Longrightarrow> spdk_pipe_group_remove bufs (pipes ! i) = Inr (bufs', p) \<Longrightarrow>
    group_step hdr (bufs, pipes) (bufs', take i pipes @ drop (Suc i) pipes)"

lemma join_inv:
  assumes inv: "group_inv (length hdr) (bufs, pipes)" and p0: "pipe_inv p0" "\<not> pipe_group p0" "length hdr \<le> cap p0"
    and add: "spdk_pipe_group_add hdr bufs p0 = Inr (bufs', p)"
  shows "group_inv (length hdr) (bufs', pipes @ [p])"
proof -
  obtain b where b: "pipe_buf p0 = Some b" "length b = cap p0" using p0 by (auto simp: pipe_inv_def)
  show ?thesis
  proof (cases "pipe_read p0 \<noteq> pipe_write p0 \<or> pipe_full p0")
    case True
    with add p0 have "bufs' = bufs" "p = p0\<lparr>pipe_group := True\<rparr>" by (simp_all add: spdk_pipe_group_add_def)
    with inv p0 b show ?thesis by (auto simp: group_inv_def pipe_inv_def owed_def)
  next
    case False
    with add p0 b have "bufs' = (pipe_sz p0, hdr @ drop (length hdr) b) # bufs"
      "p = p0\<lparr>pipe_group := True, pipe_buf := None\<rparr>"
      by (simp_all add: spdk_pipe_group_add_def pipe_free_buf_to_group_def)
    with inv p0 b False show ?thesis by (auto simp: group_inv_def pipe_inv_def owed_def bufs_inv_def)
  qed
qed

lemma leave_ok:
  assumes inv: "group_inv h (bufs, pipes)" and i: "i < length pipes"
  shows "\<exists>bufs' p. spdk_pipe_group_remove bufs (pipes ! i) = Inr (bufs', p) \<and> pipe_buf p \<noteq> None \<and>
    group_inv h (bufs', take i pipes @ drop (Suc i) pipes)"
proof -
  note fi = group_member_inv [OF inv i]
  have grp: "pipe_group (pipes ! i)" using inv i by (auto simp: group_inv_def)
  obtain bufs' p1 where a: "(if pipe_buf (pipes ! i) = None then pipe_alloc_buf_from_group bufs (pipes ! i)
      else Inr (bufs, pipes ! i)) = Inr (bufs', p1)" "fifo_inv h (bufs', p1)" "balanced (bufs, pipes ! i) (bufs', p1)"
    "pipe_buf p1 \<noteq> None"
  proof (cases "pipe_buf (pipes ! i)")
    case None
    obtain bufs' b where "pipe_alloc_buf_from_group bufs (pipes ! i) = Inr (bufs', (pipes ! i)\<lparr>pipe_buf := Some b\<rparr>)"
      "fifo_inv h (bufs', (pipes ! i)\<lparr>pipe_buf := Some b\<rparr>)"
      "balanced (bufs, pipes ! i) (bufs', (pipes ! i)\<lparr>pipe_buf := Some b\<rparr>)" by (rule alloc_ok [OF fi None])
    with None show ?thesis by (intro that [of bufs' "(pipes ! i)\<lparr>pipe_buf := Some b\<rparr>"]) simp_all
  next
    case (Some b)
    then show ?thesis using that [OF _ fi balanced_refl] by simp
  qed
  note upd = group_update_inv [OF inv i a(2,3)]
  have "pipes[i := p1] = take i pipes @ p1 # drop (Suc i) pipes" using i by (simp add: upd_conv_take_nth_drop)
  with upd a(4) have "group_inv h (bufs', take i pipes @ drop (Suc i) pipes)"
    by (auto simp: group_inv_def owed_def)
  with a grp show ?thesis by (simp add: spdk_pipe_group_remove_def)
qed

interpretation pipe_groups: transition_invariant "group_step hdr" "\<lambda>g. g = (spdk_pipe_group_create, [])"
  "group_inv (length hdr)" for hdr
proof
  show "group_inv (length hdr) g" if "g = (spdk_pipe_group_create, [])" for g
    using that by (simp add: group_inv_def bufs_inv_def spdk_pipe_group_create_def)
  show "group_inv (length hdr) t" if "group_inv (length hdr) g" "group_step hdr g t" for g t
    using that(2,1)
  proof cases
    case (put i pipes bs bufs bufs' p)
    with put_ok [OF group_member_inv, of "length hdr" bufs pipes i bs] group_update_inv [of "length hdr" bufs pipes i bufs' p] that(1)
    show ?thesis by auto
  next
    case (get i pipes n bufs bs bufs' p)
    with get_ok [OF group_member_inv, of hdr bufs pipes i n] group_update_inv [of "length hdr" bufs pipes i bufs' p] that(1)
    show ?thesis by auto
  next
    case (join p0 bufs bufs' p pipes)
    with join_inv that(1) show ?thesis by simp
  next
    case (leave i pipes bufs bufs' p)
    with leave_ok [of "length hdr" bufs pipes i] that(1) show ?thesis by auto
  qed
qed

text \<open>C28 (invariant). However the pipes of a group join, leave, write and read, the group has for each
  size as many free buffers as members of that size that gave theirs away. So a member that needs a
  buffer finds one: a write that fits, a read and a removal from the group always succeed.\<close>

theorem pipe_group_always_has_buffer:
  assumes "(group_step hdr)\<^sup>*\<^sup>* (spdk_pipe_group_create, []) (bufs, pipes)" and "i < length pipes"
    and "length (pipe_contents (pipes ! i)) + length bs \<le> cap (pipes ! i)"
  shows "(\<forall>z. count_list (map fst bufs) z = length (filter (\<lambda>p. pipe_buf p = None \<and> pipe_sz p = z) pipes)) \<and>
    (\<exists>s'. pipe_put bs (bufs, pipes ! i) = Inr s') \<and> (\<exists>r. pipe_get hdr n (bufs, pipes ! i) = Inr r) \<and>
    (\<exists>bufs' p. spdk_pipe_group_remove bufs (pipes ! i) = Inr (bufs', p) \<and> pipe_buf p \<noteq> None)"
proof -
  have inv: "group_inv (length hdr) (bufs, pipes)" by (rule pipe_groups.reachable_inv [OF refl assms(1)])
  note fi = group_member_inv [OF inv assms(2)]
  have "sum_list (map (owed z) ps) = length (filter (\<lambda>p. pipe_buf p = None \<and> pipe_sz p = z) ps)" for z ps
    by (induction ps) (auto simp: owed_def)
  with inv have "\<forall>z. count_list (map fst bufs) z = length (filter (\<lambda>p. pipe_buf p = None \<and> pipe_sz p = z) pipes)"
    by (simp add: group_inv_def)
  with put_ok [OF fi, of bs] get_ok [OF fi, of n] leave_ok [OF inv assms(2)] assms(3) show ?thesis by auto
qed

lemma join_example: "(group_step [0])\<^sup>*\<^sup>* (spdk_pipe_group_create, [])
  ([(2, [0, 7])], [(spdk_pipe_create [7, 7] 2)\<lparr>pipe_group := True, pipe_buf := None\<rparr>])"
  by (intro r_into_rtranclp group_step.join [of "spdk_pipe_create [7, 7] 2" _ _ _ _ "[]", simplified])
    (simp_all add: pipe_inv_def spdk_pipe_create_def spdk_pipe_group_add_def pipe_free_buf_to_group_def
      spdk_pipe_group_create_def)

theorem pipe_group_always_has_buffer_witness:
  "\<exists>s'. pipe_put [5] ([(2, [0, 7])], (spdk_pipe_create [7, 7] 2)\<lparr>pipe_group := True, pipe_buf := None\<rparr>) = Inr s'"
  using pipe_group_always_has_buffer [OF join_example, of 0 "[5]" 0]
  by (simp add: pipe_contents_def spdk_pipe_create_def)

section \<open>Advancing past the data\<close>

text \<open>C29 (error). Advancing is not checked on an empty pipe. Reading \<open>n\<close> bytes from a new pipe that
  holds none succeeds and leaves a pipe that reports all but \<open>n\<close> bytes of its buffer as data, and
  advancing the writer by nothing makes the empty pipe a full one.\<close>

theorem empty_pipe_advance:
  assumes "0 < n" and "n < sz"
  shows "\<exists>p. spdk_pipe_reader_advance hdr bufs (spdk_pipe_create b sz) n = Inr (None, bufs, p) \<and>
      spdk_pipe_reader_bytes_available p = sz - n \<and>
    (\<exists>p'. spdk_pipe_writer_advance (spdk_pipe_create b sz) 0 = (None, p') \<and>
      spdk_pipe_reader_bytes_available p' = sz)"
proof -
  have ne: "n \<noteq> 0" "n \<noteq> sz" "\<not> sz < n" "sz \<noteq> 0" "min n sz = n" using assms by (auto simp: word_gt_0 min_def)
  then show ?thesis
    by (simp add: spdk_pipe_reader_advance_def spdk_pipe_create_def reader_advance_to_def spdk_pipe_writer_advance_def
        writer_advance_to_def spdk_pipe_reader_bytes_available_def Let_def)
qed

theorem empty_pipe_advance_witness:
  "\<exists>p. spdk_pipe_reader_advance [] [] (spdk_pipe_create [0, 0, 0, 0] 4) 1 = Inr (None, [], p) \<and>
    spdk_pipe_reader_bytes_available p = 3"
  using empty_pipe_advance [of 1 4 "[]" "[]" "[0, 0, 0, 0]"] by auto

end
