(* ===== verification/Base64.thy ===== *)
theory Base64
  imports Endian
begin

text \<open>
  Base64 encoding and decoding (\<^verbatim>\<open>lib/util/base64.c\<close>), in the form compiled for processors
  other than ARM. Characters are bytes; a string is given without its terminating zero.
\<close>

section \<open>Tables\<close>

abbreviation bytes_of :: "string \<Rightarrow> u8 list" where
  "bytes_of \<equiv> map of_char"

definition BASE64_PADDING_CHAR :: u8 where
  "BASE64_PADDING_CHAR = of_char CHR ''=''"

definition base64_enc_table :: "u8 list" where
  "base64_enc_table = bytes_of ''ABCDEFGHIJKLMNOPQRSTUVWXYZ'' @ bytes_of ''abcdefghijklmnopqrstuvwxyz'' @
     bytes_of ''0123456789+/''"

definition base64_urlsafe_enc_table :: "u8 list" where
  "base64_urlsafe_enc_table = bytes_of ''ABCDEFGHIJKLMNOPQRSTUVWXYZ'' @ bytes_of ''abcdefghijklmnopqrstuvwxyz'' @
     bytes_of ''0123456789-_''"

text \<open>The decoding tables, by runs of entries.\<close>

definition base64_dec_table :: "u8 list" where
  "base64_dec_table = replicate 43 255 @ [62] @ replicate 3 255 @ [63] @ map of_nat [52..<62] @ replicate 7 255 @
     map of_nat [0..<26] @ replicate 6 255 @ map of_nat [26..<52] @ replicate 133 255"

definition base64_urlsafe_dec_table :: "u8 list" where
  "base64_urlsafe_dec_table = replicate 45 255 @ [62] @ replicate 2 255 @ map of_nat [52..<62] @ replicate 7 255 @
     map of_nat [0..<26] @ replicate 4 255 @ [63] @ [255] @ map of_nat [26..<52] @ replicate 133 255"

section \<open>Encoding\<close>

definition spdk_base64_get_encoded_strlen :: "nat \<Rightarrow> nat" where
  "spdk_base64_get_encoded_strlen raw_len = (raw_len + 2) div 3 * 4"

definition spdk_base64_get_decoded_len :: "nat \<Rightarrow> nat" where
  "spdk_base64_get_decoded_len encoded_strlen = encoded_strlen div 4 * 3 + ((encoded_strlen mod 4 + 1) div 2)"

definition sextet :: "u32 \<Rightarrow> nat \<Rightarrow> u32" where
  "sextet raw k = drop_bit k raw AND 0x3F"

definition enc_char :: "u8 list \<Rightarrow> u32 \<Rightarrow> nat \<Rightarrow> u8" where
  "enc_char enc_table raw k = enc_table ! unat (sextet raw k)"

text \<open>The characters the loop and the statements after it append to \<^verbatim>\<open>dst\<close>. The loop reads four
  bytes and encodes three.\<close>

function encode_loop :: "u8 list \<Rightarrow> u8 list \<Rightarrow> u8 list" where
  "encode_loop enc_table src =
     (if length src \<ge> 4 then
        (let raw = from_be32 src in
         [enc_char enc_table raw 26, enc_char enc_table raw 20, enc_char enc_table raw 14, enc_char enc_table raw 8]
           @ encode_loop enc_table (drop 3 src))
      else if src = [] then []
      else
        (let raw = from_be32 (src @ replicate (4 - length src) 0) in
         [enc_char enc_table raw 26, enc_char enc_table raw 20,
          if length src \<ge> 2 then enc_char enc_table raw 14 else BASE64_PADDING_CHAR,
          if length src = 3 then enc_char enc_table raw 8 else BASE64_PADDING_CHAR]))"
  by pat_completeness auto

termination by (relation "measure (\<lambda>(t, src). length src)") auto

definition base64_encode :: "u8 list \<Rightarrow> u8 list \<Rightarrow> u8 list res" where
  "base64_encode enc_table src =
     (if src = [] then Inl (Errno EINVAL) else Inr (encode_loop enc_table src @ [0]))"

definition spdk_base64_encode :: "u8 list \<Rightarrow> u8 list res" where
  "spdk_base64_encode src = base64_encode base64_enc_table src"

definition spdk_base64_urlsafe_encode :: "u8 list \<Rightarrow> u8 list res" where
  "spdk_base64_urlsafe_encode src = base64_encode base64_urlsafe_enc_table src"

section \<open>Decoding\<close>

definition dec_word :: "u32 list \<Rightarrow> u32" where
  "dec_word tmp = push_bit 8 (tmp ! 3) OR push_bit 14 (tmp ! 2) OR push_bit 20 (tmp ! 1) OR push_bit 26 (tmp ! 0)"

definition dec_byte :: "u8 list \<Rightarrow> u8 \<Rightarrow> u32" where
  "dec_byte dec_table c = ucast (dec_table ! unat c)"

text \<open>The loop and the statements after it; \<open>src\<close> is what is left of the input, \<open>off\<close> the position
  in the output buffer. Of the last one to four characters at least two are left.\<close>

function decode_loop :: "u8 list \<Rightarrow> u8 list \<Rightarrow> nat \<Rightarrow> u8 list \<Rightarrow> u8 list res" where
  "decode_loop dec_table src off dst =
     (if length src > 4 then
        (let tmp = map (dec_byte dec_table) (take 4 src) in
         if 255 \<in> set tmp then Inl (Errno EINVAL)
         else res_bind (store_bytes off (to_be32 (dec_word tmp)) dst)
                (\<lambda>dst'. decode_loop dec_table (drop 4 src) (off + 3) dst'))
      else
        (let tmp = [dec_byte dec_table (src ! 0), dec_byte dec_table (src ! 1),
                    if length src \<ge> 3 then dec_byte dec_table (src ! 2) else 0,
                    if length src = 4 then dec_byte dec_table (src ! 3) else 0];
             tail_len = length src - 1
         in if 255 \<in> set tmp then Inl (Errno EINVAL)
            else store_bytes off (take tail_len (to_be32 (dec_word tmp))) dst))"
  by pat_completeness auto

termination by (relation "measure (\<lambda>(t, src, off, dst). length src)") auto

fun strip_padding :: "nat \<Rightarrow> u8 list \<Rightarrow> u8 list" where
  "strip_padding 0 src = src"
| "strip_padding (Suc i) src = (if last src \<noteq> BASE64_PADDING_CHAR then src else strip_padding i (butlast src))"

text \<open>The result is the length of the data and, with an output buffer, its new contents.\<close>

definition base64_decode :: "u8 list \<Rightarrow> u8 list option \<Rightarrow> u8 list \<Rightarrow> (nat \<times> u8 list option) res" where
  "base64_decode dec_table dst src =
     (if length src = 0 \<or> length src mod 4 \<noteq> 0 then Inl (Errno EINVAL)
      else
        (let s = strip_padding 2 src in
         if length s = 0 \<or> length s mod 4 = 1 then Inl (Errno EINVAL)
         else
           (case dst of
              None \<Rightarrow> Inr (spdk_base64_get_decoded_len (length s), None)
            | Some d \<Rightarrow> map_sum id (\<lambda>d'. (spdk_base64_get_decoded_len (length s), Some d'))
                          (decode_loop dec_table s 0 d))))"

definition spdk_base64_decode :: "u8 list option \<Rightarrow> u8 list \<Rightarrow> (nat \<times> u8 list option) res" where
  "spdk_base64_decode dst src = base64_decode base64_dec_table dst src"

definition spdk_base64_urlsafe_decode :: "u8 list option \<Rightarrow> u8 list \<Rightarrow> (nat \<times> u8 list option) res" where
  "spdk_base64_urlsafe_decode dst src = base64_decode base64_urlsafe_dec_table dst src"

declare encode_loop.simps [simp del] decode_loop.simps [simp del]

lemma table_lengths:
  "length base64_dec_table = 256" "length base64_urlsafe_dec_table = 256"
  "length base64_enc_table = 64" "length base64_urlsafe_enc_table = 64"
  by code_simp+

text \<open>The alphabets as ranges of character codes.\<close>

definition alphabet :: "nat \<Rightarrow> nat \<Rightarrow> nat \<Rightarrow> nat" where
  "alphabet c62 c63 i = (if i < 26 then 65 + i else if i < 52 then 71 + i else if i < 62 then i - 4
     else if i = 62 then c62 else c63)"

lemma enc_tables_eq:
  "base64_enc_table = map of_nat ([65..<91] @ [97..<123] @ [48..<58] @ [43, 47])"
  "base64_urlsafe_enc_table = map of_nat ([65..<91] @ [97..<123] @ [48..<58] @ [45, 95])"
  by code_simp+

lemma alphabet_less: "i < 64 \<Longrightarrow> c62 < 256 \<Longrightarrow> c63 < 256 \<Longrightarrow> alphabet c62 c63 i < 256"
  by (auto simp: alphabet_def)

lemma enc_table_nth:
  "i < 64 \<Longrightarrow> base64_enc_table ! i = of_nat (alphabet 43 47 i)"
  "i < 64 \<Longrightarrow> base64_urlsafe_enc_table ! i = of_nat (alphabet 45 95 i)"
  by (auto simp: enc_tables_eq alphabet_def nth_append nth_Cons' simp del: upt_rec_numeral)

lemma dec_table_last:
  "base64_dec_table ! 43 = 62" "base64_dec_table ! 47 = 63"
  "base64_urlsafe_dec_table ! 45 = 62" "base64_urlsafe_dec_table ! 95 = 63"
  by (simp_all add: base64_dec_table_def base64_urlsafe_dec_table_def nth_append del: upt_rec_numeral)

lemma dec_table_letters:
  "i < 62 \<Longrightarrow> base64_dec_table ! alphabet c62 c63 i = of_nat i"
  "i < 62 \<Longrightarrow> base64_urlsafe_dec_table ! alphabet c62 c63 i = of_nat i"
  by (auto simp: base64_dec_table_def base64_urlsafe_dec_table_def alphabet_def nth_append nth_Cons'
      simp del: upt_rec_numeral)

lemma dec_table_nth:
  assumes "i < 64"
  shows "base64_dec_table ! alphabet 43 47 i = of_nat i"
    and "base64_urlsafe_dec_table ! alphabet 45 95 i = of_nat i"
proof -
  consider "i < 62" | "i = 62" | "i = 63" using assms by linarith
  then show "base64_dec_table ! alphabet 43 47 i = of_nat i"
    and "base64_urlsafe_dec_table ! alphabet 45 95 i = of_nat i"
    by (cases; simp add: dec_table_letters dec_table_last alphabet_def [of _ _ "62"] alphabet_def [of _ _ "63"])+
qed

section \<open>Sextets\<close>

lemma sextet_take_bit: "sextet raw k = take_bit 6 (drop_bit k raw)"
  by (simp add: sextet_def take_bit_eq_mask mask_eq_exp_minus_1)

lemma sextet_less: "unat (sextet raw k) < 64"
  using take_bit_nat_less_exp [of 6 "unat (drop_bit k raw)"] by (simp add: sextet_take_bit unsigned_take_bit_eq)

lemma unat_ucast_u8_u32 [simp]: "unat (ucast (x :: u8) :: u32) = unat x"
  by (simp add: unsigned_ucast_eq take_bit_nat_eq_self less_trans [OF unsigned_less [of x]])

lemma bit_sextet_at:
  "bit (push_bit k (sextet raw k)) n \<longleftrightarrow> k \<le> n \<and> n < k + 6 \<and> bit raw n"
  by (auto simp: sextet_take_bit bit_push_bit_iff bit_take_bit_iff bit_drop_bit_eq possible_bit_word
      dest: bit_imp_le_length)

lemma bit_dec_word:
  assumes "n < 32"
  shows "bit (dec_word [sextet raw 26, sextet raw 20, sextet raw 14, sextet raw 8]) n \<longleftrightarrow> 8 \<le> n \<and> bit raw n"
  using assms by (simp add: dec_word_def bit_or_iff bit_sextet_at del: bit_push_bit_iff) arith

lemma bit_from_be32:
  "bit (from_be32 (a # b # c # d # rest)) n \<longleftrightarrow> (if n < 8 then bit d n else if n < 16 then bit c (n - 8)
     else if n < 24 then bit b (n - 16) else n < 32 \<and> bit a (n - 24))"
  by (auto simp: from_be32_def bit_or_iff bit_push_bit_iff bit_ucast_iff possible_bit_word dest: bit_imp_le_length)

lemma byte_eqI:
  assumes "\<And>n. n < 8 \<Longrightarrow> bit (x :: u32) (k + n) = bit (y :: u8) n"
  shows "ucast (drop_bit k x AND 0xFF) = y"
proof -
  have "drop_bit k x AND 0xFF = take_bit 8 (drop_bit k x)"
    by (simp add: take_bit_eq_mask mask_eq_exp_minus_1)
  with assms show ?thesis by (intro bit_word_eqI) (simp add: bit_ucast_iff bit_take_bit_iff bit_drop_bit_eq)
qed

text \<open>The three bytes that four sextets came from.\<close>

lemma decoded_bytes:
  assumes "raw = from_be32 (a # b # c # d # rest)"
  shows "take 3 (to_be32 (dec_word [sextet raw 26, sextet raw 20, sextet raw 14, sextet raw 8])) = [a, b, c]"
  unfolding to_be32_def assms
  by simp (intro conjI byte_eqI; simp add: bit_dec_word bit_from_be32)

lemma ucast_sextet: "ucast (ucast (sextet raw k) :: u8) = sextet raw k"
proof -
  have "unat (ucast (sextet raw k) :: u8) = unat (sextet raw k)"
    using sextet_less [of raw k] by (simp add: unsigned_ucast_eq take_bit_nat_eq_self)
  then show ?thesis by (simp add: unat_eq_iff)
qed

lemma add3: "(off :: nat) + 3 = Suc (Suc (Suc off))"
  by simp

text \<open>The last one to three bytes, and the last two to four characters.\<close>

lemma encode_short:
  "raw = from_be32 [a, 0, 0, 0] \<Longrightarrow> encode_loop enc [a] =
    [enc_char enc raw 26, enc_char enc raw 20, BASE64_PADDING_CHAR, BASE64_PADDING_CHAR]"
  "raw = from_be32 [a, b, 0, 0] \<Longrightarrow> encode_loop enc [a, b] =
    [enc_char enc raw 26, enc_char enc raw 20, enc_char enc raw 14, BASE64_PADDING_CHAR]"
  "raw = from_be32 [a, b, c, 0] \<Longrightarrow> encode_loop enc [a, b, c] =
    [enc_char enc raw 26, enc_char enc raw 20, enc_char enc raw 14, enc_char enc raw 8]"
  by (simp_all add: encode_loop.simps Let_def numeral_eq_Suc)

lemma decode_short:
  assumes "255 \<notin> {dec_byte dec x, dec_byte dec y, z, u}" and "bs = take n (to_be32 (dec_word [dec_byte dec x, dec_byte dec y, z, u]))"
    and "off + n \<le> length dst" and "n \<le> 4"
  shows "n = 1 \<Longrightarrow> z = 0 \<Longrightarrow> u = 0 \<Longrightarrow> decode_loop dec [x, y] off dst = Inr (take off dst @ bs @ drop (off + n) dst)"
    and "n = 2 \<Longrightarrow> z = dec_byte dec x2 \<Longrightarrow> u = 0 \<Longrightarrow>
      decode_loop dec [x, y, x2] off dst = Inr (take off dst @ bs @ drop (off + n) dst)"
    and "n = 3 \<Longrightarrow> z = dec_byte dec x2 \<Longrightarrow> u = dec_byte dec x3 \<Longrightarrow>
      decode_loop dec [x, y, x2, x3] off dst = Inr (take off dst @ bs @ drop (off + n) dst)"
  using assms by (simp_all add: decode_loop.simps Let_def store_bytes_ok eval_nat_numeral)

section \<open>Alphabets\<close>

text \<open>What encoding and decoding need of a pair of tables.\<close>

locale base64_alphabet =
  fixes enc dec :: "u8 list"
  assumes dec_enc: "i < 64 \<Longrightarrow> dec ! unat (enc ! i) = of_nat i"
    and enc_no_padding: "i < 64 \<Longrightarrow> enc ! i \<noteq> BASE64_PADDING_CHAR"
begin

lemma dec_enc_char: "dec_byte dec (enc_char enc raw k) = sextet raw k"
  using dec_enc [OF sextet_less [of raw k]] by (simp add: dec_byte_def enc_char_def ucast_sextet)

lemma enc_char_no_padding: "enc_char enc raw k \<noteq> BASE64_PADDING_CHAR"
  using enc_no_padding [OF sextet_less] by (simp add: enc_char_def)

lemma sextet_valid: "sextet raw k \<noteq> 255"
  using sextet_less [of raw k] by auto

text \<open>The encoding of a text without its padding, and what decoding makes of it.\<close>

definition encodes :: "u8 list \<Rightarrow> u8 list \<Rightarrow> bool" where
  "encodes src core \<longleftrightarrow> encode_loop enc src = core @ replicate ((3 - length src mod 3) mod 3) BASE64_PADDING_CHAR \<and>
     core \<noteq> [] \<and> last core \<noteq> BASE64_PADDING_CHAR \<and>
     length core = length src div 3 * 4 + (if length src mod 3 = 0 then 0 else length src mod 3 + 1) \<and>
     (\<forall>off dst. off + length src \<le> length dst \<longrightarrow>
        decode_loop dec core off dst = Inr (take off dst @ src @ drop (off + length src) dst))"

lemma encodes_short:
  assumes "src \<noteq> []" and "length src < 4"
  shows "\<exists>core. encodes src core"
proof -
  consider a where "src = [a]" | a b where "src = [a, b]" | a b c where "src = [a, b, c]"
    using assms by (auto simp: neq_Nil_conv less_Suc_eq numeral_eq_Suc length_Suc_conv)
  then show ?thesis
  proof cases
    case (1 a)
    let ?raw = "from_be32 [a, 0, 0, 0]"
    have z: "sextet ?raw 14 = 0" "sextet ?raw 8 = 0"
      by (auto intro!: bit_word_eqI simp: sextet_take_bit bit_take_bit_iff bit_drop_bit_eq bit_from_be32
          split: if_splits)
    have w: "take 1 (to_be32 (dec_word [sextet ?raw 26, sextet ?raw 20, 0, 0])) = [a]"
      using decoded_bytes [OF refl, of a 0 0 0 "[]"] z by (simp add: to_be32_def)
    have "decode_loop dec [enc_char enc ?raw 26, enc_char enc ?raw 20] off dst = Inr (take off dst @ [a] @ drop (off + 1) dst)"
      if "off + 1 \<le> length dst" for off dst
      using that w sextet_valid by (intro decode_short(1)) (auto simp: dec_enc_char)
    then show ?thesis using 1 enc_char_no_padding
      by (intro exI [of _ "[enc_char enc ?raw 26, enc_char enc ?raw 20]"])
        (simp add: encodes_def encode_short(1) [OF refl] numeral_2_eq_2)
  next
    case (2 a b)
    let ?raw = "from_be32 [a, b, 0, 0]"
    have z: "sextet ?raw 8 = 0"
      by (auto intro!: bit_word_eqI simp: sextet_take_bit bit_take_bit_iff bit_drop_bit_eq bit_from_be32
          split: if_splits)
    have w: "take 2 (to_be32 (dec_word [sextet ?raw 26, sextet ?raw 20, sextet ?raw 14, 0])) = [a, b]"
      using decoded_bytes [OF refl, of a b 0 0 "[]"] z by (simp add: to_be32_def)
    have "decode_loop dec [enc_char enc ?raw 26, enc_char enc ?raw 20, enc_char enc ?raw 14] off dst =
        Inr (take off dst @ [a, b] @ drop (off + 2) dst)" if "off + 2 \<le> length dst" for off dst
      using that w sextet_valid by (intro decode_short(2)) (auto simp: dec_enc_char)
    then show ?thesis using 2 enc_char_no_padding
      by (intro exI [of _ "[enc_char enc ?raw 26, enc_char enc ?raw 20, enc_char enc ?raw 14]"])
        (simp add: encodes_def encode_short(2) [OF refl])
  next
    case (3 a b c)
    let ?raw = "from_be32 [a, b, c, 0]"
    have w: "take 3 (to_be32 (dec_word [sextet ?raw 26, sextet ?raw 20, sextet ?raw 14, sextet ?raw 8])) = [a, b, c]"
      by (rule decoded_bytes [OF refl])
    have "decode_loop dec [enc_char enc ?raw 26, enc_char enc ?raw 20, enc_char enc ?raw 14, enc_char enc ?raw 8] off dst =
        Inr (take off dst @ [a, b, c] @ drop (off + 3) dst)" if "off + 3 \<le> length dst" for off dst
      using that w sextet_valid by (intro decode_short(3)) (auto simp: dec_enc_char)
    then show ?thesis using 3 enc_char_no_padding
      by (intro exI [of _ "[enc_char enc ?raw 26, enc_char enc ?raw 20, enc_char enc ?raw 14, enc_char enc ?raw 8]"])
        (simp add: encodes_def encode_short(3) [OF refl] add3)
  qed
qed

lemma encodes_long:
  assumes src: "src = a # b # c # d # rest" and core: "encodes (d # rest) core"
  shows "\<exists>core. encodes src core"
proof -
  let ?raw = "from_be32 src"
  let ?quad = "[enc_char enc ?raw 26, enc_char enc ?raw 20, enc_char enc ?raw 14, enc_char enc ?raw 8]"
  let ?tmp = "[sextet ?raw 26, sextet ?raw 20, sextet ?raw 14, sextet ?raw 8]"
  have w: "take 3 (to_be32 (dec_word ?tmp)) = [a, b, c]" using decoded_bytes [OF refl] src by simp
  have tmp: "map (dec_byte dec) ?quad = ?tmp" "255 \<notin> set ?tmp" using sextet_valid by (simp_all add: dec_enc_char)
  define n where "n = length (d # rest)"
  obtain j where j: "n = Suc j" by (simp add: n_def)
  have len_src: "length src = n + 3" using src by (simp add: n_def)
  have core': "encode_loop enc (d # rest) = core @ replicate ((3 - n mod 3) mod 3) BASE64_PADDING_CHAR" "core \<noteq> []"
    "last core \<noteq> BASE64_PADDING_CHAR" "length core = n div 3 * 4 + (if n mod 3 = 0 then 0 else n mod 3 + 1)"
    and dec: "\<And>off dst. off + n \<le> length dst \<Longrightarrow>
        decode_loop dec core off dst = Inr (take off dst @ (d # rest) @ drop (off + n) dst)"
    using core unfolding encodes_def n_def by blast+
  have "decode_loop dec (?quad @ core) off dst = Inr (take off dst @ src @ drop (off + length src) dst)"
    if room: "off + length src \<le> length dst" for off dst
  proof -
    define dst' where "dst' = take off dst @ to_be32 (dec_word ?tmp) @ drop (off + 4) dst"
    have room': "off + 4 + j \<le> length dst" using room len_src j by simp
    then have st: "store_bytes off (to_be32 (dec_word ?tmp)) dst = Inr dst'" and len: "length dst' = length dst"
      by (simp_all add: store_bytes_ok dst'_def)
    have t: "take (off + 3) dst' = take off dst @ [a, b, c]" using w room' by (simp add: dst'_def)
    have d: "drop (off + 4 + j) dst' = drop (off + 4 + j) dst" using room' by (simp add: dst'_def add.commute)
    have "4 < length (?quad @ core)" using core'(2) by simp
    moreover have "take 4 (?quad @ core) = ?quad" "drop 4 (?quad @ core) = core" by simp_all
    ultimately have "decode_loop dec (?quad @ core) off dst = decode_loop dec core (off + 3) dst'"
      using tmp st by (subst decode_loop.simps) (simp only: if_True if_False Let_def res_bind_simps)
    also have "\<dots> = Inr (take (off + 3) dst' @ (d # rest) @ drop (off + 3 + n) dst')"
      using room' len j by (intro dec) simp
    also have "off + 3 + n = off + 4 + j" using j by simp
    finally show ?thesis using t d src len_src j by (simp add: eval_nat_numeral)
  qed
  moreover have "encode_loop enc src = ?quad @ encode_loop enc (d # rest)"
  proof -
    have "4 \<le> length src" "drop 3 src = d # rest" using src by simp_all
    then show ?thesis by (subst encode_loop.simps) (simp only: if_True Let_def)
  qed
  moreover have "(n + 3) div 3 = Suc (n div 3)" by presburger
  ultimately have "encodes src (?quad @ core)"
    using core' by (simp add: encodes_def len_src)
  then show ?thesis ..
qed

lemma encodes_ex: "src \<noteq> [] \<Longrightarrow> \<exists>core. encodes src core"
proof (induction "length src" arbitrary: src rule: less_induct)
  case less
  show ?case
  proof (cases "length src < 4")
    case True
    with less.prems show ?thesis by (rule encodes_short)
  next
    case False
    then obtain a b c d rest where src: "src = a # b # c # d # rest"
      by (auto simp: not_less eval_nat_numeral Suc_le_length_iff)
    with less.hyps [of "d # rest"] encodes_long [OF src] show ?thesis by auto
  qed
qed

lemma strip_core:
  assumes "last core \<noteq> BASE64_PADDING_CHAR" and "k \<le> 2"
  shows "strip_padding 2 (core @ replicate k BASE64_PADDING_CHAR) = core"
proof -
  consider "k = 0" | "k = 1" | "k = 2" using assms(2) by linarith
  then show ?thesis using assms(1) by cases (simp_all add: eval_nat_numeral butlast_append)
qed

lemma encode_length:
  assumes "src \<noteq> []" shows "length (encode_loop enc src) = spdk_base64_get_encoded_strlen (length src)"
proof -
  obtain core where c: "encodes src core" using encodes_ex [OF assms] by blast
  have "length src mod 3 < 3" by simp
  then have "length src mod 3 = 0 \<or> length src mod 3 = 1 \<or> length src mod 3 = 2" by linarith
  moreover have "(length src + 2) div 3 = length src div 3 + (if length src mod 3 = 0 then 0 else 1)" by presburger
  ultimately show ?thesis using c by (auto simp: encodes_def spdk_base64_get_encoded_strlen_def)
qed

lemma decode_encode:
  assumes src: "src \<noteq> []" and room: "length src \<le> length dst"
  shows "base64_decode dec (Some dst) (encode_loop enc src) =
    Inr (length src, Some (src @ drop (length src) dst))"
proof -
  obtain core where c: "encodes src core" using encodes_ex [OF src] by blast
  define m where "m = length src mod 3"
  have m3: "m = 0 \<or> m = 1 \<or> m = 2" unfolding m_def by linarith
  have core: "encode_loop enc src = core @ replicate ((3 - m) mod 3) BASE64_PADDING_CHAR" "core \<noteq> []"
    "last core \<noteq> BASE64_PADDING_CHAR" "length core = length src div 3 * 4 + (if m = 0 then 0 else m + 1)"
    "decode_loop dec core 0 dst = Inr (src @ drop (length src) dst)"
    using c room unfolding encodes_def m_def by auto
  have strip: "strip_padding 2 (encode_loop enc src) = core"
    unfolding core(1) using m3 by (intro strip_core [OF core(3)]) auto
  have cm: "length core mod 4 = (if m = 0 then 0 else m + 1)" "length core div 4 = length src div 3"
    using core(4) m3 by auto
  have ls: "length src = length src div 3 * 3 + m" by (simp add: m_def)
  have dl: "spdk_base64_get_decoded_len (length core) = length src"
    unfolding spdk_base64_get_decoded_len_def cm using m3 ls by (elim disjE) simp_all
  have "length (encode_loop enc src) mod 4 = 0"
    using encode_length [OF src] by (simp add: spdk_base64_get_encoded_strlen_def)
  moreover have "length (encode_loop enc src) \<noteq> 0" using core(1,2) by simp
  ultimately show ?thesis using strip core(2,5) dl cm(1) m3 by (auto simp: base64_decode_def)
qed

end

interpretation std: base64_alphabet base64_enc_table base64_dec_table
proof
  show "base64_dec_table ! unat (base64_enc_table ! i) = of_nat i" if "i < 64" for i
    using that alphabet_less [OF that, of 43 47] by (simp add: enc_table_nth(1) unat_of_nat dec_table_nth(1))
  show "base64_enc_table ! i \<noteq> BASE64_PADDING_CHAR" if "i < 64" for i
  proof
    assume "base64_enc_table ! i = BASE64_PADDING_CHAR"
    then have "unat (of_nat (alphabet 43 47 i) :: u8) = 61"
      using that by (simp add: enc_table_nth(1) BASE64_PADDING_CHAR_def)
    then have "alphabet 43 47 i = 61" using alphabet_less [OF that, of 43 47] by (simp add: unat_of_nat)
    then show False using that by (auto simp: alphabet_def split: if_splits)
  qed
qed

interpretation url: base64_alphabet base64_urlsafe_enc_table base64_urlsafe_dec_table
proof
  show "base64_urlsafe_dec_table ! unat (base64_urlsafe_enc_table ! i) = of_nat i" if "i < 64" for i
    using that alphabet_less [OF that, of 45 95] by (simp add: enc_table_nth(2) unat_of_nat dec_table_nth(2))
  show "base64_urlsafe_enc_table ! i \<noteq> BASE64_PADDING_CHAR" if "i < 64" for i
  proof
    assume "base64_urlsafe_enc_table ! i = BASE64_PADDING_CHAR"
    then have "unat (of_nat (alphabet 45 95 i) :: u8) = 61"
      using that by (simp add: enc_table_nth(2) BASE64_PADDING_CHAR_def)
    then have "alphabet 45 95 i = 61" using alphabet_less [OF that, of 45 95] by (simp add: unat_of_nat)
    then show False using that by (auto simp: alphabet_def split: if_splits)
  qed
qed

section \<open>Properties\<close>

text \<open>C30 (roundtrip). In both alphabets, the encoding of a non-empty text has the length that
  \<^verbatim>\<open>spdk_base64_get_encoded_strlen\<close> announces, and decoding it into a buffer that is large enough gives
  the text back, with its length, and leaves the rest of the buffer alone.\<close>

theorem base64_roundtrip:
  assumes "src \<noteq> []" and "length src \<le> length dst"
  shows "(\<exists>str. spdk_base64_encode src = Inr (str @ [0]) \<and>
      length str = spdk_base64_get_encoded_strlen (length src) \<and>
      spdk_base64_decode (Some dst) str = Inr (length src, Some (src @ drop (length src) dst))) \<and>
    (\<exists>str. spdk_base64_urlsafe_encode src = Inr (str @ [0]) \<and>
      length str = spdk_base64_get_encoded_strlen (length src) \<and>
      spdk_base64_urlsafe_decode (Some dst) str = Inr (length src, Some (src @ drop (length src) dst)))"
  using assms std.decode_encode [OF assms] std.encode_length [OF assms(1)]
    url.decode_encode [OF assms] url.encode_length [OF assms(1)]
  by (simp add: spdk_base64_encode_def spdk_base64_urlsafe_encode_def base64_encode_def spdk_base64_decode_def
      spdk_base64_urlsafe_decode_def)

theorem base64_roundtrip_witness:
  "\<exists>str. spdk_base64_encode [1, 2, 3, 250] = Inr (str @ [0]) \<and>
    spdk_base64_decode (Some [9, 9, 9, 9, 9]) str = Inr (4, Some [1, 2, 3, 250, 9])"
  using base64_roundtrip [of "[1, 2, 3, 250]" "[9, 9, 9, 9, 9]"] by auto

text \<open>Decoding fills exactly the announced number of bytes.\<close>

lemma decoded_len_step: "n > 4 \<Longrightarrow> spdk_base64_get_decoded_len n = 3 + spdk_base64_get_decoded_len (n - 4)"
  by (drule less_imp_add_positive) (auto simp: spdk_base64_get_decoded_len_def div_add_self1)

lemma decoded_len_pos: "2 \<le> n \<Longrightarrow> 1 \<le> spdk_base64_get_decoded_len n"
  by (cases "4 \<le> n") (auto simp: spdk_base64_get_decoded_len_def Suc_le_eq div_greater_zero_iff)

lemma decode_loop_long:
  assumes "4 < length src"
  shows "decode_loop dec src off dst = (if 255 \<in> set (map (dec_byte dec) (take 4 src)) then Inl (Errno EINVAL)
    else res_bind (store_bytes off (to_be32 (dec_word (map (dec_byte dec) (take 4 src)))) dst)
           (decode_loop dec (drop 4 src) (off + 3)))"
  unfolding decode_loop.simps [of dec src off dst] Let_def by (rule if_P [OF assms])

lemma decode_loop_last:
  assumes "\<not> 4 < length src"
  shows "\<exists>tmp. decode_loop dec src off dst = (if 255 \<in> set tmp then Inl (Errno EINVAL)
    else store_bytes off (take (length src - 1) (to_be32 (dec_word tmp))) dst)"
  unfolding decode_loop.simps [of dec src off dst] Let_def if_not_P [OF assms] by (rule exI) (rule refl)

lemma decode_loop_bounds:
  assumes "2 \<le> length src" and "length src mod 4 \<noteq> 1"
    and "off + spdk_base64_get_decoded_len (length src) \<le> length dst"
  shows "decode_loop dec src off dst = Inl (Errno EINVAL) \<or>
    (\<exists>dst'. decode_loop dec src off dst = Inr dst' \<and> length dst' = length dst \<and>
       drop (off + spdk_base64_get_decoded_len (length src)) dst' =
       drop (off + spdk_base64_get_decoded_len (length src)) dst)"
  using assms
proof (induction "length src" arbitrary: src off dst rule: less_induct)
  case less
  let ?n = "spdk_base64_get_decoded_len (length src)"
  show ?case
  proof (cases "length src > 4")
    case True
    let ?tmp = "map (dec_byte dec) (take 4 src)"
    show ?thesis
    proof (cases "255 \<in> set ?tmp")
      case True
      then show ?thesis by (intro disjI1) (simp only: decode_loop_long [OF \<open>4 < length src\<close>] if_True)
    next
      case ok: False
      let ?m = "spdk_base64_get_decoded_len (length src - 4)"
      have nm: "?n = 3 + ?m" by (rule decoded_len_step [OF True])
      obtain k where k: "length src = 4 + k" using True le_Suc_ex [of 4 "length src"] by auto
      then have "k mod 4 \<noteq> 1" "k \<noteq> 0" using True less.prems(2) by simp_all
      then have "2 \<le> k" by (cases "k = 1") auto
      with k \<open>k mod 4 \<noteq> 1\<close> have more: "2 \<le> length src - 4" "(length src - 4) mod 4 \<noteq> 1" by simp_all
      then have pos: "1 \<le> ?m" by (intro decoded_len_pos)
      define dst' where "dst' = take off dst @ to_be32 (dec_word ?tmp) @ drop (off + 4) dst"
      have st: "store_bytes off (to_be32 (dec_word ?tmp)) dst = Inr dst'" and len: "length dst' = length dst"
        using less.prems(3) nm pos by (simp_all add: store_bytes_ok dst'_def)
      have loop: "decode_loop dec src off dst = decode_loop dec (drop 4 src) (off + 3) dst'"
        unfolding decode_loop_long [OF True] if_not_P [OF ok] st res_bind_simps ..
      have tail: "drop (off + 3 + ?m) dst' = drop (off + 3 + ?m) dst"
      proof -
        have e: "off + 3 + ?m = (?m - 1) + (off + 4)" using pos by linarith
        have "off + 4 \<le> length dst" using less.prems(3) nm pos by linarith
        then have "drop (off + 4) dst' = drop (off + 4) dst" by (simp add: dst'_def)
        then show ?thesis unfolding e by (simp only: drop_drop [symmetric])
      qed
      have "length (drop 4 src) < length src" using True by simp
      moreover have "length (drop 4 src) = length src - 4" by simp
      moreover have "off + 3 + ?m \<le> length dst'" "off + ?n = off + 3 + ?m" using less.prems(3) nm len by linarith+
      ultimately show ?thesis using less.hyps [of "drop 4 src" "off + 3" dst'] more len tail
        unfolding loop by (simp only: not_False_eq_True simp_thms)
    qed
  next
    case False
    then have "length src = 2 \<or> length src = 3 \<or> length src = 4" using less.prems(1) by linarith
    then have n: "length src - 1 = ?n" "?n \<le> 4" by (auto simp: spdk_base64_get_decoded_len_def)
    have "store_bytes off bs dst = Inr (take off dst @ bs @ drop (off + ?n) dst)" if "length bs = ?n" for bs
      using that less.prems(3) by (simp add: store_bytes_ok)
    moreover obtain tmp where "decode_loop dec src off dst = (if 255 \<in> set tmp then Inl (Errno EINVAL)
        else store_bytes off (take (length src - 1) (to_be32 (dec_word tmp))) dst)"
      using decode_loop_last [OF False] by blast
    moreover have "1 \<le> ?n" by (rule decoded_len_pos [OF less.prems(1)])
    ultimately show ?thesis using n less.prems(3) by (auto simp: min_def)
  qed
qed

lemma strip_padding_props:
  assumes "length src \<noteq> 0" and "length src mod 4 = 0"
  shows "2 \<le> length (strip_padding 2 src)" and "length (strip_padding 2 src) mod 4 \<noteq> 1"
    and "spdk_base64_get_decoded_len (length (strip_padding 2 src)) \<le> spdk_base64_get_decoded_len (length src)"
proof -
  obtain k where k: "length src = 4 * Suc k" using assms by (metis mod_0_imp_dvd dvd_def mult_0_right nat.exhaust)
  have "length (strip_padding 2 src) \<in> {length src, length src - 1, length src - 2}"
    by (simp add: numeral_2_eq_2)
  then have l: "length (strip_padding 2 src) \<in> {4 * k + 4, 4 * k + 3, 4 * k + 2}" using k by auto
  then show "2 \<le> length (strip_padding 2 src)" by auto
  from l show "length (strip_padding 2 src) mod 4 \<noteq> 1" by (simp only: insert_iff empty_iff) presburger
  from l show "spdk_base64_get_decoded_len (length (strip_padding 2 src)) \<le> spdk_base64_get_decoded_len (length src)"
    using k by (auto simp: spdk_base64_get_decoded_len_def)
qed

text \<open>C31 (bounds). Decoding any string into a buffer of the length that
  \<^verbatim>\<open>spdk_base64_get_decoded_len\<close> gives for it never writes outside the buffer: the string is refused, or
  the announced number of bytes is written and every byte after them is left as it was.\<close>

theorem base64_decode_in_bounds:
  assumes "spdk_base64_get_decoded_len (length src) \<le> length dst"
  shows "spdk_base64_decode (Some dst) src = Inl (Errno EINVAL) \<or>
    (\<exists>len dst'. spdk_base64_decode (Some dst) src = Inr (len, Some dst') \<and>
       len \<le> spdk_base64_get_decoded_len (length src) \<and> length dst' = length dst \<and> drop len dst' = drop len dst)"
proof (cases "length src = 0 \<or> length src mod 4 \<noteq> 0")
  case True
  then show ?thesis by (auto simp: spdk_base64_decode_def base64_decode_def)
next
  case False
  let ?s = "strip_padding 2 src"
  note p = strip_padding_props [of src]
  have "decode_loop base64_dec_table ?s 0 dst = Inl (Errno EINVAL) \<or>
    (\<exists>dst'. decode_loop base64_dec_table ?s 0 dst = Inr dst' \<and> length dst' = length dst \<and>
       drop (spdk_base64_get_decoded_len (length ?s)) dst' = drop (spdk_base64_get_decoded_len (length ?s)) dst)"
    using decode_loop_bounds [of ?s 0 dst] p assms False by simp
  with p False show ?thesis by (auto simp: spdk_base64_decode_def base64_decode_def Let_def)
qed

theorem base64_decode_in_bounds_witness:
  "spdk_base64_get_decoded_len (length (bytes_of ''QUI='')) \<le> 3 \<and>
    (\<exists>len dst'. spdk_base64_decode (Some [7, 7, 7]) (bytes_of ''QUI='') = Inr (len, Some dst') \<and> drop len dst' = [7])"
proof -
  have "spdk_base64_decode (Some [7, 7, 7]) (bytes_of ''QUI='') = Inr (2, Some [65, 66, 7])"
    by code_simp
  then show ?thesis using base64_decode_in_bounds [of "bytes_of ''QUI=''" "[7, 7, 7]"]
    by (simp add: spdk_base64_get_decoded_len_def)
qed

end
