(* ===== verification/Iov.thy ===== *)
theory Iov
  imports SPDK_Prelude
begin

text \<open>
  Scatter-gather lists, \<^verbatim>\<open>lib/util/iov.c\<close>: the N-way iterator over several lists, copying
  between lists, and the transfer state that moves bytes between lists and a flat buffer in
  several calls. Memory is a map from 64-bit addresses to bytes, so that overlapping lists are
  expressed; \<open>memcpy\<close> of overlapping regions is undefined. A list is the array the code is given
  together with the count it is told; reading past the array is undefined.
\<close>

section \<open>Memory\<close>

type_synonym mem = "u64 \<Rightarrow> u8"

definition memset :: "u64 \<Rightarrow> u8 \<Rightarrow> u64 \<Rightarrow> mem \<Rightarrow> mem" where
  "memset dst c len mem = (\<lambda>a. if a - dst < len then c else mem a)"

definition memmove :: "u64 \<Rightarrow> u64 \<Rightarrow> u64 \<Rightarrow> mem \<Rightarrow> mem" where
  "memmove dst src len mem = (\<lambda>a. if a - dst < len then mem (src + (a - dst)) else mem a)"

definition memcpy :: "u64 \<Rightarrow> u64 \<Rightarrow> u64 \<Rightarrow> mem \<Rightarrow> mem res" where
  "memcpy dst src len mem =
     (if src - dst < len \<or> dst - src < len then Inl Undefined else Inr (memmove dst src len mem))"

section \<open>Lists of segments\<close>

record iovec =
  iov_base :: u64
  iov_len :: u64

fun iov_memset_loop :: "iovec list \<Rightarrow> u8 \<Rightarrow> mem \<Rightarrow> mem" where
  "iov_memset_loop [] c mem = mem"
| "iov_memset_loop (v # iovs) c mem = iov_memset_loop iovs c (memset (iov_base v) c (iov_len v) mem)"

definition spdk_iov_memset :: "iovec list \<Rightarrow> int \<Rightarrow> int \<Rightarrow> mem \<Rightarrow> mem res" where
  "spdk_iov_memset iovs iovcnt c mem =
     (if nat iovcnt \<le> length iovs
      then Inr (iov_memset_loop (take (nat iovcnt) iovs) (word_of_int c) mem) else Inl Undefined)"

section \<open>The iterator\<close>

record spdk_single_ioviter =
  it_iov :: "iovec list"
  it_iovcnt :: nat
  it_idx :: nat
  it_len :: u64
  it_base :: u64

type_synonym spdk_ioviter = "spdk_single_ioviter list"

text \<open>The loop of \<open>spdk_ioviter_nextv\<close> that finds the length of the next segment, 0 when a list has
  no bytes left.\<close>

fun nextv_len :: "u64 \<Rightarrow> spdk_ioviter \<Rightarrow> u64" where
  "nextv_len len [] = len"
| "nextv_len len (it # iter) =
     (if it_idx it = it_iovcnt it \<or> it_len it = 0 then 0
      else nextv_len (min len (it_len it)) iter)"

text \<open>The body of its second loop.\<close>

definition nextv_advance :: "u64 \<Rightarrow> spdk_single_ioviter \<Rightarrow> spdk_single_ioviter res" where
  "nextv_advance len it =
     (if it_len it = len then
        let idx = it_idx it + 1 in
        if idx \<noteq> it_iovcnt it then
          if idx < length (it_iov it) then
            Inr (it\<lparr>it_idx := idx, it_len := iov_len (it_iov it ! idx),
                    it_base := iov_base (it_iov it ! idx)\<rparr>)
          else Inl Undefined
        else Inr (it\<lparr>it_idx := idx\<rparr>)
      else Inr (it\<lparr>it_base := it_base it + len, it_len := it_len it - len\<rparr>))"

fun nextv_advance_all :: "u64 \<Rightarrow> spdk_ioviter \<Rightarrow> spdk_ioviter res" where
  "nextv_advance_all len [] = Inr []"
| "nextv_advance_all len (it # iter) =
     res_bind (nextv_advance len it)
       (\<lambda>it'. res_bind (nextv_advance_all len iter) (\<lambda>iter'. Inr (it' # iter')))"

definition spdk_ioviter_nextv :: "spdk_ioviter \<Rightarrow> (u64 \<times> u64 list \<times> spdk_ioviter) res" where
  "spdk_ioviter_nextv iter =
     (let len = nextv_len (ucast UINT32_MAX) iter in
      if len = 0 then Inr (0, [], iter)
      else res_bind (nextv_advance_all len iter) (\<lambda>iter'. Inr (len, map it_base iter, iter')))"

fun firstv_init :: "(iovec list \<times> nat) list \<Rightarrow> spdk_ioviter res" where
  "firstv_init [] = Inr []"
| "firstv_init ((iov, iovcnt) # rest) =
     (case iov of
        [] \<Rightarrow> Inl Undefined
      | v # _ \<Rightarrow> res_bind (firstv_init rest)
          (\<lambda>iter. Inr (\<lparr>it_iov = iov, it_iovcnt = iovcnt, it_idx = 0, it_len = iov_len v,
                        it_base = iov_base v\<rparr> # iter)))"

definition spdk_ioviter_firstv ::
  "(iovec list \<times> nat) list \<Rightarrow> (u64 \<times> u64 list \<times> spdk_ioviter) res" where
  "spdk_ioviter_firstv iovs = res_bind (firstv_init iovs) spdk_ioviter_nextv"

text \<open>The two-way forms write the source and destination pointers only when there is a segment.\<close>

definition out_pair :: "u64 \<times> u64 list \<times> spdk_ioviter \<Rightarrow> u64 \<times> (u64 \<times> u64) option \<times> spdk_ioviter" where
  "out_pair r = (case r of (len, out, iter) \<Rightarrow>
     (len, if len > 0 then Some (out ! 0, out ! 1) else None, iter))"

definition spdk_ioviter_first ::
  "iovec list \<Rightarrow> nat \<Rightarrow> iovec list \<Rightarrow> nat \<Rightarrow> (u64 \<times> (u64 \<times> u64) option \<times> spdk_ioviter) res" where
  "spdk_ioviter_first siov siovcnt diov diovcnt =
     res_bind (spdk_ioviter_firstv [(siov, siovcnt), (diov, diovcnt)]) (\<lambda>r. Inr (out_pair r))"

definition spdk_ioviter_next :: "spdk_ioviter \<Rightarrow> (u64 \<times> (u64 \<times> u64) option \<times> spdk_ioviter) res" where
  "spdk_ioviter_next iter = res_bind (spdk_ioviter_nextv iter) (\<lambda>r. Inr (out_pair r))"

section \<open>Copying between lists\<close>

text \<open>
  The loop of \<open>spdk_iovcpy\<close> and \<open>spdk_iovmove\<close>, which differ in the routine \<open>cpy\<close> that copies a
  segment. The outer \<open>None\<close> stands for a loop that does not end.
\<close>

partial_function (option) iovcpy_loop ::
  "(u64 \<Rightarrow> u64 \<Rightarrow> u64 \<Rightarrow> mem \<Rightarrow> mem res) \<Rightarrow> (u64 \<times> (u64 \<times> u64) option \<times> spdk_ioviter) res \<Rightarrow> mem \<Rightarrow> u64
     \<Rightarrow> (mem \<times> u64) res option" where
  "iovcpy_loop cpy r mem total_sz =
     (case r of
        Inl e \<Rightarrow> Some (Inl e)
      | Inr (len, ptrs, iter) \<Rightarrow>
          (case ptrs of
             None \<Rightarrow> Some (Inr (mem, total_sz))
           | Some (src, dst) \<Rightarrow>
               (case cpy dst src len mem of
                  Inl e \<Rightarrow> Some (Inl e)
                | Inr mem' \<Rightarrow> iovcpy_loop cpy (spdk_ioviter_next iter) mem' (total_sz + len))))"

definition spdk_iovcpy ::
  "iovec list \<Rightarrow> nat \<Rightarrow> iovec list \<Rightarrow> nat \<Rightarrow> mem \<Rightarrow> (mem \<times> u64) res option" where
  "spdk_iovcpy siov siovcnt diov diovcnt mem =
     iovcpy_loop memcpy (spdk_ioviter_first siov siovcnt diov diovcnt) mem 0"

definition spdk_iovmove ::
  "iovec list \<Rightarrow> nat \<Rightarrow> iovec list \<Rightarrow> nat \<Rightarrow> mem \<Rightarrow> (mem \<times> u64) res option" where
  "spdk_iovmove siov siovcnt diov diovcnt mem =
     iovcpy_loop (\<lambda>dst src len mem. Inr (memmove dst src len mem))
       (spdk_ioviter_first siov siovcnt diov diovcnt) mem 0"

section \<open>Transfers between a list and a buffer\<close>

record spdk_iov_xfer =
  ix_iovs :: "iovec list"
  ix_iovcnt :: int
  cur_iov_idx :: nat
  cur_iov_offset :: u64

definition spdk_iov_xfer_init :: "iovec list \<Rightarrow> int \<Rightarrow> spdk_iov_xfer" where
  "spdk_iov_xfer_init iovs iovcnt =
     \<lparr>ix_iovs = iovs, ix_iovcnt = iovcnt, cur_iov_idx = 0, cur_iov_offset = 0\<rparr>"

function iov_xfer_loop ::
  "spdk_iov_xfer \<Rightarrow> u64 \<Rightarrow> u64 \<Rightarrow> bool \<Rightarrow> u64 \<Rightarrow> mem \<Rightarrow> (spdk_iov_xfer \<times> mem \<times> u64) res" where
  "iov_xfer_loop ix buf buf_len to_buf copied_len mem =
     (if int (cur_iov_idx ix) < ix_iovcnt ix then
        if cur_iov_idx ix < length (ix_iovs ix) then
          let iov = ix_iovs ix ! cur_iov_idx ix;
              iov_remain_len = iov_len iov - cur_iov_offset ix in
          if iov_remain_len = 0
          then iov_xfer_loop (ix\<lparr>cur_iov_idx := cur_iov_idx ix + 1, cur_iov_offset := 0\<rparr>)
                 buf buf_len to_buf copied_len mem
          else
            let len = min iov_remain_len (buf_len - copied_len);
                p = iov_base iov + cur_iov_offset ix in
            case (if to_buf then memcpy (buf + copied_len) p len mem
                  else memcpy p (buf + copied_len) len mem) of
              Inl e \<Rightarrow> Inl e
            | Inr mem' \<Rightarrow>
                if buf_len = copied_len + len
                then Inr (ix\<lparr>cur_iov_offset := cur_iov_offset ix + len\<rparr>, mem', copied_len + len)
                else iov_xfer_loop (ix\<lparr>cur_iov_offset := cur_iov_offset ix + len\<rparr>)
                       buf buf_len to_buf (copied_len + len) mem'
        else Inl Undefined
      else Inr (ix, mem, copied_len))"
  by pat_completeness auto

lemma xfer_progress:
  "\<lbrakk>r \<noteq> 0; b \<noteq> c + min r (b - c)\<rbrakk> \<Longrightarrow> unat (b - (c + min r (b - c))) < unat (b - (c :: u64))"
proof -
  assume r: "r \<noteq> 0" and b: "b \<noteq> c + min r (b - c)"
  have "min r (b - c) \<le> b - c" and "0 < min r (b - c)"
    using r b by (auto simp: min_def word_gt_0)
  then have "unat (b - c - min r (b - c)) = unat (b - c) - unat (min r (b - c))"
      and "unat (min r (b - c)) \<le> unat (b - c)" and "0 < unat (min r (b - c))"
    by (simp_all add: unat_sub word_le_nat_alt word_less_nat_alt)
  then show ?thesis by (simp add: diff_diff_eq)
qed

termination iov_xfer_loop
  by (relation "measures [\<lambda>(ix, buf, buf_len, to_buf, copied_len, mem). nat (ix_iovcnt ix - int (cur_iov_idx ix)),
        \<lambda>(ix, buf, buf_len, to_buf, copied_len, mem). unat (buf_len - copied_len)]")
     (use xfer_progress in auto)

declare iov_xfer_loop.simps [simp del]

definition iov_xfer :: "spdk_iov_xfer \<Rightarrow> u64 \<Rightarrow> u64 \<Rightarrow> bool \<Rightarrow> mem \<Rightarrow> (spdk_iov_xfer \<times> mem \<times> u64) res" where
  "iov_xfer ix buf buf_len to_buf mem =
     (if buf_len = 0 then Inr (ix, mem, 0) else iov_xfer_loop ix buf buf_len to_buf 0 mem)"

definition spdk_iov_xfer_from_buf ::
  "spdk_iov_xfer \<Rightarrow> u64 \<Rightarrow> u64 \<Rightarrow> mem \<Rightarrow> (spdk_iov_xfer \<times> mem \<times> u64) res" where
  "spdk_iov_xfer_from_buf ix buf buf_len mem = iov_xfer ix buf buf_len False mem"

definition spdk_iov_xfer_to_buf ::
  "spdk_iov_xfer \<Rightarrow> u64 \<Rightarrow> u64 \<Rightarrow> mem \<Rightarrow> (spdk_iov_xfer \<times> mem \<times> u64) res" where
  "spdk_iov_xfer_to_buf ix buf buf_len mem = iov_xfer ix buf buf_len True mem"

definition spdk_copy_iovs_to_buf :: "u64 \<Rightarrow> u64 \<Rightarrow> iovec list \<Rightarrow> int \<Rightarrow> mem \<Rightarrow> mem res" where
  "spdk_copy_iovs_to_buf buf buf_len iovs iovcnt mem =
     res_bind (spdk_iov_xfer_to_buf (spdk_iov_xfer_init iovs iovcnt) buf buf_len mem)
       (\<lambda>(_, mem', _). Inr mem')"

definition spdk_copy_buf_to_iovs :: "iovec list \<Rightarrow> int \<Rightarrow> u64 \<Rightarrow> u64 \<Rightarrow> mem \<Rightarrow> mem res" where
  "spdk_copy_buf_to_iovs iovs iovcnt buf buf_len mem =
     res_bind (spdk_iov_xfer_from_buf (spdk_iov_xfer_init iovs iovcnt) buf buf_len mem)
       (\<lambda>(_, mem', _). Inr mem')"

section \<open>Reference: copying address by address\<close>

text \<open>The addresses of a segment and of a list, and the copy of a sequence of bytes, one after the
  other, along pairs of destination and source addresses.\<close>

definition span :: "u64 \<Rightarrow> u64 \<Rightarrow> u64 list" where
  "span base len = map (\<lambda>i. base + of_nat i) [0..<unat len]"

definition addrs :: "iovec list \<Rightarrow> u64 list" where
  "addrs iovs = concat (map (\<lambda>v. span (iov_base v) (iov_len v)) iovs)"

definition copy_bytes :: "(u64 \<times> u64) list \<Rightarrow> mem \<Rightarrow> mem" where
  "copy_bytes = fold (\<lambda>(dst, src) mem. mem(dst := mem src))"

text \<open>The elements the iterator reaches: those before the first empty one.\<close>

definition live :: "iovec list \<Rightarrow> nat \<Rightarrow> iovec list" where
  "live iov iovcnt = takeWhile (\<lambda>v. iov_len v \<noteq> 0) (take iovcnt iov)"

lemma length_span [simp]: "length (span base len) = unat len"
  by (simp add: span_def)

lemma span_0 [simp]: "span base 0 = []"
  by (simp add: span_def)

lemma nth_span [simp]: "i < unat len \<Longrightarrow> span base len ! i = base + of_nat i"
  by (simp add: span_def)

lemma span_eq_Nil [simp]: "span base len = [] \<longleftrightarrow> len = 0"
  by (simp add: span_def unat_eq_0)

lemma set_span: "a \<in> set (span base len) \<longleftrightarrow> a - base < len"
proof
  assume "a \<in> set (span base len)"
  then obtain i where "i < unat len" "a = base + of_nat i" by (auto simp: span_def)
  then show "a - base < len"
    by (simp add: word_less_nat_alt unat_of_nat)
next
  assume "a - base < len"
  then have "unat (a - base) < unat len" by (simp add: word_less_nat_alt)
  moreover have "a = base + of_nat (unat (a - base))" by simp
  ultimately show "a \<in> set (span base len)" by (force simp: span_def)
qed

lemma distinct_span [simp]: "distinct (span base len)"
proof -
  have "inj_on (\<lambda>i. base + of_nat i) {0..<unat len}"
  proof (rule inj_onI)
    fix i j assume "i \<in> {0..<unat len}" "j \<in> {0..<unat len}"
    then have "i < 2 ^ 64" "j < 2 ^ 64" by (auto intro: less_trans [OF _ unat_u64_bound])
    moreover assume "base + of_nat i = base + of_nat j"
    then have "unat (of_nat i :: u64) = unat (of_nat j :: u64)" by simp
    ultimately show "i = j" by (simp add: unat_of_nat)
  qed
  then show ?thesis by (simp add: span_def distinct_map)
qed

lemma span_split: "len \<le> n \<Longrightarrow> span base n = span base len @ span (base + len) (n - len)"
proof (rule nth_equalityI)
  assume "len \<le> n"
  then have le: "unat len \<le> unat n" and d: "unat (n - len) = unat n - unat len"
    by (simp_all add: word_le_nat_alt unat_sub)
  then show "length (span base n) = length (span base len @ span (base + len) (n - len))" by simp
  fix i assume "i < length (span base n)"
  then show "span base n ! i = (span base len @ span (base + len) (n - len)) ! i"
    using le d by (auto simp: nth_append of_nat_diff)
qed

lemma addrs_simps [simp]:
  "addrs [] = []" "addrs (v # vs) = span (iov_base v) (iov_len v) @ addrs vs"
  "addrs (us @ vs) = addrs us @ addrs vs"
  by (simp_all add: addrs_def)

lemma copy_bytes_simps [simp]:
  "copy_bytes [] mem = mem" "copy_bytes (p # ps) mem = copy_bytes ps (mem(fst p := mem (snd p)))"
  "copy_bytes (ps @ qs) mem = copy_bytes qs (copy_bytes ps mem)"
  by (simp_all add: copy_bytes_def split: prod.split)

lemma copy_bytes_other: "a \<notin> set D \<Longrightarrow> copy_bytes (zip D S) mem a = mem a"
proof (induction D arbitrary: S mem)
  case (Cons d D) then show ?case by (cases S) auto
qed simp

lemma copy_bytes_nth:
  assumes "distinct D" "set D \<inter> set S = {}" "i < length D" "i < length S"
  shows "copy_bytes (zip D S) mem (D ! i) = mem (S ! i)"
  using assms
proof (induction D arbitrary: S i mem)
  case (Cons d D)
  then obtain s S' where S: "S = s # S'" by (cases S) auto
  show ?case
  proof (cases i)
    case 0 then show ?thesis using Cons.prems S by (simp add: copy_bytes_other)
  next
    case (Suc j)
    moreover from Suc Cons.prems S have "S' ! j \<noteq> d" by (metis Int_iff Suc_less_eq disjoint_iff length_Cons list.set_intros nth_mem)
    ultimately show ?thesis using Cons S by auto
  qed
qed simp

section \<open>A routine that copies one segment\<close>

text \<open>
  What the copying loop needs of \<open>memcpy\<close> or \<open>memmove\<close>: on disjoint segments it is the copy byte
  by byte.
\<close>

lemma memmove_copy_bytes:
  assumes "set (span dst len) \<inter> set (span src len) = {}"
  shows "memmove dst src len mem = copy_bytes (zip (span dst len) (span src len)) mem"
proof
  fix a
  show "memmove dst src len mem a = copy_bytes (zip (span dst len) (span src len)) mem a"
  proof (cases "a \<in> set (span dst len)")
    case True
    then have lt: "unat (a - dst) < unat len" and "a - dst < len"
      by (simp_all add: set_span word_less_nat_alt)
    moreover have "a = span dst len ! unat (a - dst)" using lt by simp
    ultimately show ?thesis
      using copy_bytes_nth [OF distinct_span assms, of "unat (a - dst)" mem] by (simp add: memmove_def)
  next
    case False
    then show ?thesis by (simp add: copy_bytes_other) (simp add: memmove_def set_span)
  qed
qed

locale segment_copy =
  fixes cpy :: "u64 \<Rightarrow> u64 \<Rightarrow> u64 \<Rightarrow> mem \<Rightarrow> mem res"
  assumes cpy_disjoint: "set (span dst len) \<inter> set (span src len) = {} \<Longrightarrow>
    cpy dst src len mem = Inr (copy_bytes (zip (span dst len) (span src len)) mem)"

section \<open>The bytes an iterator has left\<close>

definition it_ok :: "spdk_single_ioviter \<Rightarrow> bool" where
  "it_ok it \<longleftrightarrow> it_idx it \<le> it_iovcnt it \<and> it_iovcnt it \<le> length (it_iov it)"

definition rest :: "spdk_single_ioviter \<Rightarrow> u64 list" where
  "rest it = (if it_idx it = it_iovcnt it \<or> it_len it = 0 then []
     else span (it_base it) (it_len it)
       @ addrs (takeWhile (\<lambda>v. iov_len v \<noteq> 0) (drop (it_idx it + 1) (take (it_iovcnt it) (it_iov it)))))"

lemma rest_eq_Nil [simp]: "rest it = [] \<longleftrightarrow> it_idx it = it_iovcnt it \<or> it_len it = 0"
  by (simp add: rest_def)

lemma nextv_advance_rest:
  assumes "it_ok it" "it_idx it \<noteq> it_iovcnt it" "0 < len" "len \<le> it_len it"
  obtains it' where "nextv_advance len it = Inr it'" "it_ok it'" "rest it = span (it_base it) len @ rest it'"
proof (cases "it_len it = len")
  case False
  have "rest it = span (it_base it) len @ rest (it\<lparr>it_base := it_base it + len, it_len := it_len it - len\<rparr>)"
    using assms False span_split [of len "it_len it" "it_base it"] by (auto simp: rest_def)
  then show ?thesis
    using assms False by (intro that) (auto simp: nextv_advance_def it_ok_def)
next
  case True
  let ?idx = "it_idx it + 1"
  show ?thesis
  proof (cases "?idx = it_iovcnt it")
    case last: True
    with assms True show ?thesis
      by (intro that [of "it\<lparr>it_idx := ?idx\<rparr>"]) (auto simp: nextv_advance_def it_ok_def rest_def)
  next
    case False
    with assms have lt: "?idx < it_iovcnt it" "?idx < length (it_iov it)" by (auto simp: it_ok_def)
    let ?it = "it\<lparr>it_idx := ?idx, it_len := iov_len (it_iov it ! ?idx), it_base := iov_base (it_iov it ! ?idx)\<rparr>"
    have "drop ?idx (take (it_iovcnt it) (it_iov it))
        = it_iov it ! ?idx # drop (?idx + 1) (take (it_iovcnt it) (it_iov it))"
      using lt by (simp add: Cons_nth_drop_Suc [symmetric])
    then have "rest it = span (it_base it) len @ rest ?it"
      using assms True False by (auto simp: rest_def)
    then show ?thesis
      using assms True False lt by (intro that [of ?it]) (auto simp: nextv_advance_def it_ok_def)
  qed
qed

lemma nextv_len_eq_0: "len \<noteq> 0 \<Longrightarrow> nextv_len len iter = 0 \<longleftrightarrow> (\<exists>it\<in>set iter. rest it = [])"
  by (induction len iter rule: nextv_len.induct) (auto simp: min_def)

lemma nextv_len_le: "nextv_len len iter \<noteq> 0 \<Longrightarrow> nextv_len len iter \<le> len"
  by (induction len iter rule: nextv_len.induct) (auto split: if_splits)

lemma nextv_len_le_it:
  "\<lbrakk>nextv_len len iter \<noteq> 0; it \<in> set iter\<rbrakk> \<Longrightarrow> nextv_len len iter \<le> it_len it"
proof (induction len iter rule: nextv_len.induct)
  case (2 len i iter)
  then show ?case
    using nextv_len_le [of "min len (it_len i)" iter] by (auto split: if_splits)
qed simp

lemma nextv_advance_all_rest:
  assumes "list_all it_ok iter" "0 < len" "\<forall>it\<in>set iter. it_idx it \<noteq> it_iovcnt it \<and> len \<le> it_len it"
  shows "\<exists>iter'. nextv_advance_all len iter = Inr iter' \<and> list_all it_ok iter'
    \<and> list_all2 (\<lambda>it it'. rest it = span (it_base it) len @ rest it') iter iter'"
  using assms
proof (induction iter)
  case (Cons it iter)
  then obtain it' where "nextv_advance len it = Inr it'" "it_ok it'"
      "rest it = span (it_base it) len @ rest it'"
    by (auto elim: nextv_advance_rest)
  then show ?case using Cons by auto
qed simp

lemma ucast_UINT32_MAX_neq_0: "(ucast UINT32_MAX :: u64) \<noteq> 0"
  by code_simp

lemma nextv_end:
  "\<exists>it\<in>set iter. rest it = [] \<Longrightarrow> spdk_ioviter_nextv iter = Inr (0, [], iter)"
  using nextv_len_eq_0 [OF ucast_UINT32_MAX_neq_0, of iter] by (simp add: spdk_ioviter_nextv_def)

lemma nextv_segment:
  assumes "list_all it_ok iter" "\<forall>it\<in>set iter. rest it \<noteq> []"
  obtains len iter' where "spdk_ioviter_nextv iter = Inr (len, map it_base iter, iter')" "0 < len"
    "list_all it_ok iter'" "list_all2 (\<lambda>it it'. rest it = span (it_base it) len @ rest it') iter iter'"
proof -
  let ?len = "nextv_len (ucast UINT32_MAX) iter"
  have "?len \<noteq> 0" using nextv_len_eq_0 [OF ucast_UINT32_MAX_neq_0, of iter] assms(2) by blast
  moreover from this have "0 < ?len" by (simp add: word_gt_0)
  moreover obtain iter' where "nextv_advance_all ?len iter = Inr iter'" "list_all it_ok iter'"
      "list_all2 (\<lambda>it it'. rest it = span (it_base it) ?len @ rest it') iter iter'"
    using nextv_advance_all_rest [OF assms(1) \<open>0 < ?len\<close>] nextv_len_le_it [OF \<open>?len \<noteq> 0\<close>] assms(2)
    by auto
  ultimately show ?thesis by (intro that) (simp_all add: spdk_ioviter_nextv_def Let_def)
qed

lemma next_pair_end:
  "rest s = [] \<or> rest d = [] \<Longrightarrow> spdk_ioviter_next [s, d] = Inr (0, None, [s, d])"
  by (auto simp: spdk_ioviter_next_def nextv_end out_pair_def)

lemma next_pair_segment:
  assumes "it_ok s" "it_ok d" "rest s \<noteq> []" "rest d \<noteq> []"
  obtains len s' d' where "spdk_ioviter_next [s, d] = Inr (len, Some (it_base s, it_base d), [s', d'])"
    "0 < len" "it_ok s'" "it_ok d'"
    "rest s = span (it_base s) len @ rest s'" "rest d = span (it_base d) len @ rest d'"
proof -
  obtain len iter' where *: "spdk_ioviter_nextv [s, d] = Inr (len, map it_base [s, d], iter')" "0 < len"
    "list_all it_ok iter'" "list_all2 (\<lambda>it it'. rest it = span (it_base it) len @ rest it') [s, d] iter'"
    by (rule nextv_segment [of "[s, d]"]) (use assms in auto)
  then show ?thesis
    by (intro that [of len "iter' ! 0" "iter' ! 1"])
       (auto simp: spdk_ioviter_next_def out_pair_def list_all2_Cons1)
qed

context segment_copy
begin

lemma loop_copies:
  assumes "it_ok s" "it_ok d" "set (rest d) \<inter> set (rest s) = {}"
  shows "iovcpy_loop cpy (spdk_ioviter_next [s, d]) mem total_sz
    = Some (Inr (copy_bytes (zip (rest d) (rest s)) mem,
                 total_sz + of_nat (min (length (rest s)) (length (rest d)))))"
  using assms
proof (induction "length (rest s)" arbitrary: s d mem total_sz rule: less_induct)
  case less
  show ?case
  proof (cases "rest s = [] \<or> rest d = []")
    case True
    then show ?thesis by (subst iovcpy_loop.simps) (auto simp: next_pair_end simp del: rest_eq_Nil)
  next
    case False
    then obtain len s' d' where seg: "spdk_ioviter_next [s, d] = Inr (len, Some (it_base s, it_base d), [s', d'])"
        "0 < len" "it_ok s'" "it_ok d'"
      and rs: "rest s = span (it_base s) len @ rest s'" and rd: "rest d = span (it_base d) len @ rest d'"
      using less.prems by (auto elim: next_pair_segment simp del: rest_eq_Nil)
    have "length (rest s') < length (rest s)" "set (rest d') \<inter> set (rest s') = {}"
      using rs rd seg(2) less.prems by (auto simp: unat_gt_0 word_gt_0)
    note IH = less.hyps [OF this(1) seg(3,4) this(2)]
    have "cpy (it_base d) (it_base s) len mem
        = Inr (copy_bytes (zip (span (it_base d) len) (span (it_base s) len)) mem)"
      using rs rd less.prems by (intro cpy_disjoint) auto
    moreover have "min (unat len + m) (unat len + n) = unat len + min m n" for m n by simp
    ultimately show ?thesis
      using seg IH by (subst iovcpy_loop.simps) (simp add: rs rd zip_append add.assoc)
  qed
qed

end

interpretation memcpy_seg: segment_copy memcpy
proof
  fix dst len src and mem :: mem
  assume d: "set (span dst len) \<inter> set (span src len) = {}"
  have "\<not> src - dst < len" "\<not> dst - src < len"
    using d set_span [of src src len] set_span [of dst dst len] set_span [of src dst len]
      set_span [of dst src len] by (auto simp: word_gt_0)
  then show "memcpy dst src len mem = Inr (copy_bytes (zip (span dst len) (span src len)) mem)"
    by (simp add: memcpy_def memmove_copy_bytes [OF d])
qed

interpretation memmove_seg: segment_copy "\<lambda>dst src len mem. Inr (memmove dst src len mem)"
  by unfold_locales (simp add: memmove_copy_bytes)

definition it_first :: "iovec list \<Rightarrow> nat \<Rightarrow> spdk_single_ioviter" where
  "it_first iov iovcnt = \<lparr>it_iov = iov, it_iovcnt = iovcnt, it_idx = 0, it_len = iov_len (hd iov),
     it_base = iov_base (hd iov)\<rparr>"

lemma first_eq_next:
  "\<lbrakk>siov \<noteq> []; diov \<noteq> []\<rbrakk> \<Longrightarrow> spdk_ioviter_first siov siovcnt diov diovcnt
     = spdk_ioviter_next [it_first siov siovcnt, it_first diov diovcnt]"
  by (cases siov; cases diov)
     (simp_all add: spdk_ioviter_first_def spdk_ioviter_firstv_def spdk_ioviter_next_def it_first_def)

lemma it_ok_first [simp]: "iovcnt \<le> length iov \<Longrightarrow> it_ok (it_first iov iovcnt)"
  by (simp add: it_ok_def it_first_def)

lemma rest_first [simp]: "iov \<noteq> [] \<Longrightarrow> rest (it_first iov iovcnt) = addrs (live iov iovcnt)"
  by (cases iov; cases iovcnt) (auto simp: rest_def it_first_def live_def)

section \<open>The copying loop ends\<close>

definition it_left :: "spdk_single_ioviter \<Rightarrow> nat" where
  "it_left it = (if it_idx it = it_iovcnt it then 0
     else Suc (max (length (it_iov it)) (it_iovcnt it) - it_idx it))"

definition it_order :: "(spdk_single_ioviter \<times> spdk_single_ioviter) set" where
  "it_order = measures [it_left, \<lambda>it. unat (it_len it)]"

lemma wf_it_order: "wf it_order"
  by (simp add: it_order_def)

lemma nextv_advance_less:
  assumes "nextv_advance len it = Inr it'" "it_idx it \<noteq> it_iovcnt it" "0 < len" "len \<le> it_len it"
  shows "(it', it) \<in> it_order"
proof (cases "it_len it = len")
  case True
  then show ?thesis
    using assms by (auto simp: it_order_def nextv_advance_def Let_def it_left_def split: if_splits)
next
  case False
  then have "unat (it_len it - len) < unat (it_len it)"
    using assms by (simp add: unat_sub word_less_nat_alt word_le_nat_alt)
  moreover have "it' = it\<lparr>it_base := it_base it + len, it_len := it_len it - len\<rparr>"
    using assms(1) False by (simp add: nextv_advance_def)
  ultimately show ?thesis by (simp add: it_order_def it_left_def)
qed

lemma next_less:
  assumes "spdk_ioviter_next (it # iter) = Inr (len, Some ptrs, iter')"
  shows "\<exists>it' tl. iter' = it' # tl \<and> (it', it) \<in> it_order"
proof -
  let ?len = "nextv_len (ucast UINT32_MAX) (it # iter)"
  have len: "?len \<noteq> 0" and "\<exists>it' tl. nextv_advance ?len it = Inr it' \<and> iter' = it' # tl"
    using assms by (auto simp: spdk_ioviter_next_def spdk_ioviter_nextv_def out_pair_def Let_def
        simp del: nextv_len.simps split: if_splits elim!: res_bind_InrE)
  moreover have "?len \<le> it_len it" "it_idx it \<noteq> it_iovcnt it"
    using len nextv_len_le_it [OF len, of it] by (auto split: if_splits)
  moreover have "0 < ?len" using len by (simp add: word_gt_0 del: nextv_len.simps)
  ultimately show ?thesis using nextv_advance_less by (metis (no_types))
qed

lemma iovcpy_loop_returns: "\<exists>r. iovcpy_loop cpy (spdk_ioviter_next (it # iter)) mem total_sz = Some r"
  using wf_it_order
proof (induction it arbitrary: iter mem total_sz rule: wf_induct_rule)
  case (less it)
  show ?case
  proof (cases "\<exists>len src dst iter' mem'. spdk_ioviter_next (it # iter) = Inr (len, Some (src, dst), iter')
      \<and> cpy dst src len mem = Inr mem'")
    case True
    then obtain len src dst iter' mem' where n: "spdk_ioviter_next (it # iter) = Inr (len, Some (src, dst), iter')"
      and c: "cpy dst src len mem = Inr mem'" by blast
    obtain it' tl where "iter' = it' # tl" "(it', it) \<in> it_order" using next_less [OF n] by blast
    then show ?thesis using less n c by (subst iovcpy_loop.simps) simp
  next
    case False
    then show ?thesis
      by (subst iovcpy_loop.simps) (auto split: sum.splits option.splits)
  qed
qed

section \<open>The bytes a transfer has left\<close>

definition ix_elems :: "spdk_iov_xfer \<Rightarrow> iovec list" where
  "ix_elems ix = take (nat (ix_iovcnt ix)) (ix_iovs ix)"

definition ix_rest :: "spdk_iov_xfer \<Rightarrow> u64 list" where
  "ix_rest ix = drop (unat (cur_iov_offset ix)) (addrs (drop (cur_iov_idx ix) (ix_elems ix)))"

definition ix_ok :: "spdk_iov_xfer \<Rightarrow> bool" where
  "ix_ok ix \<longleftrightarrow> nat (ix_iovcnt ix) \<le> length (ix_iovs ix)
     \<and> (cur_iov_idx ix < length (ix_elems ix) \<longrightarrow> cur_iov_offset ix \<le> iov_len (ix_elems ix ! cur_iov_idx ix))"

definition xfer_pairs :: "bool \<Rightarrow> u64 list \<Rightarrow> u64 list \<Rightarrow> (u64 \<times> u64) list" where
  "xfer_pairs to_buf R B = (if to_buf then zip B R else zip R B)"

lemma xfer_pairs_append:
  "length R = length B \<Longrightarrow> xfer_pairs to_buf (R @ R') (B @ B') = xfer_pairs to_buf R B @ xfer_pairs to_buf R' B'"
  by (simp add: xfer_pairs_def)

lemma xfer_pairs_Nil [simp]: "xfer_pairs to_buf [] B = []" "xfer_pairs to_buf R [] = []"
  by (simp_all add: xfer_pairs_def)

lemma xfer_memcpy:
  "set (span p len) \<inter> set (span b len) = {} \<Longrightarrow>
     (if to_buf then memcpy b p len mem else memcpy p b len mem)
     = Inr (copy_bytes (xfer_pairs to_buf (span p len) (span b len)) mem)"
  by (auto simp: memcpy_seg.cpy_disjoint xfer_pairs_def Int_commute)

lemma ix_elems_less:
  "ix_ok ix \<Longrightarrow> int (cur_iov_idx ix) < ix_iovcnt ix \<longleftrightarrow> cur_iov_idx ix < length (ix_elems ix)"
  by (auto simp: ix_elems_def ix_ok_def)

lemma ix_elems_nth:
  "cur_iov_idx ix < length (ix_elems ix) \<Longrightarrow> ix_iovs ix ! cur_iov_idx ix = ix_elems ix ! cur_iov_idx ix
     \<and> cur_iov_idx ix < length (ix_iovs ix)"
  by (simp add: ix_elems_def)

lemma ix_elems_update [simp]:
  "ix_elems (ix\<lparr>cur_iov_idx := i\<rparr>) = ix_elems ix" "ix_elems (ix\<lparr>cur_iov_offset := n\<rparr>) = ix_elems ix"
  by (simp_all add: ix_elems_def)

lemma ix_rest_end: "\<lbrakk>ix_ok ix; \<not> cur_iov_idx ix < length (ix_elems ix)\<rbrakk> \<Longrightarrow> ix_rest ix = []"
  by (simp add: ix_rest_def)

lemma ix_rest_Cons:
  assumes "cur_iov_idx ix < length (ix_elems ix)"
  shows "ix_rest ix = drop (unat (cur_iov_offset ix))
    (span (iov_base (ix_elems ix ! cur_iov_idx ix)) (iov_len (ix_elems ix ! cur_iov_idx ix))
     @ addrs (drop (cur_iov_idx ix + 1) (ix_elems ix)))"
  using assms by (simp add: ix_rest_def Cons_nth_drop_Suc [symmetric])

lemma ix_rest_skip:
  assumes "ix_ok ix" "cur_iov_idx ix < length (ix_elems ix)"
    "iov_len (ix_elems ix ! cur_iov_idx ix) - cur_iov_offset ix = 0"
  defines "ix' \<equiv> ix\<lparr>cur_iov_idx := cur_iov_idx ix + 1, cur_iov_offset := 0\<rparr>"
  shows "ix_ok ix'" "ix_rest ix' = ix_rest ix"
proof -
  have "cur_iov_offset ix = iov_len (ix_elems ix ! cur_iov_idx ix)" using assms(3) by simp
  then show "ix_rest ix' = ix_rest ix" by (simp add: ix'_def ix_rest_Cons [OF assms(2)]) (simp add: ix_rest_def)
  show "ix_ok ix'" using assms(1) by (simp add: ix'_def ix_ok_def)
qed

lemma ix_rest_take:
  assumes ok: "ix_ok ix" and lt: "cur_iov_idx ix < length (ix_elems ix)"
    and le: "len \<le> iov_len (ix_elems ix ! cur_iov_idx ix) - cur_iov_offset ix"
  defines "ix' \<equiv> ix\<lparr>cur_iov_offset := cur_iov_offset ix + len\<rparr>"
  shows "ix_ok ix'"
    "ix_rest ix = span (iov_base (ix_elems ix ! cur_iov_idx ix) + cur_iov_offset ix) len @ ix_rest ix'"
proof -
  let ?v = "ix_elems ix ! cur_iov_idx ix" and ?o = "cur_iov_offset ix"
  have o: "?o \<le> iov_len ?v" using ok lt by (simp add: ix_ok_def)
  then have "unat ?o + unat len \<le> unat (iov_len ?v)" using le by (simp add: word_le_nat_alt unat_sub)
  then have ol: "unat (?o + len) = unat ?o + unat len" and le': "?o + len \<le> iov_len ?v"
    using unat_add_u64 [of ?o len] le_less_trans [OF _ unat_u64_bound [of "iov_len ?v"]]
    by (simp_all add: word_le_nat_alt)
  show "ix_ok ix'" using ok le' by (simp add: ix'_def ix_ok_def)
  have "span (iov_base ?v) (iov_len ?v) = span (iov_base ?v) ?o
      @ span (iov_base ?v + ?o) len @ span (iov_base ?v + ?o + len) (iov_len ?v - ?o - len)"
    using span_split [OF o, of "iov_base ?v"] span_split [OF le, of "iov_base ?v + ?o"] by simp
  moreover have "ix_rest ix' = drop (unat ?o + unat len)
      (span (iov_base ?v) (iov_len ?v) @ addrs (drop (cur_iov_idx ix + 1) (ix_elems ix)))"
    using ix_rest_Cons [of ix'] lt ol by (simp add: ix'_def)
  ultimately show "ix_rest ix = span (iov_base ?v + ?o) len @ ix_rest ix'"
    by (simp add: ix_rest_Cons [OF lt])
qed

definition xfer_result ::
  "spdk_iov_xfer \<Rightarrow> bool \<Rightarrow> u64 \<Rightarrow> u64 list \<Rightarrow> mem \<Rightarrow> (spdk_iov_xfer \<times> mem \<times> u64) res \<Rightarrow> bool" where
  "xfer_result ix to_buf copied_len B mem r \<longleftrightarrow>
     (case r of Inl _ \<Rightarrow> False
      | Inr (ix', mem', n) \<Rightarrow> ix_ok ix' \<and> mem' = copy_bytes (xfer_pairs to_buf (ix_rest ix) B) mem
          \<and> n = copied_len + of_nat (min (length B) (length (ix_rest ix)))
          \<and> ix_rest ix' = drop (length B) (ix_rest ix) \<and> ix_elems ix' = ix_elems ix)"

lemma xfer_result_cong:
  "\<lbrakk>ix_rest ix' = ix_rest ix; ix_elems ix' = ix_elems ix\<rbrakk> \<Longrightarrow> xfer_result ix' = xfer_result ix"
  by (intro ext) (auto simp: xfer_result_def split: sum.split)

lemma xfer_result_append:
  assumes "xfer_result ix' to_buf (copied_len + len) B mem' r" "unat len = length B0" "length R0 = length B0"
    "ix_rest ix = R0 @ ix_rest ix'" "mem' = copy_bytes (xfer_pairs to_buf R0 B0) mem" "ix_elems ix' = ix_elems ix"
  shows "xfer_result ix to_buf copied_len (B0 @ B) mem r"
proof -
  have "len = of_nat (length B0)" unfolding assms(2) [symmetric] by simp
  moreover have "min (m + k) (m + n) = m + min k n" for k m n :: nat by simp
  ultimately show ?thesis
    using assms by (auto simp: xfer_result_def xfer_pairs_append add.assoc split: sum.splits)
qed

lemma iov_xfer_loop_correct:
  assumes "ix_ok ix" "copied_len \<noteq> buf_len"
    "set (ix_rest ix) \<inter> set (span (buf + copied_len) (buf_len - copied_len)) = {}"
  shows "xfer_result ix to_buf copied_len (span (buf + copied_len) (buf_len - copied_len)) mem
    (iov_xfer_loop ix buf buf_len to_buf copied_len mem)"
  using assms
proof (induction ix buf buf_len to_buf copied_len mem rule: iov_xfer_loop.induct)
  case (1 ix buf buf_len to_buf copied_len mem)
  let ?i = "cur_iov_idx ix" and ?v = "ix_iovs ix ! cur_iov_idx ix"
  let ?rem = "iov_len ?v - cur_iov_offset ix" and ?p = "iov_base ?v + cur_iov_offset ix"
  let ?B = "span (buf + copied_len) (buf_len - copied_len)"
  note simps = iov_xfer_loop.simps [of ix buf buf_len to_buf copied_len mem]
  show ?case
  proof (cases "?i < length (ix_elems ix)")
    case False
    then show ?thesis using ix_rest_end [OF 1(3) False] 1(3) ix_elems_less [OF 1(3)]
      by (simp add: simps xfer_result_def)
  next
    case True
    have c: "int ?i < ix_iovcnt ix" "?i < length (ix_iovs ix)" and v: "?v = ix_elems ix ! ?i"
      using ix_elems_less [OF 1(3)] ix_elems_nth [OF True] True by auto
    show ?thesis
    proof (cases "?rem = 0")
      case z: True
      note s = ix_rest_skip [OF 1(3) True, folded v, OF z]
      note IH = 1(1) [OF c refl refl z, OF s(1) 1(4), unfolded s(2), OF 1(5)]
      let ?ix' = "ix\<lparr>cur_iov_idx := ?i + 1, cur_iov_offset := 0\<rparr>"
      have "iov_xfer_loop ix buf buf_len to_buf copied_len mem = iov_xfer_loop ?ix' buf buf_len to_buf copied_len mem"
        using c z by (simp add: simps Let_def)
      then show ?thesis using IH by (simp only: xfer_result_cong [OF s(2)] ix_elems_update)
    next
      case nz: False
      define len where "len = min ?rem (buf_len - copied_len)"
      define ix' where "ix' = ix\<lparr>cur_iov_offset := cur_iov_offset ix + len\<rparr>"
      have le: "len \<le> ?rem" "len \<le> buf_len - copied_len" by (simp_all add: len_def)
      note t = ix_rest_take [OF 1(3) True, folded v, OF le(1), folded ix'_def]
      have B: "?B = span (buf + copied_len) len @ span (buf + (copied_len + len)) (buf_len - (copied_len + len))"
        using span_split [OF le(2), of "buf + copied_len"] by (simp add: add.assoc diff_diff_eq)
      have disj: "set (span ?p len) \<inter> set (span (buf + copied_len) len) = {}"
          "set (ix_rest ix') \<inter> set (span (buf + (copied_len + len)) (buf_len - (copied_len + len))) = {}"
        using 1(5) unfolding t(2) B by auto
      define mem' where "mem' = copy_bytes (xfer_pairs to_buf (span ?p len) (span (buf + copied_len) len)) mem"
      note m = xfer_memcpy [OF disj(1), of to_buf mem, folded mem'_def]
      have e: "ix_elems ix' = ix_elems ix" by (simp add: ix'_def)
      have step: "iov_xfer_loop ix buf buf_len to_buf copied_len mem
          = (if buf_len = copied_len + len then Inr (ix', mem', copied_len + len)
             else iov_xfer_loop ix' buf buf_len to_buf (copied_len + len) mem')"
        using c nz m by (simp add: simps Let_def len_def [symmetric] ix'_def [symmetric])
      show ?thesis
      proof (cases "buf_len = copied_len + len")
        case fin: True
        have "xfer_result ix' to_buf (copied_len + len) [] mem' (Inr (ix', mem', copied_len + len))"
          using t(1) by (simp add: xfer_result_def)
        from xfer_result_append [OF this, of "span (buf + copied_len) len" "span ?p len" ix mem] t(2) e
        have "xfer_result ix to_buf copied_len (span (buf + copied_len) len) mem (Inr (ix', mem', copied_len + len))"
          by (simp add: mem'_def)
        then show ?thesis using fin step by simp
      next
        case False
        note IH = 1(2) [OF c refl refl nz refl refl, folded len_def, OF m False, folded ix'_def, OF t(1) _ disj(2)]
        from xfer_result_append [OF IH, of "span (buf + copied_len) len" "span ?p len" ix mem] t(2) e False
        show ?thesis using step by (simp add: B mem'_def [symmetric])
      qed
    qed
  qed
qed

lemma iov_xfer_correct:
  assumes "ix_ok ix" "set (ix_rest ix) \<inter> set (span buf buf_len) = {}"
  shows "xfer_result ix to_buf 0 (span buf buf_len) mem (iov_xfer ix buf buf_len to_buf mem)"
proof (cases "buf_len = 0")
  case True
  then show ?thesis using assms by (simp add: iov_xfer_def xfer_result_def)
next
  case False
  then show ?thesis
    using iov_xfer_loop_correct [of ix 0 buf_len buf to_buf mem] assms by (simp add: iov_xfer_def)
qed

lemma iov_xfer_copies:
  assumes "ix_ok ix" "set (ix_rest ix) \<inter> set (span buf buf_len) = {}"
  obtains ix' where "iov_xfer ix buf buf_len to_buf mem
      = Inr (ix', copy_bytes (xfer_pairs to_buf (ix_rest ix) (span buf buf_len)) mem,
             of_nat (min (unat buf_len) (length (ix_rest ix))))"
    "ix_ok ix'" "ix_rest ix' = drop (unat buf_len) (ix_rest ix)"
  using iov_xfer_correct [OF assms, of to_buf mem] by (auto simp: xfer_result_def split: sum.splits)

lemma xfer_init_ok [simp]: "nat iovcnt \<le> length iovs \<Longrightarrow> ix_ok (spdk_iov_xfer_init iovs iovcnt)"
  by (simp add: ix_ok_def spdk_iov_xfer_init_def)

lemma xfer_init_rest [simp]:
  "ix_rest (spdk_iov_xfer_init iovs iovcnt) = addrs (take (nat iovcnt) iovs)"
  by (simp add: ix_rest_def ix_elems_def spdk_iov_xfer_init_def)

lemma copy_buf_to_iovs_copies:
  assumes "nat iovcnt \<le> length iovs" "set (addrs (take (nat iovcnt) iovs)) \<inter> set (span buf buf_len) = {}"
  shows "spdk_copy_buf_to_iovs iovs iovcnt buf buf_len mem
      = Inr (copy_bytes (zip (addrs (take (nat iovcnt) iovs)) (span buf buf_len)) mem)"
proof -
  obtain ix' where "iov_xfer (spdk_iov_xfer_init iovs iovcnt) buf buf_len False mem
      = Inr (ix', copy_bytes (xfer_pairs False (addrs (take (nat iovcnt) iovs)) (span buf buf_len)) mem,
             of_nat (min (unat buf_len) (length (addrs (take (nat iovcnt) iovs)))))"
    by (rule iov_xfer_copies [of "spdk_iov_xfer_init iovs iovcnt" buf buf_len False mem])
       (simp_all add: assms)
  then show ?thesis by (simp add: spdk_copy_buf_to_iovs_def spdk_iov_xfer_from_buf_def xfer_pairs_def)
qed

lemma copy_iovs_to_buf_copies:
  assumes "nat iovcnt \<le> length iovs" "set (addrs (take (nat iovcnt) iovs)) \<inter> set (span buf buf_len) = {}"
  shows "spdk_copy_iovs_to_buf buf buf_len iovs iovcnt mem
      = Inr (copy_bytes (zip (span buf buf_len) (addrs (take (nat iovcnt) iovs))) mem)"
proof -
  obtain ix' where "iov_xfer (spdk_iov_xfer_init iovs iovcnt) buf buf_len True mem
      = Inr (ix', copy_bytes (xfer_pairs True (addrs (take (nat iovcnt) iovs)) (span buf buf_len)) mem,
             of_nat (min (unat buf_len) (length (addrs (take (nat iovcnt) iovs)))))"
    by (rule iov_xfer_copies [of "spdk_iov_xfer_init iovs iovcnt" buf buf_len True mem])
       (simp_all add: assms)
  then show ?thesis by (simp add: spdk_copy_iovs_to_buf_def spdk_iov_xfer_to_buf_def xfer_pairs_def)
qed

lemma copy_bytes_map:
  assumes "distinct D" "set D \<inter> set S = {}"
  shows "map (copy_bytes (zip D S) mem) (take (length S) D) = map mem (take (length D) S)"
  by (rule nth_equalityI) (simp_all add: copy_bytes_nth [OF assms])

section \<open>Properties\<close>

text \<open>C14 (equivalence). \<open>spdk_iovcpy\<close> on disjoint lists is the copy, byte after byte, of the source
  addresses to the destination addresses, up to the first empty element of either list, whatever the
  lengths of their elements; it returns the number of bytes copied.\<close>

theorem iovcpy_flat:
  assumes "siov \<noteq> []" "diov \<noteq> []" "siovcnt \<le> length siov" "diovcnt \<le> length diov"
    and "set (addrs (live diov diovcnt)) \<inter> set (addrs (live siov siovcnt)) = {}"
  shows "spdk_iovcpy siov siovcnt diov diovcnt mem
    = Some (Inr (copy_bytes (zip (addrs (live diov diovcnt)) (addrs (live siov siovcnt))) mem,
        of_nat (min (length (addrs (live siov siovcnt))) (length (addrs (live diov diovcnt))))))"
  using assms memcpy_seg.loop_copies [of "it_first siov siovcnt" "it_first diov diovcnt" mem 0]
  by (simp add: spdk_iovcpy_def first_eq_next)

theorem iovcpy_flat_witness:
  "spdk_iovcpy [\<lparr>iov_base = 0, iov_len = 3\<rparr>, \<lparr>iov_base = 8, iov_len = 1\<rparr>] 2
     [\<lparr>iov_base = 16, iov_len = 2\<rparr>, \<lparr>iov_base = 32, iov_len = 0\<rparr>, \<lparr>iov_base = 32, iov_len = 4\<rparr>] 3 (\<lambda>a. ucast a + 1)
   = Some (Inr (copy_bytes [(16, 0), (17, 1)] (\<lambda>a. ucast a + 1), 2))"
proof -
  have "live [\<lparr>iov_base = 0, iov_len = 3\<rparr>, \<lparr>iov_base = 8, iov_len = 1\<rparr>] 2
      = [\<lparr>iov_base = 0, iov_len = 3\<rparr>, \<lparr>iov_base = 8, iov_len = 1\<rparr>]"
    and "live [\<lparr>iov_base = 16, iov_len = 2\<rparr>, \<lparr>iov_base = 32, iov_len = 0\<rparr>, \<lparr>iov_base = 32, iov_len = 4\<rparr>] 3
      = [\<lparr>iov_base = 16, iov_len = 2\<rparr>]"
    by (simp_all add: live_def)
  moreover have "addrs [\<lparr>iov_base = 0, iov_len = 3\<rparr>, \<lparr>iov_base = 8, iov_len = 1\<rparr>] = [0, 1, 2, 8]"
    and "addrs [\<lparr>iov_base = 16, iov_len = 2\<rparr>] = [16, 17]" by code_simp+
  ultimately show ?thesis
    using iovcpy_flat [of "[\<lparr>iov_base = 0, iov_len = 3\<rparr>, \<lparr>iov_base = 8, iov_len = 1\<rparr>]"
      "[\<lparr>iov_base = 16, iov_len = 2\<rparr>, \<lparr>iov_base = 32, iov_len = 0\<rparr>, \<lparr>iov_base = 32, iov_len = 4\<rparr>]" 2 3 "\<lambda>a. ucast a + 1"]
    by simp
qed

text \<open>C32 (termination). \<open>spdk_iovcpy\<close> and \<open>spdk_iovmove\<close> always return, whatever arrays and counts
  they are given, even when a count exceeds its array or an element is empty.\<close>

theorem iovcpy_terminates:
  "(\<exists>r. spdk_iovcpy siov siovcnt diov diovcnt mem = Some r) \<and> (\<exists>r. spdk_iovmove siov siovcnt diov diovcnt mem = Some r)"
proof (cases "siov = [] \<or> diov = []")
  case True
  then have "spdk_ioviter_first siov siovcnt diov diovcnt = Inl Undefined"
    by (auto simp: spdk_ioviter_first_def spdk_ioviter_firstv_def split: list.split)
  then show ?thesis by (simp add: spdk_iovcpy_def spdk_iovmove_def iovcpy_loop.simps)
next
  case False
  then show ?thesis by (simp add: spdk_iovcpy_def spdk_iovmove_def first_eq_next iovcpy_loop_returns)
qed

text \<open>Copying a buffer into a list of distinct addresses and from there into a second
  buffer, both apart from the list, reproduces the bytes of the first buffer, as many as fit the
  list; empty elements are skipped.\<close>

theorem iov_buf_roundtrip:
  assumes "nat iovcnt \<le> length iovs" "distinct (addrs (take (nat iovcnt) iovs))"
    and "set (addrs (take (nat iovcnt) iovs)) \<inter> set (span b1 len) = {}"
    and "set (addrs (take (nat iovcnt) iovs)) \<inter> set (span b2 len) = {}"
  shows "\<exists>mem1 mem2. spdk_copy_buf_to_iovs iovs iovcnt b1 len mem = Inr mem1
    \<and> spdk_copy_iovs_to_buf b2 len iovs iovcnt mem1 = Inr mem2
    \<and> map mem2 (take (length (addrs (take (nat iovcnt) iovs))) (span b2 len))
        = map mem (take (length (addrs (take (nat iovcnt) iovs))) (span b1 len))"
proof -
  let ?A = "addrs (take (nat iovcnt) iovs)"
  let ?mem1 = "copy_bytes (zip ?A (span b1 len)) mem"
  have "map (copy_bytes (zip (span b2 len) ?A) ?mem1) (take (length ?A) (span b2 len)) = map ?mem1 (take (unat len) ?A)"
    using copy_bytes_map [of "span b2 len" ?A ?mem1] assms(4) by (simp add: Int_commute)
  also have "\<dots> = map mem (take (length ?A) (span b1 len))"
    using copy_bytes_map [OF assms(2,3), of mem] by simp
  finally show ?thesis
    using copy_buf_to_iovs_copies [OF assms(1,3)] copy_iovs_to_buf_copies [OF assms(1,4)] by blast
qed

theorem iov_buf_roundtrip_witness:
  "\<exists>mem1 mem2. spdk_copy_buf_to_iovs [\<lparr>iov_base = 100, iov_len = 1\<rparr>, \<lparr>iov_base = 0, iov_len = 0\<rparr>,
        \<lparr>iov_base = 200, iov_len = 2\<rparr>] 3 10 4 (\<lambda>a. ucast a) = Inr mem1
    \<and> spdk_copy_iovs_to_buf 20 4 [\<lparr>iov_base = 100, iov_len = 1\<rparr>, \<lparr>iov_base = 0, iov_len = 0\<rparr>,
        \<lparr>iov_base = 200, iov_len = 2\<rparr>] 3 mem1 = Inr mem2
    \<and> map mem2 [20, 21, 22] = [10, 11, 12]"
proof -
  let ?iovs = "[\<lparr>iov_base = 100, iov_len = 1\<rparr>, \<lparr>iov_base = 0, iov_len = 0\<rparr>, \<lparr>iov_base = 200, iov_len = 2\<rparr>] :: iovec list"
  have "take (nat 3) ?iovs = ?iovs" by (simp add: numeral_eq_Suc)
  moreover have "addrs ?iovs = [100, 200, 201]" "span 10 4 = [10, 11, 12, 13]" "span 20 4 = [20, 21, 22, 23]"
    by code_simp+
  ultimately show ?thesis
    using iov_buf_roundtrip [of 3 ?iovs 10 4 20 "\<lambda>a. ucast a"] by simp
qed

text \<open>\<open>spdk_iovmove\<close> moves segment by segment: when a source of two elements overlaps
  the destination, the first move overwrites bytes of the second element before they are read, so
  the destination does not receive the source's bytes.\<close>

theorem iovmove_overlap_clobbers:
  "\<exists>mem'. spdk_iovmove [\<lparr>iov_base = 0, iov_len = 2\<rparr>, \<lparr>iov_base = 2, iov_len = 2\<rparr>] 2
       [\<lparr>iov_base = 1, iov_len = 4\<rparr>] 1 mem = Some (Inr (mem', 4)) \<and> mem' 3 = mem 1"
proof -
  let ?s = "[\<lparr>iov_base = 0, iov_len = 2\<rparr>, \<lparr>iov_base = 2, iov_len = 2\<rparr>] :: iovec list"
  let ?d = "[\<lparr>iov_base = 1, iov_len = 4\<rparr>] :: iovec list"
  let ?i1 = "[\<lparr>it_iov = ?s, it_iovcnt = 2, it_idx = 1, it_len = 2, it_base = 2\<rparr>,
      \<lparr>it_iov = ?d, it_iovcnt = 1, it_idx = 0, it_len = 2, it_base = 3\<rparr>]"
  let ?i2 = "[\<lparr>it_iov = ?s, it_iovcnt = 2, it_idx = 2, it_len = 2, it_base = 2\<rparr>,
      \<lparr>it_iov = ?d, it_iovcnt = 1, it_idx = 1, it_len = 2, it_base = 3\<rparr>]"
  have "spdk_ioviter_first ?s 2 ?d 1 = Inr (2, Some (0, 1), ?i1)"
      "spdk_ioviter_next ?i1 = Inr (2, Some (2, 3), ?i2)" "spdk_ioviter_next ?i2 = Inr (0, None, ?i2)"
    by code_simp+
  then have "spdk_iovmove ?s 2 ?d 1 mem = Some (Inr (memmove 3 2 2 (memmove 1 0 2 mem), 4))"
    by (simp only: spdk_iovmove_def)
       (subst iovcpy_loop.simps, simp, subst iovcpy_loop.simps, simp, subst iovcpy_loop.simps, simp)
  then show ?thesis by (simp add: memmove_def)
qed

end
