(* ===== verification/Bdev_Range_Lock.thy ===== *)
theory Bdev_Range_Lock
  imports Bdev_Core
begin

text \<open>
  The LBA range locks of the block device layer (\<^verbatim>\<open>lib/bdev/bdev.c\<close>), which serialise
  compare-and-write and quiesce a device. A lock is put on every channel of the device by a
  walk over the threads that have one (\<^verbatim>\<open>spdk_for_each_channel\<close> in \<^verbatim>\<open>lib/thread/thread.c\<close>);
  on each channel it waits until the conflicting I/O has completed, while new conflicting I/O is
  queued. The walk is a sequence of messages, so the walks of several locks and unlocks, I/O and
  the creation of channels interleave. \<open>Bdev_Range_Inv\<close> and \<open>Bdev_Range_Props\<close> hold the proofs.
\<close>

section \<open>Data\<close>

datatype io_type =
    IO_INVALID | IO_READ | IO_WRITE | IO_UNMAP | IO_FLUSH | IO_RESET | IO_NVME_ADMIN | IO_NVME_IO
  | IO_NVME_IO_MD | IO_WRITE_ZEROES | IO_ZCOPY | IO_GET_ZONE_INFO | IO_ZONE_MANAGEMENT
  | IO_ZONE_APPEND | IO_COMPARE | IO_COMPARE_AND_WRITE | IO_ABORT | IO_SEEK_HOLE | IO_SEEK_DATA
  | IO_COPY | IO_NVME_IOV_MD | IO_NVME_NSSR | IO_WRITE_UNCORRECTABLE

text \<open>A device has at most one channel on a thread; the channel is named by its thread.\<close>

type_synonym thread_id = nat

record lba_range =
  lr_offset :: u64
  lr_length :: u64
  lr_quiesce :: bool
  lr_locked_ctx :: nat
  lr_owner_thread :: thread_id
  lr_owner_ch :: "thread_id option"

record spdk_bdev_io =
  io_kind :: io_type
  io_offset_blocks :: u64
  io_num_blocks :: u64
  io_caller_ctx :: nat
  io_child :: bool

record spdk_bdev_channel =
  ch_locked_ranges :: "lba_range list"
  ch_io_submitted :: "spdk_bdev_io list"
  ch_io_locked :: "spdk_bdev_io list"
  ch_queue_depth :: u16

text \<open>The context of a lock. \<open>cx_owner_range\<close> tells whether the copy of the range on the owner's
  channel is known; \<open>cx_current_range\<close> is the copy the walk has just made.\<close>

record locked_lba_range_ctx =
  cx_range :: lba_range
  cx_current_range :: lba_range
  cx_owner_range :: bool
  cx_ch_ref :: "thread_id option"

text \<open>What a context waits for: the message that starts its walk, the message of a walk to a
  thread, the poller that waits for I/O on a channel, or the message that completes a walk.\<close>

datatype channel_fn = LockGetChannel | UnlockGetChannel

datatype walk_cpl = LockCb | UnlockCb | ErrorCleanupCb

datatype task =
    LockMsg
  | CallChannel channel_fn walk_cpl thread_id
  | CheckIo thread_id
  | CallCompletion walk_cpl "errno option"

text \<open>Contexts are named by their addresses; a freed one is absent from \<open>bdev_ctx\<close>. The thread list
  of the device is kept in ascending order, as the tree of the thread library gives it.\<close>

datatype bdev_status = STATUS_INVALID | STATUS_READY | STATUS_UNREGISTERING | STATUS_REMOVING

record bdev_state =
  locked_ranges :: "nat list"
  pending_locked_ranges :: "nat list"
  quiesced_ranges :: "nat list"
  bdev_ctx :: "nat \<Rightarrow> locked_lba_range_ctx option"
  bdev_task :: "nat \<Rightarrow> task option"
  dev_threads :: "thread_id list"
  bdev_ch :: "thread_id \<Rightarrow> spdk_bdev_channel option"
  dev_blockcnt :: u64
  dev_module :: nat
  dev_status :: bdev_status
  dev_open_descs :: bool
  unregister_msgs :: nat

text \<open>A newly registered device has no locks and no channels.\<close>

definition fresh_bdev :: "u64 \<Rightarrow> bdev_state" where
  "fresh_bdev n = \<lparr>locked_ranges = [], pending_locked_ranges = [], quiesced_ranges = [], bdev_ctx = Map.empty,
     bdev_task = Map.empty, dev_threads = [], bdev_ch = Map.empty, dev_blockcnt = n, dev_module = 0, dev_status = STATUS_READY,
     dev_open_descs = False, unregister_msgs = 0\<rparr>"

definition ctx_of :: "bdev_state \<Rightarrow> nat \<Rightarrow> locked_lba_range_ctx res" where
  "ctx_of s c = (case bdev_ctx s c of None \<Rightarrow> Inl Undefined | Some x \<Rightarrow> Inr x)"

section \<open>Submission of I/O\<close>

definition bdev_lba_range_overlapped :: "lba_range \<Rightarrow> lba_range \<Rightarrow> bool" where
  "bdev_lba_range_overlapped range1 range2 =
     (if lr_length range1 = 0 \<or> lr_length range2 = 0 then False
      else if lr_offset range1 + lr_length range1 \<le> lr_offset range2 then False
      else if lr_offset range2 + lr_length range2 \<le> lr_offset range1 then False
      else True)"

definition io_range :: "spdk_bdev_io \<Rightarrow> lba_range" where
  "io_range io = \<lparr>lr_offset = io_offset_blocks io, lr_length = io_num_blocks io, lr_quiesce = False,
     lr_locked_ctx = 0, lr_owner_thread = 0, lr_owner_ch = None\<rparr>"

definition bdev_io_range_is_locked :: "thread_id \<Rightarrow> spdk_bdev_io \<Rightarrow> lba_range \<Rightarrow> bool" where
  "bdev_io_range_is_locked ch io rng =
     (let overlaps =
        (if \<not> bdev_lba_range_overlapped rng (io_range io) then False
         else if lr_owner_ch rng = Some ch \<and> lr_locked_ctx rng = io_caller_ctx io then False
         else True) in
      case io_kind io of
        IO_NVME_IO \<Rightarrow> True
      | IO_NVME_IO_MD \<Rightarrow> True
      | IO_READ \<Rightarrow> if \<not> lr_quiesce rng then False else overlaps
      | IO_WRITE \<Rightarrow> overlaps
      | IO_WRITE_UNCORRECTABLE \<Rightarrow> overlaps
      | IO_UNMAP \<Rightarrow> overlaps
      | IO_WRITE_ZEROES \<Rightarrow> overlaps
      | IO_ZCOPY \<Rightarrow> overlaps
      | IO_COPY \<Rightarrow> overlaps
      | _ \<Rightarrow> False)"

definition bdev_ch_add_to_io_submitted :: "spdk_bdev_io \<Rightarrow> spdk_bdev_channel \<Rightarrow> spdk_bdev_channel" where
  "bdev_ch_add_to_io_submitted io ch =
     ch\<lparr>ch_io_submitted := ch_io_submitted ch @ [io], ch_queue_depth := ch_queue_depth ch + 1\<rparr>"

definition bdev_ch_remove_from_io_submitted :: "spdk_bdev_io \<Rightarrow> spdk_bdev_channel \<Rightarrow> spdk_bdev_channel" where
  "bdev_ch_remove_from_io_submitted io ch =
     ch\<lparr>ch_io_submitted := remove1 io (ch_io_submitted ch), ch_queue_depth := ch_queue_depth ch - 1\<rparr>"

text \<open>The check against the locked ranges; the rest of the submission, to the module of the
  device, does not touch the locks.\<close>

definition bdev_io_submit :: "thread_id \<Rightarrow> spdk_bdev_io \<Rightarrow> spdk_bdev_channel \<Rightarrow> spdk_bdev_channel" where
  "bdev_io_submit t io ch =
     (if \<not> io_child io \<and> list_ex (bdev_io_range_is_locked t io) (ch_locked_ranges ch)
      then ch\<lparr>ch_io_locked := ch_io_locked ch @ [io]\<rparr>
      else bdev_ch_add_to_io_submitted io ch)"

section \<open>Walks over the channels\<close>

text \<open>The device stays registered while a walk is under way, and the iterator of a walk can be
  allocated; the counters that delay the unregistration of a device are left out.\<close>

definition set_task :: "nat \<Rightarrow> task \<Rightarrow> bdev_state \<Rightarrow> bdev_state" where
  "set_task c tk s = s\<lparr>bdev_task := (bdev_task s)(c \<mapsto> tk)\<rparr>"

definition spdk_for_each_channel :: "channel_fn \<Rightarrow> walk_cpl \<Rightarrow> nat \<Rightarrow> bdev_state \<Rightarrow> bdev_state" where
  "spdk_for_each_channel fn cpl c s =
     (case dev_threads s of
        [] \<Rightarrow> set_task c (CallCompletion cpl None) s
      | t # _ \<Rightarrow> set_task c (CallChannel fn cpl t) s)"

definition io_dev_get_next_thread :: "thread_id list \<Rightarrow> thread_id \<Rightarrow> thread_id option" where
  "io_dev_get_next_thread ts cur = List.find (\<lambda>t. cur + 1 \<le> t) ts"

definition spdk_for_each_channel_continue ::
  "channel_fn \<Rightarrow> walk_cpl \<Rightarrow> thread_id \<Rightarrow> errno option \<Rightarrow> nat \<Rightarrow> bdev_state \<Rightarrow> bdev_state" where
  "spdk_for_each_channel_continue fn cpl cur status c s =
     (if status \<noteq> None then set_task c (CallCompletion cpl status) s
      else case io_dev_get_next_thread (dev_threads s) cur of
             Some t \<Rightarrow> set_task c (CallChannel fn cpl t) s
           | None \<Rightarrow> set_task c (CallCompletion cpl None) s)"

section \<open>Locking\<close>

definition same_key :: "lba_range \<Rightarrow> lba_range \<Rightarrow> bool" where
  "same_key r r' \<longleftrightarrow> lr_length r = lr_length r' \<and> lr_offset r = lr_offset r'
     \<and> lr_locked_ctx r = lr_locked_ctx r'"

text \<open>The reference to the channel is taken on the channel's own thread while the channel exists, which
  gives the same channel: the assertion that it is not NULL holds.\<close>

definition bdev_lock_lba_range_check_io ::
  "nat \<Rightarrow> thread_id \<Rightarrow> locked_lba_range_ctx \<Rightarrow> spdk_bdev_channel \<Rightarrow> bdev_state \<Rightarrow> bdev_state" where
  "bdev_lock_lba_range_check_io c t x ch s =
     (if list_ex (\<lambda>io. bdev_io_range_is_locked t io (cx_current_range x)) (ch_io_submitted ch)
      then set_task c (CheckIo t) (s\<lparr>bdev_ctx := (bdev_ctx s)(c \<mapsto> x\<lparr>cx_ch_ref := Some t\<rparr>)\<rparr>)
      else spdk_for_each_channel_continue LockGetChannel LockCb t None c
             (s\<lparr>bdev_ctx := (bdev_ctx s)(c \<mapsto> x\<lparr>cx_ch_ref := None\<rparr>)\<rparr>))"

definition bdev_lock_lba_range_get_channel ::
  "bool \<Rightarrow> nat \<Rightarrow> thread_id \<Rightarrow> locked_lba_range_ctx \<Rightarrow> spdk_bdev_channel \<Rightarrow> bdev_state \<Rightarrow> bdev_state" where
  "bdev_lock_lba_range_get_channel calloc_ok c t x ch s =
     (if list_ex (\<lambda>rng. same_key rng (cx_range x)) (ch_locked_ranges ch)
      then spdk_for_each_channel_continue LockGetChannel LockCb t None c s
      else if \<not> calloc_ok
      then spdk_for_each_channel_continue LockGetChannel LockCb t (Some ENOMEM) c s
      else
        let rng = \<lparr>lr_offset = lr_offset (cx_range x), lr_length = lr_length (cx_range x),
              lr_quiesce = lr_quiesce (cx_range x), lr_locked_ctx = lr_locked_ctx (cx_range x),
              lr_owner_thread = 0, lr_owner_ch = None\<rparr>;
            x' = x\<lparr>cx_current_range := rng,
                   cx_owner_range := (if lr_owner_ch (cx_range x) = Some t then True else cx_owner_range x)\<rparr>;
            ch' = ch\<lparr>ch_locked_ranges := ch_locked_ranges ch @ [rng]\<rparr>
        in bdev_lock_lba_range_check_io c t x' ch'
             (s\<lparr>bdev_ch := (bdev_ch s)(t \<mapsto> ch'), bdev_ctx := (bdev_ctx s)(c \<mapsto> x')\<rparr>))"

definition bdev_lock_lba_range_ctx :: "thread_id \<Rightarrow> nat \<Rightarrow> bdev_state \<Rightarrow> bdev_state res" where
  "bdev_lock_lba_range_ctx th c s =
     res_bind (ctx_of s c) (\<lambda>x.
       c_assert (th = lr_owner_thread (cx_range x))
       (c_assert (lr_owner_ch (cx_range x) = None \<or> lr_owner_ch (cx_range x) = Some (lr_owner_thread (cx_range x)))
         (Inr (spdk_for_each_channel LockGetChannel LockCb c s))))"

fun bdev_lba_range_overlaps_tailq :: "bdev_state \<Rightarrow> lba_range \<Rightarrow> nat list \<Rightarrow> bool res" where
  "bdev_lba_range_overlaps_tailq s rng [] = Inr False"
| "bdev_lba_range_overlaps_tailq s rng (c # tailq) =
     res_bind (ctx_of s c) (\<lambda>x.
       if bdev_lba_range_overlapped rng (cx_range x) then Inr True
       else bdev_lba_range_overlaps_tailq s rng tailq)"

text \<open>The context is allocated at address \<open>c\<close>; \<open>th\<close> is the calling thread.\<close>

definition bdev_lock_lba_range_internal ::
  "bool \<Rightarrow> nat \<Rightarrow> thread_id \<Rightarrow> thread_id option \<Rightarrow> u64 \<Rightarrow> u64 \<Rightarrow> bool \<Rightarrow> nat \<Rightarrow> bdev_state \<Rightarrow> bdev_state res" where
  "bdev_lock_lba_range_internal calloc_ok c th ch offset len quiesce cb_arg s =
     (if \<not> calloc_ok then Inl (Errno ENOMEM)
      else
        let rng = \<lparr>lr_offset = offset, lr_length = len, lr_quiesce = quiesce, lr_locked_ctx = cb_arg,
              lr_owner_thread = th, lr_owner_ch = ch\<rparr>;
            s1 = s\<lparr>bdev_ctx := (bdev_ctx s)(c \<mapsto> \<lparr>cx_range = rng, cx_current_range = rng,
                     cx_owner_range = False, cx_ch_ref = None\<rparr>)\<rparr>
        in res_bind (bdev_lba_range_overlaps_tailq s1 rng (locked_ranges s1)) (\<lambda>overlaps.
             if overlaps
             then Inr (s1\<lparr>pending_locked_ranges := pending_locked_ranges s1 @ [c]\<rparr>)
             else bdev_lock_lba_range_ctx th c (s1\<lparr>locked_ranges := locked_ranges s1 @ [c]\<rparr>)))"

definition bdev_lock_lba_range ::
  "bool \<Rightarrow> nat \<Rightarrow> thread_id \<Rightarrow> u64 \<Rightarrow> u64 \<Rightarrow> nat \<Rightarrow> bdev_state \<Rightarrow> bdev_state res" where
  "bdev_lock_lba_range calloc_ok c ch offset len cb_arg s =
     (if cb_arg = 0 then Inl (Errno EINVAL)
      else bdev_lock_lba_range_internal calloc_ok c ch (Some ch) offset len False cb_arg s)"

section \<open>Unlocking\<close>

fun resubmit_locked :: "thread_id \<Rightarrow> spdk_bdev_io list \<Rightarrow> spdk_bdev_channel \<Rightarrow> spdk_bdev_channel" where
  "resubmit_locked t [] ch = ch"
| "resubmit_locked t (io # ios) ch = resubmit_locked t ios (bdev_io_submit t io ch)"

definition bdev_unlock_lba_range_get_channel ::
  "walk_cpl \<Rightarrow> nat \<Rightarrow> thread_id \<Rightarrow> locked_lba_range_ctx \<Rightarrow> spdk_bdev_channel \<Rightarrow> bdev_state \<Rightarrow> bdev_state" where
  "bdev_unlock_lba_range_get_channel cpl c t x ch s =
     (let ranges = (case List.extract (\<lambda>rng. same_key (cx_range x) rng) (ch_locked_ranges ch) of
                      None \<Rightarrow> ch_locked_ranges ch
                    | Some (before, _, after) \<Rightarrow> before @ after);
          ch' = resubmit_locked t (ch_io_locked ch) (ch\<lparr>ch_locked_ranges := ranges, ch_io_locked := []\<rparr>)
      in spdk_for_each_channel_continue UnlockGetChannel cpl t None c
           (s\<lparr>bdev_ch := (bdev_ch s)(t \<mapsto> ch')\<rparr>))"

fun find_locked :: "bdev_state \<Rightarrow> u64 \<Rightarrow> u64 \<Rightarrow> nat \<Rightarrow> nat list \<Rightarrow> nat option res" where
  "find_locked s offset len cb_arg [] = Inr None"
| "find_locked s offset len cb_arg (c # cs) =
     res_bind (ctx_of s c) (\<lambda>x.
       if lr_offset (cx_range x) = offset \<and> lr_length (cx_range x) = len \<and>
          (lr_owner_ch (cx_range x) = None \<or> lr_locked_ctx (cx_range x) = cb_arg)
       then Inr (Some c) else find_locked s offset len cb_arg cs)"

definition bdev_unlock_lba_range_internal :: "u64 \<Rightarrow> u64 \<Rightarrow> nat \<Rightarrow> bdev_state \<Rightarrow> bdev_state res" where
  "bdev_unlock_lba_range_internal offset len cb_arg s =
     res_bind (find_locked s offset len cb_arg (locked_ranges s)) (\<lambda>rng.
       case rng of
         None \<Rightarrow> Inl AssertFail
       | Some c \<Rightarrow> Inr (spdk_for_each_channel UnlockGetChannel UnlockCb c
                         (s\<lparr>locked_ranges := remove1 c (locked_ranges s)\<rparr>)))"

definition bdev_unlock_lba_range :: "thread_id \<Rightarrow> u64 \<Rightarrow> u64 \<Rightarrow> nat \<Rightarrow> bdev_state \<Rightarrow> bdev_state res" where
  "bdev_unlock_lba_range t offset len cb_arg s =
     (case bdev_ch s t of
        None \<Rightarrow> Inl Undefined
      | Some ch \<Rightarrow>
          if list_ex (\<lambda>rng. lr_offset rng = offset \<and> lr_length rng = len \<and>
               lr_owner_ch rng = Some t \<and> lr_locked_ctx rng = cb_arg) (ch_locked_ranges ch)
          then bdev_unlock_lba_range_internal offset len cb_arg s
          else Inl (Errno EINVAL))"

fun lock_pending :: "lba_range \<Rightarrow> nat list \<Rightarrow> bdev_state \<Rightarrow> bdev_state res" where
  "lock_pending unlocked [] s = Inr s"
| "lock_pending unlocked (c # cs) s =
     res_bind (ctx_of s c) (\<lambda>x.
       if bdev_lba_range_overlapped (cx_range x) unlocked then
         res_bind (bdev_lba_range_overlaps_tailq s (cx_range x) (locked_ranges s)) (\<lambda>overlaps.
           if \<not> overlaps
           then lock_pending unlocked cs (set_task c LockMsg
                  (s\<lparr>pending_locked_ranges := remove1 c (pending_locked_ranges s),
                     locked_ranges := locked_ranges s @ [c]\<rparr>))
           else lock_pending unlocked cs s)
       else lock_pending unlocked cs s)"

text \<open>The end of a walk: its task and, for an unlock or a failed lock, the context are gone.\<close>

definition end_task :: "nat \<Rightarrow> bdev_state \<Rightarrow> bdev_state" where
  "end_task c s = s\<lparr>bdev_task := (bdev_task s)(c := None)\<rparr>"

definition free_ctx :: "nat \<Rightarrow> bdev_state \<Rightarrow> bdev_state" where
  "free_ctx c s = s\<lparr>bdev_ctx := (bdev_ctx s)(c := None)\<rparr>"

definition bdev_unlock_lba_range_cb :: "nat \<Rightarrow> locked_lba_range_ctx \<Rightarrow> bdev_state \<Rightarrow> bdev_state res" where
  "bdev_unlock_lba_range_cb c x s =
     res_bind (lock_pending (cx_range x) (pending_locked_ranges s) s) (\<lambda>s1.
       let s2 = (if dev_status s1 = STATUS_UNREGISTERING \<and> locked_ranges s1 = []
                 then s1\<lparr>unregister_msgs := unregister_msgs s1 + 1\<rparr> else s1)
       in Inr (free_ctx c (end_task c s2)))"

section \<open>Completion of a lock\<close>

definition set_owner_ch :: "locked_lba_range_ctx \<Rightarrow> spdk_bdev_channel \<Rightarrow> spdk_bdev_channel" where
  "set_owner_ch x ch = ch\<lparr>ch_locked_ranges :=
     map (\<lambda>r. if same_key r (cx_range x) then r\<lparr>lr_owner_ch := lr_owner_ch (cx_range x)\<rparr> else r)
       (ch_locked_ranges ch)\<rparr>"

definition bdev_lock_error_cleanup_cb :: "nat \<Rightarrow> bdev_state \<Rightarrow> bdev_state" where
  "bdev_lock_error_cleanup_cb c s = free_ctx c (end_task c s)"

text \<open>The quiesce callback, on success; other callbacks belong to the caller.\<close>

definition bdev_quiesce_range_locked :: "nat \<Rightarrow> bdev_state \<Rightarrow> bdev_state" where
  "bdev_quiesce_range_locked c s = s\<lparr>quiesced_ranges := quiesced_ranges s @ [c]\<rparr>"

definition bdev_lock_lba_range_cb ::
  "nat \<Rightarrow> locked_lba_range_ctx \<Rightarrow> errno option \<Rightarrow> bdev_state \<Rightarrow> bdev_state res" where
  "bdev_lock_lba_range_cb c x status s =
     (if status = Some ENOMEM
      then Inr (spdk_for_each_channel UnlockGetChannel ErrorCleanupCb c s)
      else
        let s1 = end_task c s in
        res_bind
          (case lr_owner_ch (cx_range x) of
             Some t \<Rightarrow>
               if cx_owner_range x
               then (case bdev_ch s1 t of
                       None \<Rightarrow> Inl Undefined
                     | Some ch \<Rightarrow> Inr (s1\<lparr>bdev_ch := (bdev_ch s1)(t \<mapsto> set_owner_ch x ch)\<rparr>))
               else Inr s1
           | None \<Rightarrow> Inr s1)
          (\<lambda>s2. Inr (if lr_quiesce (cx_range x) then bdev_quiesce_range_locked c s2 else s2)))"

section \<open>The next message or poller of a context\<close>

definition call_channel :: "bool \<Rightarrow> nat \<Rightarrow> channel_fn \<Rightarrow> walk_cpl \<Rightarrow> thread_id \<Rightarrow> bdev_state \<Rightarrow> bdev_state res" where
  "call_channel calloc_ok c fn cpl t s =
     (case bdev_ch s t of
        None \<Rightarrow> Inr (spdk_for_each_channel_continue fn cpl t None c s)
      | Some ch \<Rightarrow> res_bind (ctx_of s c) (\<lambda>x. Inr
          (case fn of
             LockGetChannel \<Rightarrow> bdev_lock_lba_range_get_channel calloc_ok c t x ch s
           | UnlockGetChannel \<Rightarrow> bdev_unlock_lba_range_get_channel cpl c t x ch s)))"

definition call_completion :: "nat \<Rightarrow> walk_cpl \<Rightarrow> errno option \<Rightarrow> bdev_state \<Rightarrow> bdev_state res" where
  "call_completion c cpl status s =
     res_bind (ctx_of s c) (\<lambda>x.
       case cpl of
         LockCb \<Rightarrow> bdev_lock_lba_range_cb c x status s
       | UnlockCb \<Rightarrow> bdev_unlock_lba_range_cb c x s
       | ErrorCleanupCb \<Rightarrow> Inr (bdev_lock_error_cleanup_cb c s))"

definition run_task :: "bool \<Rightarrow> nat \<Rightarrow> task \<Rightarrow> bdev_state \<Rightarrow> bdev_state res" where
  "run_task calloc_ok c tk s =
     (case tk of
        LockMsg \<Rightarrow> res_bind (ctx_of s c) (\<lambda>x.
          bdev_lock_lba_range_ctx (lr_owner_thread (cx_range x)) c s)
      | CallChannel fn cpl t \<Rightarrow> call_channel calloc_ok c fn cpl t s
      | CheckIo t \<Rightarrow> res_bind (ctx_of s c) (\<lambda>x.
          case bdev_ch s t of
            None \<Rightarrow> Inl Undefined
          | Some ch \<Rightarrow> Inr (bdev_lock_lba_range_check_io c t x ch s))
      | CallCompletion cpl status \<Rightarrow> call_completion c cpl status s)"

section \<open>Quiescing\<close>

fun find_quiesced :: "bdev_state \<Rightarrow> u64 \<Rightarrow> u64 \<Rightarrow> nat list \<Rightarrow> (nat \<times> locked_lba_range_ctx) option res" where
  "find_quiesced s offset len [] = Inr None"
| "find_quiesced s offset len (c # cs) =
     res_bind (ctx_of s c) (\<lambda>x.
       if lr_offset (cx_range x) = offset \<and> lr_length (cx_range x) = len then Inr (Some (c, x))
       else find_quiesced s offset len cs)"

text \<open>\<open>quiesce_ctx\<close> is the context allocated for the request, \<open>mdl\<close> the calling module.\<close>

definition bdev_quiesce ::
  "bool \<Rightarrow> nat \<Rightarrow> nat \<Rightarrow> thread_id \<Rightarrow> u64 \<Rightarrow> u64 \<Rightarrow> nat \<Rightarrow> bool \<Rightarrow> bdev_state \<Rightarrow> bdev_state res" where
  "bdev_quiesce calloc_ok mdl c th offset len quiesce_ctx unquiesce s =
     (if mdl \<noteq> dev_module s then Inl (Errno EINVAL)
      else if \<not> bdev_io_valid_blocks (dev_blockcnt s) offset len then Inl (Errno EINVAL)
      else if dev_status s = STATUS_REMOVING \<and> \<not> dev_open_descs s then Inl (Errno ENODEV)
      else if unquiesce then
        res_bind (find_quiesced s offset len (quiesced_ranges s)) (\<lambda>rng.
          case rng of
            None \<Rightarrow> Inl (Errno EINVAL)
          | Some (q, x) \<Rightarrow> bdev_unlock_lba_range_internal offset len (lr_locked_ctx (cx_range x))
              (s\<lparr>quiesced_ranges := remove1 q (quiesced_ranges s)\<rparr>))
      else bdev_lock_lba_range_internal calloc_ok c th None offset len True quiesce_ctx s)"

definition spdk_bdev_quiesce_range ::
  "bool \<Rightarrow> nat \<Rightarrow> nat \<Rightarrow> thread_id \<Rightarrow> u64 \<Rightarrow> u64 \<Rightarrow> nat \<Rightarrow> bdev_state \<Rightarrow> bdev_state res" where
  "spdk_bdev_quiesce_range calloc_ok mdl c th offset len quiesce_ctx s =
     bdev_quiesce calloc_ok mdl c th offset len quiesce_ctx False s"

definition spdk_bdev_unquiesce_range :: "nat \<Rightarrow> u64 \<Rightarrow> u64 \<Rightarrow> bdev_state \<Rightarrow> bdev_state res" where
  "spdk_bdev_unquiesce_range mdl offset len s = bdev_quiesce True mdl 0 0 offset len 0 True s"

definition spdk_bdev_quiesce :: "bool \<Rightarrow> nat \<Rightarrow> nat \<Rightarrow> thread_id \<Rightarrow> nat \<Rightarrow> bdev_state \<Rightarrow> bdev_state res" where
  "spdk_bdev_quiesce calloc_ok mdl c th quiesce_ctx s =
     bdev_quiesce calloc_ok mdl c th 0 (dev_blockcnt s) quiesce_ctx False s"

definition spdk_bdev_unquiesce :: "nat \<Rightarrow> bdev_state \<Rightarrow> bdev_state res" where
  "spdk_bdev_unquiesce mdl s = bdev_quiesce True mdl 0 0 0 (dev_blockcnt s) 0 True s"

section \<open>Channels\<close>

text \<open>A new channel takes over the ranges in the device's list; when a copy cannot be allocated the
  channel is not created and the callback returns -1.\<close>

fun inherit_ranges :: "bool \<Rightarrow> bdev_state \<Rightarrow> nat list \<Rightarrow> lba_range list res" where
  "inherit_ranges calloc_ok s [] = Inr []"
| "inherit_ranges calloc_ok s (c # cs) =
     (if \<not> calloc_ok then Inl (Errno EPERM)
      else res_bind (ctx_of s c) (\<lambda>x.
        res_bind (inherit_ranges calloc_ok s cs) (\<lambda>rs.
          Inr (\<lparr>lr_offset = lr_offset (cx_range x), lr_length = lr_length (cx_range x),
                lr_quiesce = False, lr_locked_ctx = lr_locked_ctx (cx_range x),
                lr_owner_thread = 0, lr_owner_ch = None\<rparr> # rs))))"

definition bdev_channel_create :: "bool \<Rightarrow> thread_id \<Rightarrow> bdev_state \<Rightarrow> bdev_state res" where
  "bdev_channel_create calloc_ok t s =
     res_bind (inherit_ranges calloc_ok s (locked_ranges s)) (\<lambda>rs.
       Inr (s\<lparr>bdev_ch := (bdev_ch s)(t \<mapsto> \<lparr>ch_locked_ranges = rs, ch_io_submitted = [],
                ch_io_locked = [], ch_queue_depth = 0\<rparr>),
              dev_threads := insort t (dev_threads s)\<rparr>))"

definition bdev_channel_destroy_resource :: "thread_id \<Rightarrow> bdev_state \<Rightarrow> bdev_state res" where
  "bdev_channel_destroy_resource t s =
     (case bdev_ch s t of
        None \<Rightarrow> Inl Undefined
      | Some ch \<Rightarrow>
          c_assert (ch_io_locked ch = [])
          (c_assert (ch_io_submitted ch = [])
            (Inr (s\<lparr>bdev_ch := (bdev_ch s)(t := None), dev_threads := remove1 t (dev_threads s)\<rparr>))))"

end
