(* ===== verification/Bdev_Split.thy ===== *)
theory Bdev_Split
  imports Iov Bdev_Range_Lock
begin

text \<open>
  Splitting of an I/O that exceeds the limits of its device into child I/Os
  (\<^verbatim>\<open>lib/bdev/bdev.c\<close>): the decision to split, the rounds in which children are submitted, the
  completion of a child, and the completion of the parent. \<open>Bdev_Split_Rw\<close> holds the proofs about
  the scatter-gather lists of the children, \<open>Bdev_Split_Props\<close> those about runs.

  A child completes after the call that submitted it has returned
  (\<^verbatim>\<open>bdev_io_complete\<close> defers completions that occur during submission). The pool of I/O objects
  is shared with every other I/O, so its state at each submission is an argument.
\<close>

section \<open>Data\<close>

datatype io_status =
    STATUS_AIO_ERROR | STATUS_ABORTED | STATUS_FIRST_FUSED_FAILED | STATUS_MISCOMPARE | STATUS_NOMEM
  | STATUS_SCSI_ERROR | STATUS_NVME_ERROR | STATUS_FAILED | STATUS_PENDING | STATUS_SUCCESS

datatype dif_pi_format = PI_FORMAT_16 | PI_FORMAT_32 | PI_FORMAT_64

text \<open>The device: \<open>bd_supported\<close> and \<open>bd_accel_sequence_supported\<close> are answers of its module.\<close>

record split_bdev =
  bd_blockcnt :: u64
  bd_blocklen :: u32
  bd_md_len :: u32
  bd_dif_pi_format :: dif_pi_format
  bd_split_on_write_unit :: bool
  bd_split_on_optimal_io_boundary :: bool
  bd_write_unit_size :: u32
  bd_optimal_io_boundary :: u32
  bd_max_segment_size :: u32
  bd_max_num_segments :: u32
  bd_max_unmap :: u32
  bd_max_unmap_segments :: u32
  bd_max_write_zeroes :: u32
  bd_max_copy :: u32
  bd_max_rw_size :: u32
  bd_supported :: "io_type \<Rightarrow> bool"
  bd_accel_sequence_supported :: "io_type \<Rightarrow> bool"

text \<open>A child: its range, its source (for a copy), its list as a slice of the parent's array
  \<open>child_iov\<close>, the elements of that slice when it was submitted, and its metadata buffer.\<close>

record split_child =
  c_offset_blocks :: u64
  c_num_blocks :: u64
  c_src_offset_blocks :: u64
  c_iov :: nat
  c_iovcnt :: nat
  c_iovs :: "iovec list"
  c_md_buf :: u64

text \<open>What completes the parent once its children have succeeded.\<close>

datatype finish = ExecSequence | PushBounce

text \<open>
  The parent I/O: the request with the options of its descriptor, the fields the splitting uses,
  and where the parent is: on the list of submitted I/O of its channel, on the queue of I/O that
  waits for I/O objects, waiting for a data buffer, in a data transfer after its last child; and
  the calls of its callback. \<open>sp_accel_sequence\<close> tells whether \<^verbatim>\<open>u.bdev.accel_sequence\<close> is set,
  the sequence as the module would get it, \<open>sp_cb_is_split_done\<close> whether the I/O is itself the child
  of another. \<open>sp_children\<close> are all children submitted, in order, with their status.
\<close>

record split_io =
  sp_type :: io_type
  sp_offset_blocks :: u64
  sp_num_blocks :: u64
  sp_iovs :: "iovec list"
  sp_md_buf :: u64
  sp_src_offset_blocks :: u64
  sp_pract :: bool
  sp_hide_metadata :: bool
  sp_desc_write :: bool
  sp_split :: bool
  sp_accel_sequence :: bool
  sp_has_accel_sequence :: bool
  sp_cb_is_split_done :: bool
  sp_has_bounce_buf :: bool
  sp_current_offset_blocks :: u64
  sp_remaining_num_blocks :: u64
  sp_outstanding :: u32
  sp_status :: io_status
  sp_child_iov :: "iovec list"
  sp_children :: "(split_child \<times> io_status) list"
  sp_submitted :: bool
  sp_waiting :: bool
  sp_getting_buf :: bool
  sp_finishing :: "finish option"
  sp_cb :: "bool list"

abbreviation SPDK_BDEV_IO_NUM_CHILD_IOV :: nat where
  "SPDK_BDEV_IO_NUM_CHILD_IOV \<equiv> 32"

abbreviation SPDK_BDEV_MAX_CHILDREN_UNMAP_WRITE_ZEROES_REQS :: nat where
  "SPDK_BDEV_MAX_CHILDREN_UNMAP_WRITE_ZEROES_REQS \<equiv> 8"

abbreviation SPDK_BDEV_MAX_CHILDREN_COPY_REQS :: nat where
  "SPDK_BDEV_MAX_CHILDREN_COPY_REQS \<equiv> 8"

section \<open>Helpers\<close>

text \<open>The number of leading zeros of a non-zero word.\<close>

definition builtin_clz :: "u32 \<Rightarrow> nat" where
  "builtin_clz x = length (takeWhile (\<lambda>i. \<not> bit x i) (rev [0..<32]))"

definition spdk_u32log2 :: "u32 \<Rightarrow> nat" where
  "spdk_u32log2 x = (if x = 0 then 0 else 31 - builtin_clz x)"

definition spdk_u32_is_pow2 :: "u32 \<Rightarrow> bool" where
  "spdk_u32_is_pow2 x = (if x = 0 then False else x AND (x - 1) = 0)"

definition spdk_divide_round_up :: "u64 \<Rightarrow> u64 \<Rightarrow> u64" where
  "spdk_divide_round_up num divisor = (num + divisor - 1) div divisor"

fun spdk_dif_pi_format_get_size :: "dif_pi_format \<Rightarrow> u32" where
  "spdk_dif_pi_format_get_size PI_FORMAT_16 = 8"
| "spdk_dif_pi_format_get_size PI_FORMAT_32 = 16"
| "spdk_dif_pi_format_get_size PI_FORMAT_64 = 16"

definition bdev_desc_get_block_size :: "split_bdev \<Rightarrow> bool \<Rightarrow> u32" where
  "bdev_desc_get_block_size b hide_metadata =
     (if hide_metadata then bd_blocklen b - bd_md_len b else bd_blocklen b)"

definition bdev_io_get_block_size :: "split_bdev \<Rightarrow> split_io \<Rightarrow> u32" where
  "bdev_io_get_block_size b io =
     (if sp_pract io then
        if bd_md_len b = spdk_dif_pi_format_get_size (bd_dif_pi_format b)
        then bd_blocklen b - bd_md_len b else bd_blocklen b
      else bdev_desc_get_block_size b (sp_hide_metadata io))"

definition is_buf_allocated :: "iovec list \<Rightarrow> bool" where
  "is_buf_allocated iovs = (case iovs of [] \<Rightarrow> False | v # _ \<Rightarrow> iov_base v \<noteq> 0)"

definition bdev_io_accel_sequence_supported :: "split_bdev \<Rightarrow> split_io \<Rightarrow> bool" where
  "bdev_io_accel_sequence_supported b io =
     (bd_accel_sequence_supported b (sp_type io) \<and> \<not> sp_split io)"

definition bdev_io_needs_sequence_exec :: "split_bdev \<Rightarrow> split_io \<Rightarrow> bool" where
  "bdev_io_needs_sequence_exec b io =
     (if \<not> sp_has_accel_sequence io then False else \<not> bdev_io_accel_sequence_supported b io)"

section \<open>The decision to split\<close>

definition bdev_rw_get_io_boundary :: "split_bdev \<Rightarrow> io_type \<Rightarrow> u32" where
  "bdev_rw_get_io_boundary b io_type =
     (if io_type = IO_WRITE \<and> bd_split_on_write_unit b then bd_write_unit_size b
      else if bd_split_on_optimal_io_boundary b then bd_optimal_io_boundary b
      else 0)"

definition crosses_boundary :: "u32 \<Rightarrow> u64 \<Rightarrow> u64 \<Rightarrow> bool" where
  "crosses_boundary io_boundary offset_blocks num_blocks =
     (let start_stripe = offset_blocks;
          end_stripe = start_stripe + num_blocks - 1 in
      if spdk_u32_is_pow2 io_boundary
      then drop_bit (spdk_u32log2 io_boundary) start_stripe
             \<noteq> drop_bit (spdk_u32log2 io_boundary) end_stripe
      else start_stripe div ucast io_boundary \<noteq> end_stripe div ucast io_boundary)"

definition bdev_rw_should_split :: "split_bdev \<Rightarrow> split_io \<Rightarrow> bool" where
  "bdev_rw_should_split b io =
     (let max_segment_size = bd_max_segment_size b;
          max_size = bd_max_rw_size b;
          max_segs = sint (bd_max_num_segments b);
          io_boundary = bdev_rw_get_io_boundary b (sp_type io) in
      if io_boundary = 0 \<and> max_segs = 0 \<and> max_segment_size = 0 \<and> max_size = 0 then False
      else if io_boundary \<noteq> 0 \<and> crosses_boundary io_boundary (sp_offset_blocks io) (sp_num_blocks io)
      then True
      else if max_segs \<noteq> 0 \<and> max_segs < int (length (sp_iovs io)) then True
      else if max_segment_size \<noteq> 0 \<and>
        list_ex (\<lambda>v. ucast max_segment_size < iov_len v) (sp_iovs io) then True
      else if max_size \<noteq> 0 \<and> ucast max_size < sp_num_blocks io then True
      else False)"

definition bdev_unmap_should_split :: "split_bdev \<Rightarrow> split_io \<Rightarrow> bool" where
  "bdev_unmap_should_split b io =
     (if bd_max_unmap b = 0 \<or> bd_max_unmap_segments b = 0 then False
      else let num_unmap_segments =
             ucast (spdk_divide_round_up (sp_num_blocks io) (ucast (bd_max_unmap b))) :: u32 in
        if bd_max_unmap_segments b < num_unmap_segments then True else False)"

definition bdev_write_zeroes_should_split :: "split_bdev \<Rightarrow> split_io \<Rightarrow> bool" where
  "bdev_write_zeroes_should_split b io =
     (if bd_max_write_zeroes b = 0 then False
      else if ucast (bd_max_write_zeroes b) < sp_num_blocks io then True else False)"

definition bdev_copy_should_split :: "split_bdev \<Rightarrow> split_io \<Rightarrow> bool" where
  "bdev_copy_should_split b io =
     (if bd_max_copy b \<noteq> 0 \<and> ucast (bd_max_copy b) < sp_num_blocks io then True else False)"

definition bdev_io_should_split :: "split_bdev \<Rightarrow> split_io \<Rightarrow> bool" where
  "bdev_io_should_split b io =
     (case sp_type io of
        IO_READ \<Rightarrow> bdev_rw_should_split b io
      | IO_WRITE \<Rightarrow> bdev_rw_should_split b io
      | IO_UNMAP \<Rightarrow> bdev_unmap_should_split b io
      | IO_WRITE_ZEROES \<Rightarrow> bdev_write_zeroes_should_split b io
      | IO_COPY \<Rightarrow> bdev_copy_should_split b io
      | _ \<Rightarrow> False)"

section \<open>Submitting a child\<close>

text \<open>The pool of I/O objects as one submission finds it.\<close>

record mgmt_ch =
  per_thread_cache_count :: nat
  io_wait_queue_empty :: bool
  bdev_io_pool_count :: nat

definition bdev_channel_get_io :: "mgmt_ch \<Rightarrow> bool" where
  "bdev_channel_get_io m =
     (if per_thread_cache_count m > 0 then True
      else if \<not> io_wait_queue_empty m then False
      else bdev_io_pool_count m > 0)"

definition spdk_bdev_queue_io_wait :: "mgmt_ch \<Rightarrow> errno option" where
  "spdk_bdev_queue_io_wait m = (if per_thread_cache_count m > 0 then Some EINVAL else None)"

definition bdev_queue_io_wait_with_cb :: "mgmt_ch \<Rightarrow> split_io \<Rightarrow> split_io" where
  "bdev_queue_io_wait_with_cb m io =
     (case spdk_bdev_queue_io_wait m of
        None \<Rightarrow> io\<lparr>sp_waiting := True\<rparr>
      | Some _ \<Rightarrow> io\<lparr>sp_status := STATUS_FAILED, sp_cb := sp_cb io @ [False]\<rparr>)"

text \<open>The checks with which the functions that submit an I/O begin; \<open>None\<close> when the I/O is passed
  on.\<close>

definition readv_blocks_rc :: "split_bdev \<Rightarrow> mgmt_ch \<Rightarrow> u64 \<Rightarrow> u64 \<Rightarrow> errno option" where
  "readv_blocks_rc b m offset num =
     (if \<not> bdev_io_valid_blocks (bd_blockcnt b) offset num then Some EINVAL
      else if \<not> bdev_channel_get_io m then Some ENOMEM else None)"

definition writev_blocks_rc :: "split_bdev \<Rightarrow> mgmt_ch \<Rightarrow> bool \<Rightarrow> u64 \<Rightarrow> u64 \<Rightarrow> errno option" where
  "writev_blocks_rc b m desc_write offset num =
     (if \<not> desc_write then Some EBADF
      else if \<not> bdev_io_valid_blocks (bd_blockcnt b) offset num then Some EINVAL
      else if \<not> bdev_channel_get_io m then Some ENOMEM else None)"

definition unmap_blocks_rc :: "split_bdev \<Rightarrow> mgmt_ch \<Rightarrow> bool \<Rightarrow> u64 \<Rightarrow> u64 \<Rightarrow> errno option" where
  "unmap_blocks_rc b m desc_write offset num =
     (if \<not> desc_write then Some EBADF
      else if \<not> bdev_io_valid_blocks (bd_blockcnt b) offset num then Some EINVAL
      else if \<not> bdev_channel_get_io m then Some ENOMEM else None)"

definition write_zeroes_blocks_rc :: "split_bdev \<Rightarrow> mgmt_ch \<Rightarrow> bool \<Rightarrow> u64 \<Rightarrow> u64 \<Rightarrow> errno option" where
  "write_zeroes_blocks_rc b m desc_write offset num =
     (if \<not> desc_write then Some EBADF
      else if \<not> bdev_io_valid_blocks (bd_blockcnt b) offset num then Some EINVAL
      else if \<not> bd_supported b IO_WRITE_ZEROES \<and> \<not> bd_supported b IO_WRITE then Some ENOTSUP
      else if \<not> bdev_channel_get_io m then Some ENOMEM else None)"

definition copy_blocks_rc :: "split_bdev \<Rightarrow> mgmt_ch \<Rightarrow> bool \<Rightarrow> u64 \<Rightarrow> u64 \<Rightarrow> u64 \<Rightarrow> errno option" where
  "copy_blocks_rc b m desc_write dst src num =
     (if \<not> desc_write then Some EBADF
      else if \<not> bdev_io_valid_blocks (bd_blockcnt b) dst num \<or>
        \<not> bdev_io_valid_blocks (bd_blockcnt b) src num then Some EINVAL
      else if \<not> bdev_channel_get_io m then Some ENOMEM else None)"

definition submit_rc :: "split_bdev \<Rightarrow> mgmt_ch \<Rightarrow> split_io \<Rightarrow> u64 \<Rightarrow> u64 \<Rightarrow> u64 \<Rightarrow> errno option res" where
  "submit_rc b m io offset src num =
     (case sp_type io of
        IO_READ \<Rightarrow> Inr (readv_blocks_rc b m offset num)
      | IO_WRITE \<Rightarrow> Inr (writev_blocks_rc b m (sp_desc_write io) offset num)
      | IO_UNMAP \<Rightarrow> Inr (unmap_blocks_rc b m (sp_desc_write io) offset num)
      | IO_WRITE_ZEROES \<Rightarrow> Inr (write_zeroes_blocks_rc b m (sp_desc_write io) offset num)
      | IO_COPY \<Rightarrow> Inr (copy_blocks_rc b m (sp_desc_write io) offset src num)
      | _ \<Rightarrow> Inl AssertFail)"

text \<open>The parent fails and leaves the list of submitted I/O.\<close>

definition complete_failed :: "split_io \<Rightarrow> split_io" where
  "complete_failed io = io\<lparr>sp_submitted := False, sp_cb := sp_cb io @ [False]\<rparr>"

definition bdev_io_split_submit ::
  "split_bdev \<Rightarrow> mgmt_ch \<Rightarrow> nat \<Rightarrow> nat \<Rightarrow> u64 \<Rightarrow> u64 \<Rightarrow> u64 \<Rightarrow> u64 \<Rightarrow> split_io
     \<Rightarrow> (errno option \<times> u64 \<times> u64 \<times> split_io) res" where
  "bdev_io_split_submit b m iov iovcnt md_buf num_blocks offset remaining io =
     c_assert (sp_split io)
      (let src = sp_src_offset_blocks io + (offset - sp_offset_blocks io);
           io = io\<lparr>sp_outstanding := sp_outstanding io + 1\<rparr> in
       c_assert (sp_type io = IO_READ \<or> sp_type io = IO_WRITE \<longrightarrow> \<not> sp_accel_sequence io)
       (res_bind (submit_rc b m io offset src num_blocks) (\<lambda>rc.
         case rc of
           None \<Rightarrow>
             Inr (None, offset + num_blocks, remaining - num_blocks,
               io\<lparr>sp_current_offset_blocks := offset + num_blocks,
                  sp_remaining_num_blocks := remaining - num_blocks,
                  sp_children := sp_children io @
                    [(\<lparr>c_offset_blocks = offset, c_num_blocks = num_blocks,
                       c_src_offset_blocks = src, c_iov = iov, c_iovcnt = iovcnt,
                       c_iovs = take iovcnt (drop iov (sp_child_iov io)), c_md_buf = md_buf\<rparr>,
                      STATUS_PENDING)]\<rparr>)
         | Some e \<Rightarrow>
             let io = io\<lparr>sp_outstanding := sp_outstanding io - 1\<rparr> in
             Inr (rc, offset, remaining,
               if e = ENOMEM then
                 if sp_outstanding io = 0 then bdev_queue_io_wait_with_cb m io else io
               else
                 let io = io\<lparr>sp_status := STATUS_FAILED\<rparr> in
                 if sp_outstanding io = 0 then complete_failed io else io))))"

section \<open>Rounds: reads and writes\<close>

definition to_next_boundary :: "u64 \<Rightarrow> u32 \<Rightarrow> u32 res" where
  "to_next_boundary offset boundary =
     (if boundary = 0 then Inl Undefined
      else Inr (ucast (ucast boundary - offset mod ucast boundary)))"

text \<open>The loop that finds the element of the parent's list where the round starts.\<close>

fun rw_skip :: "iovec list \<Rightarrow> nat \<Rightarrow> u32 \<Rightarrow> nat \<times> u32" where
  "rw_skip [] pos off = (pos, off)"
| "rw_skip (v # iovs) pos off =
     (if ucast off < iov_len v then (pos, off)
      else rw_skip iovs (pos + 1) (ucast (ucast off - iov_len v)))"

text \<open>The loop that fills the array \<open>child_iov\<close> with pieces of the parent's elements, for one child.\<close>

function rw_fill ::
  "iovec list \<Rightarrow> u32 \<Rightarrow> nat \<Rightarrow> u32 \<Rightarrow> nat \<Rightarrow> u32 \<Rightarrow> nat \<Rightarrow> nat \<Rightarrow> iovec list
     \<Rightarrow> (u32 \<times> nat \<times> u32 \<times> nat \<times> nat \<times> iovec list) res" where
  "rw_fill iovs max_segment_size child_iovsize bytes pos off child_iovcnt iovcnt child_iov =
     (if bytes > 0 \<and> pos < length iovs \<and> iovcnt < child_iovsize then
        if child_iovcnt < length child_iov then
          let parent_iov = iovs ! pos;
              left = iov_len parent_iov - ucast off;
              len = min (min (ucast left) max_segment_size) bytes;
              child_iov' = child_iov[child_iovcnt :=
                \<lparr>iov_base = iov_base parent_iov + ucast off, iov_len = ucast len\<rparr>] in
          if ucast len < left
          then rw_fill iovs max_segment_size child_iovsize (bytes - len) pos (off + len)
                 (child_iovcnt + 1) (iovcnt + 1) child_iov'
          else rw_fill iovs max_segment_size child_iovsize (bytes - len) (pos + 1) 0
                 (child_iovcnt + 1) (iovcnt + 1) child_iov'
        else Inl Undefined
      else Inr (bytes, pos, off, child_iovcnt, iovcnt, child_iov))"
  by pat_completeness auto
termination
  by (relation "measure (\<lambda>(_, _, size, _, _, _, _, n, _). size - n)") auto

definition trim_len :: "u32 \<Rightarrow> u64 \<Rightarrow> u32" where
  "trim_len t l = ucast (min (ucast t) l)"

text \<open>The loop that gives back the bytes beyond the last whole block; the first component of its
  result tells whether nothing is left, in which case the round ends.\<close>

function rw_trim ::
  "iovec list \<Rightarrow> u32 \<Rightarrow> nat \<Rightarrow> nat \<Rightarrow> u32 \<Rightarrow> nat \<Rightarrow> iovec list
     \<Rightarrow> (bool \<times> nat \<times> u32 \<times> nat \<times> iovec list) res" where
  "rw_trim iovs to_last child_iovpos pos off iovcnt child_iov =
     (if to_last > 0 \<and> iovcnt > 0 then
        if child_iovpos < length child_iov then
          let len = trim_len to_last (iov_len (child_iov ! child_iovpos));
              left = iov_len (child_iov ! child_iovpos) - ucast len;
              child_iov' = child_iov[child_iovpos := (child_iov ! child_iovpos)\<lparr>iov_len := left\<rparr>] in
          if left = 0 \<and> iovcnt = 1 then Inr (True, pos, off, 0, child_iov')
          else if left = 0 \<and> child_iovpos = 0 then Inl Undefined
          else if off = 0 \<and> \<not> (0 < pos \<and> pos \<le> length iovs) then Inl Undefined
          else rw_trim iovs (to_last - len)
                 (if left = 0 then child_iovpos - 1 else child_iovpos)
                 (if off = 0 then pos - 1 else pos)
                 ((if off = 0 then ucast (iov_len (iovs ! (pos - 1))) else off) - len)
                 (if left = 0 then iovcnt - 1 else iovcnt) child_iov'
        else Inl Undefined
      else c_assert (to_last = 0) (Inr (False, pos, off, iovcnt, child_iov)))"
  by pat_completeness auto

lemma unat_trim_len: "unat (trim_len t l) = min (unat t) (unat l)"
  unfolding trim_len_def by (subst unat_ucast_u64_u32) (simp_all add: unat_min min.strict_coboundedI1)

lemma unat_trim_left: "unat (l - ucast (trim_len t l)) = unat l - unat t"
  by (subst unat_sub) (simp_all add: unat_trim_len word_le_nat_alt)

lemma trim_progress: "l \<noteq> ucast (trim_len t l) \<Longrightarrow> trim_len t l = t"
  using unat_trim_left [of l t]
  by (simp add: unat_eq_iff [of _ t] unat_trim_len unat_eq_iff [of _ "ucast _"])

termination rw_trim
  by (relation "measures [\<lambda>(_, _, _, _, _, n, _). n, \<lambda>(_, t, _, _, _, _, _). unat t]")
     (auto simp: word_gt_0 unat_pos trim_progress)

declare rw_fill.simps [simp del] rw_trim.simps [simp del]

text \<open>The limits of a child, as \<open>_bdev_rw_split\<close> sets them up.\<close>

definition rw_max_size :: "split_bdev \<Rightarrow> u32" where
  "rw_max_size b = (if bd_max_rw_size b \<noteq> 0 then bd_max_rw_size b else UINT32_MAX)"

definition rw_max_segment_size :: "split_bdev \<Rightarrow> u32" where
  "rw_max_segment_size b = (if bd_max_segment_size b \<noteq> 0 then bd_max_segment_size b else UINT32_MAX)"

definition rw_max_child_iovcnt :: "split_bdev \<Rightarrow> nat" where
  "rw_max_child_iovcnt b =
     (if bd_max_num_segments b \<noteq> 0
      then min (unat (bd_max_num_segments b)) SPDK_BDEV_IO_NUM_CHILD_IOV
      else SPDK_BDEV_IO_NUM_CHILD_IOV)"

definition rw_io_boundary :: "split_bdev \<Rightarrow> io_type \<Rightarrow> u32" where
  "rw_io_boundary b io_type =
     (if io_type = IO_WRITE \<and> bd_split_on_write_unit b then bd_write_unit_size b
      else if bd_split_on_optimal_io_boundary b then bd_optimal_io_boundary b
      else UINT32_MAX)"

text \<open>The part of the outer loop after a child has been filled: when \<open>bytes\<close> of it did not fit, it
  is cut to whole blocks. The result is the array and the number of blocks of the child, the
  length of its list and the position in the parent's list; \<open>None\<close> when less than a block fits.\<close>

definition rw_align ::
  "iovec list \<Rightarrow> u32 \<Rightarrow> nat \<Rightarrow> u32 \<Rightarrow> u32 \<Rightarrow> nat \<Rightarrow> u32 \<Rightarrow> nat \<Rightarrow> nat \<Rightarrow> iovec list
     \<Rightarrow> (iovec list \<times> (u32 \<times> nat \<times> nat \<times> u32) option) res" where
  "rw_align iovs blocklen child_iovsize tnb bytes pos off child_iovcnt iovcnt child_iov =
     (if bytes > 0 then
        c_assert (child_iovcnt = SPDK_BDEV_IO_NUM_CHILD_IOV \<or> iovcnt = child_iovsize)
         (if bytes mod blocklen \<noteq> 0 then
            let to_last = blocklen - bytes mod blocklen in
            res_bind (rw_trim iovs to_last (child_iovcnt - 1) pos off iovcnt child_iov)
              (\<lambda>(early, pos, off, iovcnt, child_iov).
               if early then Inr (child_iov, None)
               else Inr (child_iov, Some (tnb - (bytes + to_last) div blocklen, iovcnt, pos, off)))
          else Inr (child_iov, Some (tnb - bytes div blocklen, iovcnt, pos, off)))
      else Inr (child_iov, Some (tnb, iovcnt, pos, off)))"

text \<open>One pass of the outer loop up to the submission, with the new \<open>child_iovcnt\<close>.\<close>

definition rw_child ::
  "split_bdev \<Rightarrow> split_io \<Rightarrow> u64 \<Rightarrow> u64 \<Rightarrow> nat \<Rightarrow> u32 \<Rightarrow> nat
     \<Rightarrow> (nat \<times> iovec list \<times> (u32 \<times> nat \<times> nat \<times> u32) option) res" where
  "rw_child b io current_offset remaining pos off child_iovcnt =
     (let blocklen = bdev_io_get_block_size b io;
          child_iovsize = min (SPDK_BDEV_IO_NUM_CHILD_IOV - child_iovcnt) (rw_max_child_iovcnt b) in
      res_bind (to_next_boundary current_offset (rw_io_boundary b (sp_type io))) (\<lambda>tnb.
      let tnb = min (rw_max_size b) (ucast (min remaining (ucast tnb))) in
      res_bind (rw_fill (sp_iovs io) (rw_max_segment_size b) child_iovsize (tnb * blocklen) pos off
                  child_iovcnt 0 (sp_child_iov io))
        (\<lambda>(bytes, pos, off, child_iovcnt, iovcnt, child_iov).
         res_bind (rw_align (sp_iovs io) blocklen child_iovsize tnb bytes pos off child_iovcnt iovcnt child_iov)
           (\<lambda>r. Inr (child_iovcnt, r)))))"

lemma rw_fill_count:
  "rw_fill iovs seg sz bytes pos off cnt n ci = Inr (bytes', pos', off', cnt', n', ci') \<Longrightarrow>
     n \<le> n' \<and> cnt' = cnt + (n' - n) \<and> (0 < bytes \<and> pos < length iovs \<and> n < sz \<longrightarrow> n < n')"
proof (induction iovs seg sz bytes pos off cnt n ci rule: rw_fill.induct)
  case (1 iovs seg sz bytes pos off cnt n ci)
  show ?case
  proof (cases "bytes > 0 \<and> pos < length iovs \<and> n < sz \<and> cnt < length ci")
    case True
    then show ?thesis using "1.prems" "1.IH" [OF _ _ refl refl refl refl]
      by (subst (asm) rw_fill.simps) (auto simp: Let_def split: if_splits)
  qed (use "1.prems" in \<open>subst (asm) rw_fill.simps, auto split: if_splits\<close>)
qed

lemma to_next_boundary_bounds:
  assumes "to_next_boundary offset boundary = Inr t"
  shows "unat t = unat boundary - unat offset mod unat boundary" and "0 < unat t"
    and "unat t \<le> unat boundary" and "0 < unat boundary"
proof -
  have b: "0 < unat boundary" and t: "t = ucast (ucast boundary - offset mod ucast boundary)"
    using assms by (auto simp: to_next_boundary_def unat_pos split: if_splits)
  have m: "unat (offset mod ucast boundary) = unat offset mod unat boundary"
    by (simp add: unat_mod_distrib)
  have l: "unat offset mod unat boundary < unat boundary" using b by (rule mod_less_divisor)
  have "unat (ucast boundary - offset mod ucast boundary) = unat boundary - unat offset mod unat boundary"
    by (subst unat_sub) (use l m in \<open>simp_all add: word_le_nat_alt\<close>)
  then show "unat t = unat boundary - unat offset mod unat boundary"
    unfolding t by (subst unat_ucast_u64_u32) (simp_all add: less_imp_diff_less)
  then show "0 < unat t" and "unat t \<le> unat boundary" using l by simp_all
  show "0 < unat boundary" by (fact b)
qed

lemma unat_sub_ucast:
  "unat (t :: u32) \<le> unat (r :: u64) \<Longrightarrow> unat (r - ucast t) = unat r - unat t"
  by (subst unat_sub) (simp_all add: word_le_nat_alt)

lemma unat_child_blocks:
  "unat (min max_size (ucast (min rem (ucast (t :: u32)))) :: u32)
     = min (unat max_size) (min (unat (rem :: u64)) (unat t))"
proof -
  have "unat (min rem (ucast t)) < 4294967296" by (simp add: unat_min min.strict_coboundedI2)
  from unat_ucast_u64_u32 [OF this] show ?thesis by (simp add: unat_min)
qed

lemma rw_childE:
  assumes "rw_child b io cur rem pos off cnt = Inr (cnt', r)"
  obtains t tnb bytes p f n ci where
      "to_next_boundary cur (rw_io_boundary b (sp_type io)) = Inr t"
      "tnb = min (rw_max_size b) (ucast (min rem (ucast t)))"
      "rw_fill (sp_iovs io) (rw_max_segment_size b)
         (min (SPDK_BDEV_IO_NUM_CHILD_IOV - cnt) (rw_max_child_iovcnt b))
         (tnb * bdev_io_get_block_size b io) pos off cnt 0 (sp_child_iov io)
       = Inr (bytes, p, f, cnt', n, ci)"
      "rw_align (sp_iovs io) (bdev_io_get_block_size b io)
         (min (SPDK_BDEV_IO_NUM_CHILD_IOV - cnt) (rw_max_child_iovcnt b)) tnb bytes p f cnt' n ci = Inr r"
  using assms unfolding rw_child_def Let_def
  by (elim res_bind_InrE) (auto elim!: res_bind_InrE)

lemma rw_align_full: "rw_align iovs bl sz tnb 0 pos off cnt n ci = Inr (ci, Some (tnb, n, pos, off))"
  by (simp add: rw_align_def)

lemma rw_max_size_pos: "rw_max_size b \<noteq> 0"
  and rw_max_segment_size_pos: "rw_max_segment_size b \<noteq> 0"
  and rw_max_child_iovcnt_pos: "0 < rw_max_child_iovcnt b" "rw_max_child_iovcnt b \<le> 32"
  by (auto simp: rw_max_size_def rw_max_segment_size_def rw_max_child_iovcnt_def unat_pos)

lemma rw_child_progress:
  assumes child: "rw_child b io cur rem pos off cnt = Inr (cnt', ci, Some (tnb, n, pos', off'))"
    and "0 < rem" and "pos < length (sp_iovs io)" and "cnt < SPDK_BDEV_IO_NUM_CHILD_IOV"
  shows "cnt < cnt' \<or> cnt' = cnt \<and> 0 < tnb \<and> unat tnb \<le> unat rem"
proof -
  obtain t tnb0 bytes p f n0 ci0 where
      t: "to_next_boundary cur (rw_io_boundary b (sp_type io)) = Inr t"
    and tnb0: "tnb0 = min (rw_max_size b) (ucast (min rem (ucast t)))"
    and fill: "rw_fill (sp_iovs io) (rw_max_segment_size b)
         (min (SPDK_BDEV_IO_NUM_CHILD_IOV - cnt) (rw_max_child_iovcnt b))
         (tnb0 * bdev_io_get_block_size b io) pos off cnt 0 (sp_child_iov io)
       = Inr (bytes, p, f, cnt', n0, ci0)"
    and align: "rw_align (sp_iovs io) (bdev_io_get_block_size b io)
         (min (SPDK_BDEV_IO_NUM_CHILD_IOV - cnt) (rw_max_child_iovcnt b)) tnb0 bytes p f cnt' n0 ci0
       = Inr (ci, Some (tnb, n, pos', off'))"
    using child by (rule rw_childE)
  have pos: "0 < unat tnb0" "unat tnb0 \<le> unat rem"
    using assms(2) to_next_boundary_bounds [OF t] rw_max_size_pos [of b]
    by (simp_all add: tnb0 unat_child_blocks word_less_nat_alt unat_pos)
  show ?thesis
  proof (cases "tnb0 * bdev_io_get_block_size b io = 0")
    case True
    then have "bytes = 0" "cnt' = cnt" using fill by (simp_all add: rw_fill.simps)
    then show ?thesis using pos align by (simp add: rw_align_full word_gt_0 unat_pos)
  next
    case False
    then have "cnt < cnt'"
      using rw_fill_count [OF fill] assms(3,4) rw_max_child_iovcnt_pos [of b] by (simp add: word_gt_0)
    then show ?thesis by simp
  qed
qed

text \<open>The round ends because less than a block fits into the array of the children.\<close>

definition less_than_block :: "split_io \<Rightarrow> split_io" where
  "less_than_block io =
     (if sp_outstanding io = 0 then complete_failed (io\<lparr>sp_status := STATUS_FAILED\<rparr>) else io)"

definition child_md_buf :: "split_bdev \<Rightarrow> split_io \<Rightarrow> u64 \<Rightarrow> u64" where
  "child_md_buf b io current_offset =
     (if sp_md_buf io \<noteq> 0
      then sp_md_buf io + (current_offset - sp_offset_blocks io) * ucast (bd_md_len b) else 0)"

function rw_loop ::
  "split_bdev \<Rightarrow> (nat \<Rightarrow> mgmt_ch) \<Rightarrow> nat \<Rightarrow> u64 \<Rightarrow> u64 \<Rightarrow> nat \<Rightarrow> u32 \<Rightarrow> nat \<Rightarrow> split_io \<Rightarrow> split_io res" where
  "rw_loop b mg k current_offset remaining pos off child_iovcnt io =
     (if remaining > 0 \<and> pos < length (sp_iovs io) \<and> child_iovcnt < SPDK_BDEV_IO_NUM_CHILD_IOV then
        case rw_child b io current_offset remaining pos off child_iovcnt of
          Inl e \<Rightarrow> Inl e
        | Inr (_, child_iov, None) \<Rightarrow> Inr (less_than_block (io\<lparr>sp_child_iov := child_iov\<rparr>))
        | Inr (child_iovcnt', child_iov, Some (tnb, iovcnt, pos', off')) \<Rightarrow>
            (case bdev_io_split_submit b (mg k) child_iovcnt iovcnt (child_md_buf b io current_offset)
                    (ucast tnb) current_offset remaining (io\<lparr>sp_child_iov := child_iov\<rparr>) of
               Inl e \<Rightarrow> Inl e
             | Inr (None, current_offset', remaining', io') \<Rightarrow>
                 rw_loop b mg (k + 1) current_offset' remaining' pos' off' child_iovcnt' io'
             | Inr (Some e, _, _, io') \<Rightarrow> Inr io')
      else Inr io)"
  by pat_completeness auto

lemma split_submit_None:
  "bdev_io_split_submit b m iov iovcnt md num cur rem io = Inr (None, cur', rem', io') \<Longrightarrow>
     cur' = cur + num \<and> rem' = rem - num"
  by (auto simp: bdev_io_split_submit_def Let_def split: option.splits elim!: res_bind_InrE)

termination rw_loop
proof (relation "measures [\<lambda>(_, _, _, _, _, _, _, cnt, _). 32 - cnt,
    \<lambda>(_, _, _, _, rem, _, _, _, _). unat rem]", goal_cases)
  case 2
  then show ?case
    by (auto simp: unat_sub_ucast unat_pos word_gt_0 dest!: rw_child_progress split_submit_None)
qed simp

declare rw_loop.simps [simp del]

definition bdev_rw_split :: "split_bdev \<Rightarrow> (nat \<Rightarrow> mgmt_ch) \<Rightarrow> split_io \<Rightarrow> split_io res" where
  "bdev_rw_split b mg io =
     c_assert (sp_split io)
      (let current_offset = sp_current_offset_blocks io;
           parent_iov_offset = ucast ((current_offset - sp_offset_blocks io) * ucast (bdev_io_get_block_size b io));
           (pos, off) = rw_skip (sp_iovs io) 0 parent_iov_offset in
       rw_loop b mg 0 current_offset (sp_remaining_num_blocks io) pos off 0 io)"

section \<open>Rounds: unmap, write zeroes, copy\<close>

text \<open>The loop of the three functions, which differ in the limit of a child and the number of
  children.\<close>

function split_reqs ::
  "split_bdev \<Rightarrow> (nat \<Rightarrow> mgmt_ch) \<Rightarrow> u64 \<Rightarrow> nat \<Rightarrow> nat \<Rightarrow> u64 \<Rightarrow> u64 \<Rightarrow> split_io \<Rightarrow> split_io res" where
  "split_reqs b mg limit max_reqs num_children_reqs offset remaining io =
     (if remaining \<noteq> 0 \<and> num_children_reqs < max_reqs then
        case bdev_io_split_submit b (mg num_children_reqs) 0 0 0 (min remaining limit) offset remaining io of
          Inl e \<Rightarrow> Inl e
        | Inr (None, offset', remaining', io') \<Rightarrow>
            split_reqs b mg limit max_reqs (num_children_reqs + 1) offset' remaining' io'
        | Inr (Some e, _, _, io') \<Rightarrow> Inr io'
      else Inr io)"
  by pat_completeness auto
termination
  by (relation "measure (\<lambda>(_, _, _, mx, n, _, _, _). mx - n)") auto

declare split_reqs.simps [simp del]

definition bdev_unmap_split :: "split_bdev \<Rightarrow> (nat \<Rightarrow> mgmt_ch) \<Rightarrow> split_io \<Rightarrow> split_io res" where
  "bdev_unmap_split b mg io =
     c_assert (sp_split io)
      (let max_unmap_blocks = ucast (bd_max_unmap b * bd_max_unmap_segments b) in
       split_reqs b mg max_unmap_blocks SPDK_BDEV_MAX_CHILDREN_UNMAP_WRITE_ZEROES_REQS 0
         (sp_current_offset_blocks io) (sp_remaining_num_blocks io) io)"

definition bdev_write_zeroes_split :: "split_bdev \<Rightarrow> (nat \<Rightarrow> mgmt_ch) \<Rightarrow> split_io \<Rightarrow> split_io res" where
  "bdev_write_zeroes_split b mg io =
     c_assert (sp_split io)
      (split_reqs b mg (ucast (bd_max_write_zeroes b)) SPDK_BDEV_MAX_CHILDREN_UNMAP_WRITE_ZEROES_REQS 0
         (sp_current_offset_blocks io) (sp_remaining_num_blocks io) io)"

definition bdev_copy_split :: "split_bdev \<Rightarrow> (nat \<Rightarrow> mgmt_ch) \<Rightarrow> split_io \<Rightarrow> split_io res" where
  "bdev_copy_split b mg io =
     c_assert (sp_split io)
      (c_assert (bd_max_copy b \<noteq> 0)
        (split_reqs b mg (ucast (bd_max_copy b)) SPDK_BDEV_MAX_CHILDREN_COPY_REQS 0
           (sp_current_offset_blocks io) (sp_remaining_num_blocks io) io))"

section \<open>Completion\<close>

text \<open>The round for the type of the I/O: the callback an I/O waits with, and the end of
  \<open>bdev_io_split_done\<close>.\<close>

definition split_round :: "split_bdev \<Rightarrow> (nat \<Rightarrow> mgmt_ch) \<Rightarrow> split_io \<Rightarrow> split_io res" where
  "split_round b mg io =
     (case sp_type io of
        IO_READ \<Rightarrow> bdev_rw_split b mg io
      | IO_WRITE \<Rightarrow> bdev_rw_split b mg io
      | IO_UNMAP \<Rightarrow> bdev_unmap_split b mg io
      | IO_WRITE_ZEROES \<Rightarrow> bdev_write_zeroes_split b mg io
      | IO_COPY \<Rightarrow> bdev_copy_split b mg io
      | _ \<Rightarrow> Inl AssertFail)"

definition parent_bdev_io_complete :: "int \<Rightarrow> split_io \<Rightarrow> split_io" where
  "parent_bdev_io_complete rc io =
     (let io = (if rc \<noteq> 0 then io\<lparr>sp_status := STATUS_FAILED\<rparr> else io) in
      io\<lparr>sp_cb := sp_cb io @ [sp_status io = STATUS_SUCCESS]\<rparr>)"

definition bdev_io_complete_parent_sequence_cb :: "int \<Rightarrow> split_io \<Rightarrow> split_io res" where
  "bdev_io_complete_parent_sequence_cb status io =
     c_assert (\<not> sp_accel_sequence io)
      (c_assert (sp_status io = STATUS_SUCCESS)
        (Inr (parent_bdev_io_complete status (io\<lparr>sp_has_accel_sequence := False\<rparr>))))"

text \<open>The completion of child \<open>i\<close> with status \<open>st\<close>. A child is
  submitted without an accel sequence, and one it gets on its way has ended when it succeeds.\<close>

definition bdev_io_split_done ::
  "split_bdev \<Rightarrow> (nat \<Rightarrow> mgmt_ch) \<Rightarrow> nat \<Rightarrow> io_status \<Rightarrow> split_io \<Rightarrow> split_io res" where
  "bdev_io_split_done b mg i st io =
     c_assert (sp_split io)
      (let io = io\<lparr>sp_children := (sp_children io)[i := (fst (sp_children io ! i), st)]\<rparr>;
           io = (if st \<noteq> STATUS_SUCCESS
                 then io\<lparr>sp_status := st,
                         sp_current_offset_blocks := sp_current_offset_blocks io + sp_remaining_num_blocks io,
                         sp_remaining_num_blocks := 0\<rparr>
                 else io);
           io = io\<lparr>sp_outstanding := sp_outstanding io - 1\<rparr> in
       if sp_outstanding io \<noteq> 0 then Inr io
       else if sp_remaining_num_blocks io = 0 then
         c_assert (\<not> sp_cb_is_split_done io)
          (let io = io\<lparr>sp_submitted := False\<rparr> in
           if sp_status io = STATUS_SUCCESS \<and> bdev_io_needs_sequence_exec b io
           then c_assert (sp_type io = IO_WRITE \<or> sp_type io = IO_READ)
                  (Inr (io\<lparr>sp_finishing := Some ExecSequence\<rparr>))
           else if sp_status io = STATUS_SUCCESS \<and> sp_has_bounce_buf io
           then Inr (io\<lparr>sp_finishing := Some PushBounce\<rparr>)
           else Inr (parent_bdev_io_complete 0 io))
       else split_round b mg io)"

section \<open>Start\<close>

text \<open>
  What \<open>_bdev_io_submit_ext\<close> does with the accel sequence of an I/O before it is submitted, when
  neither a bounce buffer nor an accel buffer is needed: the sequence of a write whose module cannot
  execute it is executed first, with the code \<open>rc\<close>, the one of a read is put off; \<open>None\<close> when the I/O
  is completed without being submitted. \<open>_bdev_memory_domain_get_io_cb\<close> does the same with an I/O
  that has got such a buffer.
\<close>

definition bdev_io_submit_sequence_cb :: "int \<Rightarrow> split_io \<Rightarrow> split_io option res" where
  "bdev_io_submit_sequence_cb rc io =
     c_assert (sp_has_accel_sequence io)
      (let io = io\<lparr>sp_accel_sequence := False, sp_has_accel_sequence := False\<rparr> in
       if rc \<noteq> 0 then Inr None else Inr (Some io))"

definition submit_ext_sequence :: "split_bdev \<Rightarrow> int \<Rightarrow> split_io \<Rightarrow> split_io option res" where
  "submit_ext_sequence b rc io =
     (if bdev_io_needs_sequence_exec b io then
        if sp_type io = IO_WRITE then bdev_io_submit_sequence_cb rc io
        else c_assert (sp_type io = IO_READ) (Inr (Some (io\<lparr>sp_accel_sequence := False\<rparr>)))
      else Inr (Some io))"

text \<open>An I/O that is to be split has no sequence for its module when it is submitted. The functions
  that submit an I/O set the pointer and the flag of a sequence together.\<close>

lemma submit_ext_sequence_clears:
  assumes "sp_split io" and "sp_accel_sequence io \<longrightarrow> sp_has_accel_sequence io"
    and "submit_ext_sequence b rc io = Inr (Some io')"
  shows "\<not> sp_accel_sequence io'"
  using assms by (auto simp: submit_ext_sequence_def bdev_io_submit_sequence_cb_def
      bdev_io_needs_sequence_exec_def bdev_io_accel_sequence_supported_def Let_def split: if_splits)

definition bdev_io_split :: "split_bdev \<Rightarrow> (nat \<Rightarrow> mgmt_ch) \<Rightarrow> split_io \<Rightarrow> split_io res" where
  "bdev_io_split b mg io =
     c_assert (bdev_io_should_split b io)
      (c_assert (sp_split io)
        (let io = io\<lparr>sp_current_offset_blocks := sp_offset_blocks io,
                     sp_remaining_num_blocks := sp_num_blocks io,
                     sp_outstanding := 0, sp_status := STATUS_SUCCESS\<rparr> in
         if sp_type io \<in> {IO_READ, IO_WRITE} \<and> \<not> is_buf_allocated (sp_iovs io)
         then c_assert (sp_type io = IO_READ) (Inr (io\<lparr>sp_getting_buf := True\<rparr>))
         else split_round b mg io))"

text \<open>The buffer of a read without one is allocated by the bdev layer and becomes the first element
  of the list; a failed allocation completes the read.\<close>

definition spdk_bdev_io_set_buf :: "u64 \<Rightarrow> u64 \<Rightarrow> split_io \<Rightarrow> split_io" where
  "spdk_bdev_io_set_buf buf len io =
     io\<lparr>sp_iovs := (case sp_iovs io of
          [] \<Rightarrow> [\<lparr>iov_base = buf, iov_len = len\<rparr>]
        | v # vs \<Rightarrow> \<lparr>iov_base = buf, iov_len = len\<rparr> # vs)\<rparr>"

definition bdev_rw_split_get_buf_cb :: "split_bdev \<Rightarrow> (nat \<Rightarrow> mgmt_ch) \<Rightarrow> bool \<Rightarrow> split_io \<Rightarrow> split_io res" where
  "bdev_rw_split_get_buf_cb b mg success io =
     (if \<not> success then Inr (complete_failed (io\<lparr>sp_status := STATUS_FAILED\<rparr>))
      else bdev_rw_split b mg io)"

section \<open>Runs\<close>

text \<open>
  The events of a split I/O after its start: a child in flight completes; an I/O object becomes
  available and the parent is taken off the wait queue; the buffer arrives (or not); the transfer
  that follows the last child ends.
\<close>

inductive split_step :: "split_bdev \<Rightarrow> split_io \<Rightarrow> split_io \<Rightarrow> bool" for b where
  child_done: "\<lbrakk>i < length (sp_children io); snd (sp_children io ! i) = STATUS_PENDING;
      st \<noteq> STATUS_PENDING; bdev_io_split_done b mg i st io = Inr io'\<rbrakk> \<Longrightarrow> split_step b io io'"
| wake: "\<lbrakk>sp_waiting io; split_round b mg (io\<lparr>sp_waiting := False\<rparr>) = Inr io'\<rbrakk> \<Longrightarrow> split_step b io io'"
| got_buf: "\<lbrakk>sp_getting_buf io;
      bdev_rw_split_get_buf_cb b mg True
        (spdk_bdev_io_set_buf buf (sp_num_blocks io * ucast (bdev_io_get_block_size b io))
          (io\<lparr>sp_getting_buf := False\<rparr>)) = Inr io'\<rbrakk> \<Longrightarrow> split_step b io io'"
| no_buf: "\<lbrakk>sp_getting_buf io;
      bdev_rw_split_get_buf_cb b mg False (io\<lparr>sp_getting_buf := False\<rparr>) = Inr io'\<rbrakk> \<Longrightarrow> split_step b io io'"
| pushed: "\<lbrakk>sp_finishing io = Some PushBounce;
      io' = parent_bdev_io_complete rc (io\<lparr>sp_finishing := None\<rparr>)\<rbrakk> \<Longrightarrow> split_step b io io'"
| executed: "\<lbrakk>sp_finishing io = Some ExecSequence;
      bdev_io_complete_parent_sequence_cb rc (io\<lparr>sp_finishing := None\<rparr>) = Inr io'\<rbrakk> \<Longrightarrow> split_step b io io'"

end
