(* ===== verification/Bdev_Split_Dec.thy ===== *)
theory Bdev_Split_Dec
  imports Bdev_Split
begin

text \<open>
  The decision to split: what the shifts of \<open>bdev_rw_should_split\<close> compute, and the limits under
  which an I/O is not split.
\<close>

section \<open>The decision\<close>

lemma bit_word_odd: "bit (x :: 'a::len word) n \<longleftrightarrow> odd (unat x div 2 ^ n)"
  by (simp add: bit_unsigned_iff bit_iff_odd [symmetric] unsigned_eq_0_iff flip: bit_iff_odd)

lemma odd_div_pow2: "2 ^ n \<le> (m :: nat) \<Longrightarrow> m < 2 ^ Suc n \<Longrightarrow> odd (m div 2 ^ n)"
proof -
  assume "2 ^ n \<le> m" "m < 2 ^ Suc n"
  then have "m div 2 ^ n = 1" by (intro div_nat_eqI) simp_all
  then show ?thesis by simp
qed

lemma u32log2_bounds:
  assumes "x \<noteq> 0"
  shows "2 ^ spdk_u32log2 x \<le> unat x" and "unat x < 2 ^ Suc (spdk_u32log2 x)"
proof -
  let ?xs = "rev [0..<32]"
  define m where "m = builtin_clz x"
  obtain i where i: "bit x i" "i < 32" 
    using assms bit_imp_le_length [of x] by (auto simp: bit_eq_iff)
  have m: "m < 32"
  proof (rule ccontr)
    assume "\<not> m < 32"
    then have "takeWhile (\<lambda>i. \<not> bit x i) ?xs = ?xs"
      using takeWhile_eq_take [of "\<lambda>i. \<not> bit x i" ?xs] by (simp add: m_def builtin_clz_def)
    then show False using i by (auto simp only: takeWhile_eq_all_conv set_rev set_upt atLeastLessThan_iff)
  qed
  have set: "bit x (31 - m)"
    using nth_length_takeWhile [of "\<lambda>i. \<not> bit x i" ?xs] m by (simp add: m_def builtin_clz_def rev_nth)
  have clear: "\<not> bit x i" if "31 - m < i" "i < 32" for i
  proof -
    have "takeWhile (\<lambda>i. \<not> bit x i) ?xs ! (31 - i) = i" "31 - i < m"
      using that m by (simp_all add: takeWhile_nth m_def builtin_clz_def rev_nth)
    then show ?thesis using nth_mem [of "31 - i" "takeWhile (\<lambda>i. \<not> bit x i) ?xs"] set_takeWhileD
      by (fastforce simp: m_def builtin_clz_def)
  qed
  have log: "spdk_u32log2 x = 31 - m" using assms by (simp add: spdk_u32log2_def m_def)
  show "2 ^ spdk_u32log2 x \<le> unat x"
    using set by (auto simp: log bit_word_odd intro: ccontr)
  have "take_bit (Suc (31 - m)) x = x"
  proof (rule bit_word_eqI)
    fix n assume "n < LENGTH(32)"
    then show "bit (take_bit (Suc (31 - m)) x) n = bit x n"
      using clear [of n] by (auto simp: bit_take_bit_iff less_Suc_eq_le not_less [symmetric])
  qed
  then show "unat x < 2 ^ Suc (spdk_u32log2 x)"
    unfolding log by (metis take_bit_nat_less_exp unsigned_take_bit_eq)
qed

lemma pow2_u32log2:
  assumes "spdk_u32_is_pow2 x"
  shows "unat x = 2 ^ spdk_u32log2 x"
proof (rule ccontr)
  let ?n = "spdk_u32log2 x"
  have x: "x \<noteq> 0" and a: "x AND (x - 1) = 0" using assms by (auto simp: spdk_u32_is_pow2_def split: if_splits)
  note b = u32log2_bounds [OF x]
  assume "unat x \<noteq> 2 ^ ?n"
  moreover have "unat (x - 1) = unat x - 1" using x by (simp add: unat_minus_one)
  ultimately have "bit x ?n" "bit (x - 1) ?n"
    using b by (simp_all add: bit_word_odd odd_div_pow2)
  then have "bit (x AND (x - 1)) ?n" by (simp add: bit_and_iff)
  then show False using a by simp
qed


lemma unat_drop_bit: "unat (drop_bit n w) = unat w div 2 ^ n"
  unfolding unat_drop_bit_eq by (rule drop_bit_eq_div)

text \<open>The shift is a division.\<close>

lemma crosses_boundary_div:
  "crosses_boundary boundary offset num \<longleftrightarrow>
     unat offset div unat boundary \<noteq> unat (offset + num - 1) div unat boundary"
proof (cases "spdk_u32_is_pow2 boundary")
  case True
  then show ?thesis
    by (simp add: crosses_boundary_def Let_def unat_eq_iff [of "drop_bit _ _"] unat_drop_bit pow2_u32log2)
next
  case False
  then show ?thesis
    by (simp add: crosses_boundary_def Let_def unat_eq_iff [of "_ div _"] unat_div_distrib)
qed

lemma crosses_boundary_iff:
  assumes n: "num \<noteq> 0" and o: "unat offset + unat num \<le> 18446744073709551616"
  shows "crosses_boundary boundary offset num \<longleftrightarrow>
    unat offset div unat boundary \<noteq> (unat offset + unat num - 1) div unat boundary"
proof -
  have u: "unat (num - 1) = unat num - 1" using n by (simp add: unat_minus_one)
  have "unat (offset + num - 1) = unat offset + unat num - 1"
    using unat_add_u64 [of offset "num - 1"] o n unat_pos [of num] by (simp add: u add_diff_eq)
  then show ?thesis by (simp add: crosses_boundary_div)
qed

text \<open>The last block of an I/O without blocks is computed as the block before it.\<close>

lemma crosses_boundary_0:
  assumes b: "boundary \<noteq> 0" and d: "unat boundary dvd unat offset"
  shows "crosses_boundary boundary offset 0"
proof (cases "offset = 0")
  case True
  have "unat boundary \<le> 18446744073709551615" using unat_u32_bound [of boundary] by linarith
  then have "18446744073709551615 div unat boundary \<noteq> 0"
    using b by (simp add: unat_eq_0 div_eq_0_iff)
  moreover have "unat (- 1 :: u64) = 18446744073709551615"
    by (simp add: unsigned_minus_1_eq_mask mask_eq_exp_minus_1)
  ultimately show ?thesis using True by (simp add: crosses_boundary_div)
next
  case False
  obtain q where q: "unat offset = q * unat boundary" using d by (metis dvdE mult.commute)
  have B: "0 < unat boundary" using b by (simp add: unat_pos)
  have "unat offset \<noteq> 0" using False by (simp add: unat_eq_0)
  then have "q \<noteq> 0" using q by auto
  then have "unat offset - 1 < q * unat boundary" using q B by simp
  then have "(unat offset - 1) div unat boundary < q" by (rule less_mult_imp_div_less)
  moreover have "unat (offset - 1) = unat offset - 1" using False by (simp add: unat_minus_one)
  moreover have "unat offset div unat boundary = q" using q B by simp
  ultimately show ?thesis by (simp add: crosses_boundary_div)
qed

lemma div_within: "(n :: nat) \<le> b - a mod b \<Longrightarrow> 0 < n \<Longrightarrow> (a + n - 1) div b = a div b"
proof -
  assume n: "n \<le> b - a mod b" "0 < n"
  have "a + n - 1 = a div b * b + (a mod b + n - 1)" using n(2) div_mult_mod_eq [of a b] by linarith
  moreover have "a mod b + n - 1 < b" using n by linarith
  ultimately show ?thesis by simp
qed

lemma sint_small: "unat (x :: u32) < 2147483648 \<Longrightarrow> sint x = int (unat x)"
proof -
  assume "unat x < 2147483648"
  then have "int (unat x) < 2147483648" by linarith
  moreover have "- 2147483648 \<le> uint x" using uint_ge_0 [of x] by linarith
  ultimately show ?thesis using signed_take_bit_int_eq_self [of 31 "uint x"] by (simp add: sint_uint)
qed

text \<open>An I/O that stays within the limits is not split.\<close>

lemma rw_within_limits:
  assumes n: "sp_num_blocks io \<noteq> 0"
    and o: "unat (sp_offset_blocks io) + unat (sp_num_blocks io) \<le> 18446744073709551616"
    and boundary: "rw_io_boundary b (sp_type io) \<noteq> 0"
      "unat (sp_num_blocks io) \<le> unat (rw_io_boundary b (sp_type io))
         - unat (sp_offset_blocks io) mod unat (rw_io_boundary b (sp_type io))"
    and segs: "unat (bd_max_num_segments b) < 2147483648" "length (sp_iovs io) \<le> rw_max_child_iovcnt b"
    and seg: "\<And>v. v \<in> set (sp_iovs io) \<Longrightarrow> unat (iov_len v) \<le> unat (rw_max_segment_size b)"
    and size: "unat (sp_num_blocks io) \<le> unat (rw_max_size b)"
  shows "\<not> bdev_rw_should_split b io"
proof -
  let ?B = "bdev_rw_get_io_boundary b (sp_type io)"
  have c1: "(?B \<noteq> 0 \<and> crosses_boundary ?B (sp_offset_blocks io) (sp_num_blocks io)) = False"
  proof (cases "?B = 0")
    case False
    have eq: "rw_io_boundary b (sp_type io) = ?B"
      using False by (auto simp: bdev_rw_get_io_boundary_def rw_io_boundary_def split: if_splits)
    have "(unat (sp_offset_blocks io) + unat (sp_num_blocks io) - 1) div unat ?B = unat (sp_offset_blocks io) div unat ?B"
      using boundary(2) n unfolding eq by (intro div_within) (auto simp: unat_pos)
    then show ?thesis using crosses_boundary_iff [OF n o] by simp
  qed simp
  have c2: "(sint (bd_max_num_segments b) \<noteq> 0 \<and> sint (bd_max_num_segments b) < int (length (sp_iovs io))) = False"
  proof -
    define n where "n = unat (bd_max_num_segments b)"
    have "sint (bd_max_num_segments b) = int n" unfolding n_def by (rule sint_small [OF segs(1)])
    moreover have "bd_max_num_segments b = 0 \<longleftrightarrow> n = 0" by (simp add: n_def unat_eq_0)
    ultimately show ?thesis using segs(2) by (auto simp: rw_max_child_iovcnt_def simp flip: n_def split: if_splits)
  qed
  have c3: "(bd_max_segment_size b \<noteq> 0 \<and> list_ex (\<lambda>v. ucast (bd_max_segment_size b) < iov_len v) (sp_iovs io)) = False"
    using seg by (auto simp: list_ex_iff rw_max_segment_size_def word_less_nat_alt not_less)
  have c4: "(bd_max_rw_size b \<noteq> 0 \<and> ucast (bd_max_rw_size b) < sp_num_blocks io) = False"
    using size by (auto simp: rw_max_size_def word_less_nat_alt)
  show ?thesis by (simp only: bdev_rw_should_split_def Let_def c1 c2 c3 c4 if_False if_cancel not_False_eq_True)
qed

text \<open>C38 (equivalence). For an I/O that is not empty and does not run past block \<open>2 ^ 64\<close>, on a device
  that takes fewer than \<open>2 ^ 31\<close> segments, the decision to split a read or write, with its shifts for
  boundaries that are powers of two, is the plain one: the I/O is split exactly when its first and last block lie in different stripes,
  when it has too many elements or an element that is too long, or when it has too many blocks.\<close>

theorem rw_should_split_iff:
  assumes "sp_num_blocks io \<noteq> 0"
    and "unat (sp_offset_blocks io) + unat (sp_num_blocks io) \<le> 18446744073709551616"
    and "unat (bd_max_num_segments b) < 2147483648"
  shows "bdev_rw_should_split b io \<longleftrightarrow>
    (let boundary = unat (bdev_rw_get_io_boundary b (sp_type io));
         first = unat (sp_offset_blocks io); last = first + unat (sp_num_blocks io) - 1 in
     boundary \<noteq> 0 \<and> first div boundary \<noteq> last div boundary) \<or>
    0 < unat (bd_max_num_segments b) \<and> unat (bd_max_num_segments b) < length (sp_iovs io) \<or>
    0 < unat (bd_max_segment_size b) \<and> (\<exists>v\<in>set (sp_iovs io). unat (bd_max_segment_size b) < unat (iov_len v)) \<or>
    0 < unat (bd_max_rw_size b) \<and> unat (bd_max_rw_size b) < unat (sp_num_blocks io)"
proof -
  let ?B = "bdev_rw_get_io_boundary b (sp_type io)"
  have c1: "(?B \<noteq> 0 \<and> crosses_boundary ?B (sp_offset_blocks io) (sp_num_blocks io)) =
      (unat ?B \<noteq> 0 \<and> unat (sp_offset_blocks io) div unat ?B \<noteq>
         (unat (sp_offset_blocks io) + unat (sp_num_blocks io) - 1) div unat ?B)"
    using crosses_boundary_iff [OF assms(1,2), of ?B] by (auto simp: unat_eq_0)
  define n where "n = unat (bd_max_num_segments b)"
  have n: "sint (bd_max_num_segments b) = int n" unfolding n_def by (rule sint_small [OF assms(3)])
  show ?thesis
    unfolding bdev_rw_should_split_def Let_def c1 n n_def [symmetric]
    by (auto simp: list_ex_iff word_less_nat_alt unat_pos unat_eq_0)
qed

definition example_limits :: split_bdev where
  "example_limits = \<lparr>bd_blockcnt = 100, bd_blocklen = 512, bd_md_len = 0, bd_dif_pi_format = PI_FORMAT_16,
     bd_split_on_write_unit = False, bd_split_on_optimal_io_boundary = True, bd_write_unit_size = 0,
     bd_optimal_io_boundary = 8, bd_max_segment_size = 0, bd_max_num_segments = 0, bd_max_unmap = 0,
     bd_max_unmap_segments = 0, bd_max_write_zeroes = 0, bd_max_copy = 0, bd_max_rw_size = 0,
     bd_supported = (\<lambda>_. True), bd_accel_sequence_supported = (\<lambda>_. False)\<rparr>"

definition example_request :: "io_type \<Rightarrow> u64 \<Rightarrow> u64 \<Rightarrow> iovec list \<Rightarrow> split_io" where
  "example_request t offset num iovs =
     \<lparr>sp_type = t, sp_offset_blocks = offset, sp_num_blocks = num, sp_iovs = iovs, sp_md_buf = 0,
      sp_src_offset_blocks = 0, sp_pract = False, sp_hide_metadata = False, sp_desc_write = True,
      sp_split = True, sp_accel_sequence = False, sp_has_accel_sequence = False, sp_cb_is_split_done = False,
      sp_has_bounce_buf = False,
      sp_current_offset_blocks = 0, sp_remaining_num_blocks = 0, sp_outstanding = 0, sp_status = STATUS_PENDING,
      sp_child_iov = replicate 32 \<lparr>iov_base = 0, iov_len = 0\<rparr>, sp_children = [], sp_submitted = True,
      sp_waiting = False, sp_getting_buf = False, sp_finishing = None, sp_cb = []\<rparr>"

theorem rw_should_split_iff_witness:
  "bdev_rw_should_split example_limits (example_request IO_READ 6 4 [\<lparr>iov_base = 4096, iov_len = 2048\<rparr>])"
  by (subst rw_should_split_iff) (simp_all add: example_limits_def example_request_def bdev_rw_get_io_boundary_def)

end
