(* ===== verification/Bdev_Split_Rw.thy ===== *)
theory Bdev_Split_Rw
  imports Bdev_Split
begin

text \<open>
  The scatter-gather lists of the children of a read or write. The loops of \<open>bdev_rw_split\<close> walk
  over the elements of the parent's list with 32-bit offsets, fill the array of the children and
  give back what exceeds whole blocks; here they are related to a position in the flat sequence of
  the parent's addresses, for lists shorter than 4 GiB without empty elements.
\<close>

section \<open>Positions in a list\<close>

text \<open>The number of bytes before an element, and the element and offset of a flat position.\<close>

definition pre :: "iovec list \<Rightarrow> nat \<Rightarrow> nat" where
  "pre iovs p = length (addrs (take p iovs))"

definition at :: "iovec list \<Rightarrow> nat \<Rightarrow> u32 \<Rightarrow> nat \<Rightarrow> bool" where
  "at iovs pos off F \<longleftrightarrow> pos \<le> length iovs \<and> F = pre iovs pos + unat off \<and>
     (if pos < length iovs then unat off < unat (iov_len (iovs ! pos)) else off = 0)"

definition small_list :: "iovec list \<Rightarrow> bool" where
  "small_list iovs \<longleftrightarrow> length (addrs iovs) < 4294967296 \<and> (\<forall>v\<in>set iovs. iov_len v \<noteq> 0)"

lemma pre_0 [simp]: "pre iovs 0 = 0"
  by (simp add: pre_def)

lemma pre_Suc: "p < length iovs \<Longrightarrow> pre iovs (Suc p) = pre iovs p + unat (iov_len (iovs ! p))"
  by (simp add: pre_def take_Suc_conv_app_nth)

lemma pre_mono: "p \<le> q \<Longrightarrow> pre iovs p \<le> pre iovs q"
proof -
  assume "p \<le> q"
  then obtain k where q: "q = p + k" by (auto simp: le_iff_add)
  show ?thesis unfolding q pre_def by (simp add: take_add)
qed

lemma pre_length: "pre iovs (length iovs) = length (addrs iovs)"
  by (simp add: pre_def)

lemma pre_le: "pre iovs p \<le> length (addrs iovs)"
  using pre_mono [of p "max p (length iovs)" iovs] by (simp add: pre_def max_def split: if_splits)

lemma addrs_split: "p < length iovs \<Longrightarrow>
    addrs iovs = addrs (take p iovs) @ span (iov_base (iovs ! p)) (iov_len (iovs ! p)) @ addrs (drop (Suc p) iovs)"
  by (metis addrs_simps(2,3) append_take_drop_id Cons_nth_drop_Suc)

lemma at_less: "\<lbrakk>at iovs pos off F; F < length (addrs iovs)\<rbrakk> \<Longrightarrow> pos < length iovs"
  by (auto simp: at_def pre_length split: if_splits)

lemma small_list_elem:
  assumes "small_list iovs" and "p < length iovs"
  shows "unat (iov_len (iovs ! p)) < 4294967296" and "iov_len (iovs ! p) \<noteq> 0"
proof -
  have "pre iovs (Suc p) < 4294967296"
    using assms pre_le [of iovs "Suc p"] by (simp add: small_list_def)
  then show "unat (iov_len (iovs ! p)) < 4294967296" using assms by (simp add: pre_Suc)
qed (use assms in \<open>simp add: small_list_def\<close>)

lemma at_next:
  assumes "small_list iovs" and "p < length iovs"
  shows "at iovs (Suc p) 0 (pre iovs (Suc p))"
  using assms small_list_elem [OF assms(1), of "Suc p"] by (auto simp: at_def unat_pos)

lemma rw_skip_at:
  assumes "small_list iovs" and "p \<le> length iovs"
    and "pre iovs p + unat off \<le> length (addrs iovs)"
    and "rw_skip (drop p iovs) p off = (pos, off')"
  shows "at iovs pos off' (pre iovs p + unat off)"
  using assms(2-)
proof (induction "drop p iovs" p off rule: rw_skip.induct)
  case (1 p off)
  then have "p = length iovs" by simp
  with 1 show ?case by (auto simp: at_def pre_length unat_eq_iff)
next
  case (2 v vs p off)
  then have p: "p < length iovs" and v: "v = iovs ! p" and vs: "drop (p + 1) iovs = vs"
    by (metis drop_eq_Nil le_neq_implies_less list.distinct(1),
        metis "2.hyps"(2) nth_via_drop, metis "2.hyps"(2) add.commute drop_drop list.sel(3) plus_1_eq_Suc drop_Suc tl_drop)
  show ?case
  proof (cases "ucast off < iov_len v")
    case True
    then show ?thesis using "2.prems" "2.hyps"(2) p v
      by (auto simp: at_def word_less_nat_alt simp flip: "2.hyps"(2))
  next
    case False
    let ?off = "ucast (ucast off - iov_len v) :: u32"
    have "unat (ucast off - iov_len v :: u64) = unat off - unat (iov_len v)"
      using False by (simp add: unat_sub word_le_nat_alt not_less)
    then have off: "unat ?off = unat off - unat (iov_len v)"
      by (simp add: unat_ucast_u64_u32 less_imp_diff_less)
    have eq: "pre iovs (p + 1) + unat ?off = pre iovs p + unat off"
      using False p v off by (simp add: pre_Suc word_le_nat_alt not_less)
    show ?thesis
      using "2.hyps"(1) [OF False vs [symmetric]] "2.prems" False p eq vs "2.hyps"(2)
      by (metis Suc_eq_plus1 Suc_leI rw_skip.simps(2))
  qed
qed

section \<open>Pieces of a list\<close>

text \<open>A segment of at most \<open>seg\<close> bytes that lies in one element, at flat position \<open>F\<close>; and a list of
  adjacent such segments.\<close>

definition piece :: "iovec list \<Rightarrow> u32 \<Rightarrow> nat \<Rightarrow> iovec \<Rightarrow> bool" where
  "piece iovs seg F v \<longleftrightarrow> iov_len v \<noteq> 0 \<and> unat (iov_len v) \<le> unat seg \<and>
     (\<exists>p<length iovs. pre iovs p \<le> F \<and> F + unat (iov_len v) \<le> pre iovs (Suc p) \<and>
        iov_base v = iov_base (iovs ! p) + of_nat (F - pre iovs p))"

fun pieces :: "iovec list \<Rightarrow> u32 \<Rightarrow> nat \<Rightarrow> iovec list \<Rightarrow> bool" where
  "pieces iovs seg F [] = True"
| "pieces iovs seg F (v # vs) = (piece iovs seg F v \<and> pieces iovs seg (F + unat (iov_len v)) vs)"

lemma pieces_append [simp]:
  "pieces iovs seg F (us @ vs) \<longleftrightarrow>
     pieces iovs seg F us \<and> pieces iovs seg (F + length (addrs us)) vs"
  by (induction us arbitrary: F) (simp_all add: add.assoc)

lemma piece_addrs:
  assumes "piece iovs seg F v"
  shows "span (iov_base v) (iov_len v) = take (unat (iov_len v)) (drop F (addrs iovs))"
    and "F + unat (iov_len v) \<le> length (addrs iovs)"
proof -
  obtain p where p: "p < length iovs" "pre iovs p \<le> F" "F + unat (iov_len v) \<le> pre iovs (Suc p)"
      "iov_base v = iov_base (iovs ! p) + of_nat (F - pre iovs p)"
    using assms by (auto simp: piece_def)
  have inside: "F - pre iovs p + unat (iov_len v) \<le> unat (iov_len (iovs ! p))"
    using p by (simp add: pre_Suc)
  show "F + unat (iov_len v) \<le> length (addrs iovs)"
    using p(3) pre_le [of iovs "Suc p"] by simp
  have "take (unat (iov_len v)) (drop F (addrs iovs))
      = take (unat (iov_len v)) (drop (F - pre iovs p) (span (iov_base (iovs ! p)) (iov_len (iovs ! p))))"
    using p(2) inside by (subst addrs_split [OF p(1)]) (simp add: pre_def)
  also have "\<dots> = span (iov_base v) (iov_len v)"
    by (rule nth_equalityI) (use inside p(4) in \<open>auto simp: span_def add.assoc\<close>)
  finally show "span (iov_base v) (iov_len v) = take (unat (iov_len v)) (drop F (addrs iovs))" ..
qed

lemma pieces_addrs:
  "pieces iovs seg F vs \<Longrightarrow> F \<le> length (addrs iovs) \<Longrightarrow>
     addrs vs = take (length (addrs vs)) (drop F (addrs iovs)) \<and> F + length (addrs vs) \<le> length (addrs iovs)"
proof (induction vs arbitrary: F)
  case (Cons v vs)
  note v = piece_addrs [of iovs seg F v]
  have IH: "addrs vs = take (length (addrs vs)) (drop (F + unat (iov_len v)) (addrs iovs))"
      "F + unat (iov_len v) + length (addrs vs) \<le> length (addrs iovs)"
    using Cons.IH [of "F + unat (iov_len v)"] Cons.prems v by simp_all
  have "addrs (v # vs) = take (unat (iov_len v)) (drop F (addrs iovs)) @
      take (length (addrs vs)) (drop (F + unat (iov_len v)) (addrs iovs))"
    using v(1) IH(1) Cons.prems by simp
  then show ?case using IH(2) by (simp add: take_add add.commute [of F])
qed simp

lemma pieces_elems: "pieces iovs seg F vs \<Longrightarrow> v \<in> set vs \<Longrightarrow> iov_len v \<noteq> 0 \<and> unat (iov_len v) \<le> unat seg"
  by (induction vs arbitrary: F) (auto simp: piece_def)

lemma pieces_pos: "pieces iovs seg F vs \<Longrightarrow> vs \<noteq> [] \<Longrightarrow> 0 < length (addrs vs)"
  by (cases vs) (auto simp: piece_def unat_eq_0)

lemma piece_shorten:
  assumes "piece iovs seg F v" and "0 < unat l" and "unat l \<le> unat (iov_len v)"
  shows "piece iovs seg F (v\<lparr>iov_len := l\<rparr>)"
  using assms unfolding piece_def by (auto intro: order_trans [OF add_left_mono])

section \<open>Filling the array\<close>

text \<open>The slice of an array.\<close>

abbreviation part :: "nat \<Rightarrow> nat \<Rightarrow> 'a list \<Rightarrow> 'a list" where
  "part start n xs \<equiv> take n (drop start xs)"

lemma part_Cons: "\<lbrakk>start < length xs; 0 < n\<rbrakk> \<Longrightarrow> part start n xs = xs ! start # part (Suc start) (n - 1) xs"
  by (cases n) (simp_all flip: Cons_nth_drop_Suc)

text \<open>The length of the next piece.\<close>

lemma fill_piece:
  assumes iovs: "small_list iovs" and at: "at iovs pos off F" and pos: "pos < length iovs"
    and seg: "seg \<noteq> 0" and bytes: "0 < bytes"
    and left: "left = iov_len (iovs ! pos) - ucast off"
    and len: "len = min (min (ucast left) seg) bytes"
  shows "piece iovs seg F \<lparr>iov_base = iov_base (iovs ! pos) + ucast off, iov_len = ucast len\<rparr>"
    and "unat len = min (min (unat (iov_len (iovs ! pos)) - unat off) (unat seg)) (unat bytes)"
    and "ucast len < left \<longleftrightarrow> unat len < unat (iov_len (iovs ! pos)) - unat off"
    and "0 < unat len"
proof -
  have o: "unat off < unat (iov_len (iovs ! pos))" and F: "F = pre iovs pos + unat off"
    using at pos by (auto simp: at_def)
  have l: "unat left = unat (iov_len (iovs ! pos)) - unat off"
    unfolding left by (subst unat_sub) (use o in \<open>simp_all add: word_le_nat_alt\<close>)
  moreover have "unat left < 4294967296" using l small_list_elem [OF iovs pos] by simp
  ultimately show n: "unat len = min (min (unat (iov_len (iovs ! pos)) - unat off) (unat seg)) (unat bytes)"
    by (simp add: len unat_min unat_ucast_u64_u32)
  show "ucast len < left \<longleftrightarrow> unat len < unat (iov_len (iovs ! pos)) - unat off"
    by (simp add: word_less_nat_alt l)
  have "0 < unat seg" and "0 < unat bytes" using seg bytes by (simp_all add: word_gt_0 unat_pos)
  then show p: "0 < unat len" unfolding n using o by simp
  have le: "unat len \<le> unat seg" "unat off + unat len \<le> unat (iov_len (iovs ! pos))"
    unfolding n using o by simp_all
  have nz: "ucast len \<noteq> (0 :: u64)" using p unat_ucast_u32_u64 [of len] by (metis less_irrefl unat_0)
  have "pre iovs pos \<le> F" "F + unat len \<le> pre iovs (Suc pos)"
      "of_nat (F - pre iovs pos) = (ucast off :: u64)"
    using le(2) pos by (simp_all add: F pre_Suc)
  with nz le(1) pos
  show "piece iovs seg F \<lparr>iov_base = iov_base (iovs ! pos) + ucast off, iov_len = ucast len\<rparr>"
    unfolding piece_def by (intro conjI exI [of _ pos]) simp_all
qed

text \<open>What filling the array from index \<open>cnt\<close> with up to \<open>sz - n\<close> pieces of \<open>bytes\<close> bytes leaves.\<close>

definition filled ::
  "iovec list \<Rightarrow> u32 \<Rightarrow> nat \<Rightarrow> nat \<Rightarrow> u32 \<Rightarrow> nat \<Rightarrow> nat \<Rightarrow> iovec list
     \<Rightarrow> u32 \<times> nat \<times> u32 \<times> nat \<times> nat \<times> iovec list \<Rightarrow> bool" where
  "filled iovs seg sz F bytes cnt n ci r \<longleftrightarrow> (case r of (bytes', pos', off', cnt', n', ci') \<Rightarrow>
     n \<le> n' \<and> n' \<le> sz \<and> cnt' = cnt + (n' - n) \<and>
     unat bytes' \<le> unat bytes \<and> (bytes' \<noteq> 0 \<longrightarrow> n' = sz) \<and>
     at iovs pos' off' (F + (unat bytes - unat bytes')) \<and>
     length ci' = length ci \<and> take cnt ci' = take cnt ci \<and>
     pieces iovs seg F (part cnt (n' - n) ci') \<and>
     length (addrs (part cnt (n' - n) ci')) = unat bytes - unat bytes')"

lemma filled_Cons:
  assumes r: "filled iovs seg sz (F + unat len) (bytes - len) (cnt + 1) (n + 1) (ci[cnt := v]) r"
    and v: "piece iovs seg F v" "iov_len v = ucast len" and len: "unat len \<le> unat bytes"
    and cnt: "cnt < length ci"
  shows "filled iovs seg sz F bytes cnt n ci r"
proof -
  obtain bytes' pos' off' cnt' n' ci' where eq: "r = (bytes', pos', off', cnt', n', ci')"
    by (cases r) auto
  have b: "unat (bytes - len) = unat bytes - unat len"
    using len by (simp add: unat_sub word_le_nat_alt)
  have n': "n + 1 \<le> n'" "length ci' = length ci" and tk: "take (cnt + 1) ci' = take (cnt + 1) (ci[cnt := v])"
    using r by (simp_all add: filled_def eq)
  have "ci' ! cnt = v" using tk cnt n' by (metis less_add_one nth_list_update_eq nth_take)
  then have sl: "part cnt (n' - n) ci' = v # part (cnt + 1) (n' - (n + 1)) ci'"
    using n' cnt by (simp add: part_Cons)
  have "take cnt ci' = take cnt (take (cnt + 1) ci')" by (simp add: min_def)
  also have "\<dots> = take cnt ci" unfolding tk by (simp add: min_def)
  finally show ?thesis
    using r len v n' by (auto simp: filled_def eq b add.assoc sl)
qed

lemma rw_fill_filled:
  assumes "small_list iovs" and "seg \<noteq> 0"
    and "at iovs pos off F" and "F + unat bytes \<le> length (addrs iovs)"
    and "cnt + (sz - n) \<le> length ci" and "n \<le> sz"
  shows "\<exists>r. rw_fill iovs seg sz bytes pos off cnt n ci = Inr r \<and> filled iovs seg sz F bytes cnt n ci r"
  using assms(3-)
proof (induction "sz - n" arbitrary: bytes pos off cnt n ci F)
  case 0
  then show ?case by (subst rw_fill.simps) (simp add: filled_def)
next
  case (Suc k)
  show ?case
  proof (cases "bytes = 0")
    case True
    then show ?thesis using Suc by (subst rw_fill.simps) (simp add: filled_def)
  next
    case False
    then have bytes: "0 < bytes" and pos: "pos < length iovs" and n: "n < sz"
      using Suc.prems Suc.hyps(2) at_less [of iovs pos off F] unat_pos [of bytes]
      by (auto simp: word_gt_0)
    define left where "left = iov_len (iovs ! pos) - ucast off"
    define len where "len = min (min (ucast left) seg) bytes"
    define v where "v = \<lparr>iov_base = iov_base (iovs ! pos) + ucast off, iov_len = ucast len\<rparr>"
    note piece = fill_piece [OF assms(1) Suc.prems(1) pos assms(2) bytes left_def len_def]
    have cnt: "cnt < length ci" using Suc.prems(3) n by simp
    have L: "unat len \<le> unat (iov_len (iovs ! pos)) - unat off" and o: "unat off < unat (iov_len (iovs ! pos))"
        and F: "F = pre iovs pos + unat off"
      unfolding piece(2) using Suc.prems(1) pos by (simp_all add: at_def)
    obtain pos' off' where step: "rw_fill iovs seg sz bytes pos off cnt n ci
          = rw_fill iovs seg sz (bytes - len) pos' off' (cnt + 1) (n + 1) (ci[cnt := v])"
        "at iovs pos' off' (F + unat len)"
    proof (cases "ucast len < left")
      case True
      then have "unat off + unat len < unat (iov_len (iovs ! pos))" using piece(3) o by simp
      moreover from this have "unat (off + len) = unat off + unat len"
        using small_list_elem(1) [OF assms(1) pos] by (simp add: unat_add_u32)
      ultimately have "at iovs pos (off + len) (F + unat len)" using pos F by (simp add: at_def)
      with True show ?thesis using bytes pos n cnt
        by (intro that [of pos "off + len"], subst rw_fill.simps) (simp_all add: Let_def left_def len_def v_def)
    next
      case False
      then have "F + unat len = pre iovs (Suc pos)" using piece(3) L F o pos by (simp add: pre_Suc)
      then have "at iovs (pos + 1) 0 (F + unat len)" using at_next [OF assms(1) pos] by simp
      with False show ?thesis using bytes pos n cnt
        by (intro that [of "pos + 1" 0], subst rw_fill.simps) (simp_all add: Let_def left_def len_def v_def)
    qed
    have le: "unat len \<le> unat bytes" unfolding piece(2) by simp
    have "\<exists>r. rw_fill iovs seg sz (bytes - len) pos' off' (cnt + 1) (n + 1) (ci[cnt := v]) = Inr r \<and>
        filled iovs seg sz (F + unat len) (bytes - len) (cnt + 1) (n + 1) (ci[cnt := v]) r"
      by (rule Suc.hyps(1)) (use Suc.hyps(2) Suc.prems step(2) le n in \<open>simp_all add: unat_sub word_le_nat_alt\<close>)
    then show ?thesis
      unfolding step(1) using filled_Cons [OF _ piece(1) _ le cnt, folded v_def] by (auto simp: v_def)
  qed
qed

section \<open>Giving bytes back\<close>

lemma at_back_same:
  assumes at: "at iovs pos off (G + unat (iov_len v))" and v: "piece iovs seg G v" and off: "off \<noteq> 0"
    and len: "unat len \<le> unat (iov_len v)" "0 < unat len"
  shows "at iovs pos (off - len) (G + unat (iov_len v) - unat len)"
proof -
  obtain p where p: "p < length iovs" "pre iovs p \<le> G" "G + unat (iov_len v) \<le> pre iovs (Suc p)"
    using v by (auto simp: piece_def)
  have pos: "pos < length iovs" and o: "unat off < unat (iov_len (iovs ! pos))"
      and F: "G + unat (iov_len v) = pre iovs pos + unat off"
    using at off by (auto simp: at_def split: if_splits)
  have "0 < unat off" using off by (simp add: unat_pos)
  then have "\<not> p < pos" using pre_mono [of "Suc p" pos iovs] p(3) F by (auto simp: Suc_le_eq)
  moreover have "\<not> pos < p" using pre_mono [of "Suc pos" p iovs] p(2) F o pos by (auto simp: Suc_le_eq pre_Suc)
  ultimately have "unat (iov_len v) \<le> unat off" using p F by simp
  then have "unat (off - len) = unat off - unat len" and "unat len \<le> unat off"
    using len by (auto simp: unat_sub word_le_nat_alt)
  then show ?thesis using pos o F by (auto simp: at_def)
qed

lemma at_back_prev:
  assumes iovs: "small_list iovs"
    and at: "at iovs pos 0 (G + unat (iov_len v))" and v: "piece iovs seg G v"
    and len: "unat len \<le> unat (iov_len v)" "0 < unat len"
  shows "0 < pos \<and> pos \<le> length iovs \<and>
    at iovs (pos - 1) (ucast (iov_len (iovs ! (pos - 1))) - len) (G + unat (iov_len v) - unat len)"
proof -
  obtain p where p: "p < length iovs" "pre iovs p \<le> G" "G + unat (iov_len v) \<le> pre iovs (Suc p)"
    using v by (auto simp: piece_def)
  have pos: "pos \<le> length iovs" and F: "G + unat (iov_len v) = pre iovs pos"
    using at by (auto simp: at_def)
  have "p < pos" using pre_mono [of pos p iovs] p(2) F len by (auto simp: not_less [symmetric])
  moreover have "\<not> Suc p < pos"
  proof
    assume "Suc p < pos"
    then have "pre iovs (Suc p) < pre iovs (Suc (Suc p))"
      using small_list_elem(2) [OF iovs, of "Suc p"] pos by (simp add: pre_Suc unat_pos)
    then show False using pre_mono [of "Suc (Suc p)" pos iovs] \<open>Suc p < pos\<close> p(3) F by simp
  qed
  ultimately have eq: "pos = Suc p" by simp
  let ?l = "iov_len (iovs ! p)"
  have l: "unat (ucast ?l :: u32) = unat ?l"
    using small_list_elem(1) [OF iovs p(1)] by (simp add: unat_ucast_u64_u32)
  have le: "unat (iov_len v) \<le> unat ?l" using p F by (simp add: eq pre_Suc)
  then have "unat (ucast ?l - len) = unat ?l - unat len"
    using l len by (subst unat_sub) (simp_all add: word_le_nat_alt)
  then show ?thesis using pos p F le len by (simp add: eq at_def pre_Suc)
qed

lemma at_back:
  assumes "small_list iovs" "at iovs pos off (G + unat (iov_len v))" "piece iovs seg G v"
    and "unat len \<le> unat (iov_len v)" "0 < unat len"
  shows "off = 0 \<Longrightarrow> 0 < pos \<and> pos \<le> length iovs"
    and "at iovs (if off = 0 then pos - 1 else pos)
      ((if off = 0 then ucast (iov_len (iovs ! (pos - 1))) else off) - len) (G + unat (iov_len v) - unat len)"
  using at_back_prev [OF assms(1) _ assms(3-)] at_back_same [OF assms(2,3) _ assms(4,5)] assms(2) by auto

lemma part_snoc: "\<lbrakk>0 < n; st + n \<le> length xs\<rbrakk> \<Longrightarrow> part st n xs = part st (n - 1) xs @ [xs ! (st + n - 1)]"
  by (cases n) (simp_all add: take_Suc_conv_app_nth)

lemma part_update [simp]: "part st n (xs[i := v]) = part st n xs" if "st + n \<le> i"
  using that by (simp add: drop_update_swap take_update_cancel)

lemma part_update_last:
  "st + n < length xs \<Longrightarrow> part st (Suc n) (xs[st + n := v]) = part st n xs @ [v]"
  using part_snoc [of "Suc n" st "xs[st + n := v]"] by simp

definition trimmed ::
  "iovec list \<Rightarrow> u32 \<Rightarrow> nat \<Rightarrow> nat \<Rightarrow> nat \<Rightarrow> nat \<Rightarrow> iovec list \<Rightarrow> bool \<times> nat \<times> u32 \<times> nat \<times> iovec list \<Rightarrow> bool" where
  "trimmed iovs seg F L st n ci r \<longleftrightarrow> (case r of (early, pos', off', n', ci') \<Rightarrow>
     length ci' = length ci \<and> take st ci' = take st ci \<and> (early \<longleftrightarrow> L = 0) \<and>
     (\<not> early \<longrightarrow> 0 < n' \<and> n' \<le> n \<and> at iovs pos' off' (F + L) \<and>
        pieces iovs seg F (part st n' ci') \<and> length (addrs (part st n' ci')) = L))"

lemma trimmed_mono:
  "\<lbrakk>trimmed iovs seg F L st (n - 1) ci' r; length ci' = length ci; take st ci' = take st ci\<rbrakk>
     \<Longrightarrow> trimmed iovs seg F L st n ci r"
  by (auto simp: trimmed_def)

lemma rw_trim_step:
  assumes "t \<noteq> 0" "0 < n" "cpos < length ci" "off = 0 \<Longrightarrow> 0 < pos \<and> pos \<le> length iovs"
    and "len = trim_len t (iov_len (ci ! cpos))" "left = iov_len (ci ! cpos) - ucast len"
    and "left = 0 \<Longrightarrow> n \<noteq> 1 \<and> cpos \<noteq> 0"
  shows "rw_trim iovs t cpos pos off n ci =
    rw_trim iovs (t - len) (if left = 0 then cpos - 1 else cpos) (if off = 0 then pos - 1 else pos)
      ((if off = 0 then ucast (iov_len (iovs ! (pos - 1))) else off) - len)
      (if left = 0 then n - 1 else n) (ci[cpos := (ci ! cpos)\<lparr>iov_len := left\<rparr>])"
proof -
  have c: "(0 < t \<and> 0 < n) = True" "(left = 0 \<and> n = 1) = False" "(left = 0 \<and> cpos = 0) = False"
      "(off = 0 \<and> \<not> (0 < pos \<and> pos \<le> length iovs)) = False" "(cpos < length ci) = True"
    using assms by (auto simp: word_gt_0)
  show ?thesis
    by (subst rw_trim.simps) (simp only: Let_def c if_True if_False flip: assms(5,6))
qed

text \<open>The last element of the child keeps a part, or is given back as a whole.\<close>

lemma rw_trim_last_part:
  assumes iovs: "small_list iovs" and st: "st + n < length ci" and t: "t \<noteq> 0" "unat t < unat (iov_len v)"
    and v: "v = ci ! (st + n)" "piece iovs seg (F + length (addrs (part st n ci))) v"
    and front: "pieces iovs seg F (part st n ci)"
    and at: "at iovs pos off (F + length (addrs (part st n ci)) + unat (iov_len v))"
  shows "\<exists>r. rw_trim iovs t (st + n) pos off (Suc n) ci = Inr r \<and>
    trimmed iovs seg F (length (addrs (part st n ci)) + unat (iov_len v) - unat t) st (Suc n) ci r"
proof -
  have len: "trim_len t (iov_len v) = t" using t(2) by (simp add: unat_eq_iff unat_trim_len)
  have left: "unat (iov_len v - ucast t) = unat (iov_len v) - unat t" using unat_trim_left [of "iov_len v" t] by (simp add: len)
  have nz: "iov_len v - ucast t \<noteq> 0" using left t(2) by (metis unat_0 zero_less_diff less_irrefl)
  have t0: "0 < unat t" "unat t \<le> unat (iov_len v)" using t by (simp_all add: unat_pos)
  note retreat = at_back [OF iovs at v(2) t0(2,1)]
  let ?pos = "if off = 0 then pos - 1 else pos"
  let ?off = "(if off = 0 then ucast (iov_len (iovs ! (pos - 1))) else off) - t"
  let ?v = "v\<lparr>iov_len := iov_len v - ucast t\<rparr>"
  have "rw_trim iovs t (st + n) pos off (Suc n) ci = rw_trim iovs 0 (st + n) ?pos ?off (Suc n) (ci[st + n := ?v])"
    using rw_trim_step [OF t(1) zero_less_Suc st retreat(1) len [symmetric, unfolded v(1)] refl] nz
    by (simp add: v(1))
  also have "\<dots> = Inr (False, ?pos, ?off, Suc n, ci[st + n := ?v])" by (simp add: rw_trim.simps [of _ 0])
  finally have "rw_trim iovs t (st + n) pos off (Suc n) ci = Inr (False, ?pos, ?off, Suc n, ci[st + n := ?v])" .
  moreover have "trimmed iovs seg F (length (addrs (part st n ci)) + unat (iov_len v) - unat t) st (Suc n) ci
      (False, ?pos, ?off, Suc n, ci[st + n := ?v])"
    using part_update_last [OF st, of ?v] st retreat(2) front piece_shorten [OF v(2)] left t(2) nz
    by (simp add: trimmed_def unat_pos add.assoc split: if_splits)
  ultimately show ?thesis by simp
qed

lemma rw_trim_last_whole:
  assumes iovs: "small_list iovs" and st: "st + n < length ci" and t: "t \<noteq> 0" "unat (iov_len v) \<le> unat t"
    and v: "v = ci ! (st + n)" "piece iovs seg (F + length (addrs (part st n ci))) v"
    and at: "at iovs pos off (F + length (addrs (part st n ci)) + unat (iov_len v))"
  shows "n = 0 \<Longrightarrow> rw_trim iovs t (st + n) pos off (Suc n) ci = Inr (True, pos, off, 0, ci[st + n := v\<lparr>iov_len := 0\<rparr>])"
    and "0 < n \<Longrightarrow> \<exists>pos' off' t'. rw_trim iovs t (st + n) pos off (Suc n) ci =
        rw_trim iovs t' (st + n - 1) pos' off' n (ci[st + n := v\<lparr>iov_len := 0\<rparr>]) \<and>
      unat t' = unat t - unat (iov_len v) \<and> at iovs pos' off' (F + length (addrs (part st n ci)))"
proof -
  define len where "len = trim_len t (iov_len v)"
  have len: "unat len = unat (iov_len v)" using t(2) by (simp add: len_def unat_trim_len)
  have z: "iov_len v - ucast len = 0" using unat_trim_left [of "iov_len v" t] t(2) by (simp add: len_def unat_eq_iff)
  then have lv: "iov_len v = ucast len" by simp
  have tl: "trim_len t (ucast len) = len" by (subst lv [symmetric]) (rule len_def [symmetric])
  show "rw_trim iovs t (st + n) pos off (Suc n) ci = Inr (True, pos, off, 0, ci[st + n := v\<lparr>iov_len := 0\<rparr>])" if "n = 0"
  proof -
    have ci: "ci ! st = v" using v(1) that by simp
    show ?thesis
      unfolding that by (subst rw_trim.simps) (use t(1) st that in \<open>simp add: Let_def word_gt_0 ci lv tl\<close>)
  qed
  have "0 < unat (iov_len v)" using v(2) by (simp add: piece_def unat_pos)
  then have "unat len \<le> unat (iov_len v)" "0 < unat len" using len by simp_all
  note retreat = at_back [OF iovs at v(2) this]
  have l: "len = trim_len t (iov_len (ci ! (st + n)))" "0 = iov_len (ci ! (st + n)) - ucast len"
    using z by (simp_all only: len_def v(1))
  have t': "unat (t - len) = unat t - unat (iov_len v)" using len t(2) by (simp add: unat_sub word_le_nat_alt)
  show "\<exists>pos' off' t'. rw_trim iovs t (st + n) pos off (Suc n) ci =
        rw_trim iovs t' (st + n - 1) pos' off' n (ci[st + n := v\<lparr>iov_len := 0\<rparr>]) \<and>
      unat t' = unat t - unat (iov_len v) \<and> at iovs pos' off' (F + length (addrs (part st n ci)))" if "0 < n"
    using rw_trim_step [OF t(1) zero_less_Suc st retreat(1) l] retreat(2) that t' len
    by (intro exI conjI) (simp_all add: v(1) [symmetric])
qed

lemma rw_trim_trimmed:
  assumes iovs: "small_list iovs"
    and "pieces iovs seg F (part st n ci)" "L = length (addrs (part st n ci))"
    and "at iovs pos off (F + L)" "unat t \<le> L" "0 < n" "st + n \<le> length ci"
  shows "\<exists>r. rw_trim iovs t (st + n - 1) pos off n ci = Inr r \<and> trimmed iovs seg F (L - unat t) st n ci r"
  using assms(2-)
proof (induction n arbitrary: t pos off ci L)
  case (Suc n)
  define v where "v = ci ! (st + n)"
  have st: "st + n < length ci" using Suc.prems(6) by simp
  have part: "part st (Suc n) ci = part st n ci @ [v]"
    using part_snoc [of "Suc n" st ci] Suc.prems(6) by (simp add: v_def)
  let ?G = "F + length (addrs (part st n ci))"
  have v: "piece iovs seg ?G v" and L: "L = length (addrs (part st n ci)) + unat (iov_len v)"
    and front: "pieces iovs seg F (part st n ci)"
    using Suc.prems(1,2) by (simp_all add: part)
  have at: "at iovs pos off (?G + unat (iov_len v))" using Suc.prems(3) L by (simp add: add.assoc)
  consider "t = 0" | "t \<noteq> 0" "unat t < unat (iov_len v)" | "t \<noteq> 0" "unat (iov_len v) \<le> unat t" by linarith
  then show ?case
  proof cases
    case 1
    have "0 < unat (iov_len v)" using v by (simp add: piece_def unat_pos)
    then show ?thesis using 1 Suc.prems L by (subst rw_trim.simps) (auto simp: trimmed_def part)
  next
    case 2
    then show ?thesis using rw_trim_last_part [OF iovs st 2 v_def v front at] by (simp add: L)
  next
    case 3
    note whole = rw_trim_last_whole [OF iovs st 3 v_def v at]
    let ?ci = "ci[st + n := v\<lparr>iov_len := 0\<rparr>]"
    show ?thesis
    proof (cases "n = 0")
      case True
      then have "L = unat t" using Suc.prems(4) L 3 by simp
      then show ?thesis using whole(1) True by (simp add: trimmed_def)
    next
      case False
      then obtain pos' off' t' where eq: "rw_trim iovs t (st + n) pos off (Suc n) ci = rw_trim iovs t' (st + n - 1) pos' off' n ?ci"
          and t': "unat t' = unat t - unat (iov_len v)" and at': "at iovs pos' off' ?G"
        using whole(2) by blast
      have "unat t' \<le> length (addrs (part st n ci))" using t' L Suc.prems(4) by simp
      then have "\<exists>r. rw_trim iovs t' (st + n - 1) pos' off' n ?ci = Inr r \<and>
          trimmed iovs seg F (length (addrs (part st n ci)) - unat t') st n ?ci r"
        using False st at' front by (intro Suc.IH) simp_all
      then obtain r where r: "rw_trim iovs t' (st + n - 1) pos' off' n ?ci = Inr r"
          "trimmed iovs seg F (length (addrs (part st n ci)) - unat t') st n ?ci r" by blast
      have "length (addrs (part st n ci)) - unat t' = L - unat t" using t' L 3 by simp
      then have "trimmed iovs seg F (L - unat t) st (Suc n) ci r"
        using trimmed_mono [of iovs seg F _ st "Suc n" ?ci r ci] r(2) by simp
      then show ?thesis using eq r(1) by simp
    qed
  qed
qed simp

section \<open>One child\<close>

text \<open>A child of \<open>k\<close> blocks of \<open>bl\<close> bytes at flat position \<open>F\<close>, with its list at index \<open>cnt\<close> of the
  array.\<close>

definition child_cut ::
  "iovec list \<Rightarrow> u32 \<Rightarrow> nat \<Rightarrow> nat \<Rightarrow> nat \<Rightarrow> iovec list \<Rightarrow> u32 \<times> nat \<times> nat \<times> u32 \<Rightarrow> bool" where
  "child_cut iovs seg bl F cnt ci r \<longleftrightarrow> (case r of (k, n, pos, off) \<Rightarrow>
     0 < unat k \<and> at iovs pos off (F + unat k * bl) \<and> pieces iovs seg F (part cnt n ci) \<and>
     length (addrs (part cnt n ci)) = unat k * bl)"

text \<open>The arithmetic of the cut: of \<open>k\<close> blocks \<open>b\<close> bytes did not fit, and \<open>t\<close> bytes are given back.\<close>

lemma cut_blocks:
  fixes k bl b t :: nat
  assumes "0 < bl" and "b \<le> k * bl" and "t = (if b mod bl = 0 then 0 else bl - b mod bl)"
  shows "b + t \<le> k * bl" and "(k - (b + t) div bl) * bl = k * bl - b - t"
proof -
  have "b mod bl < bl" using assms(1) by simp
  then have "b + t = (b div bl + (if b mod bl = 0 then 0 else 1)) * bl"
    using div_mult_mod_eq [of b bl] assms(3) by (cases "b mod bl = 0", simp, simp add: distrib_right, linarith)
  then obtain q where q: "b + t = q * bl" ..
  have "b + t < k * bl + bl" using assms by (auto intro!: add_le_less_mono)
  then have "q * bl < Suc k * bl" unfolding q by simp
  then have "q \<le> k" by (simp only: mult_less_cancel2 less_Suc_eq_le)
  then show "b + t \<le> k * bl" unfolding q by simp
  show "(k - (b + t) div bl) * bl = k * bl - b - t"
    using assms(1) by (simp add: diff_diff_eq q diff_mult_distrib)
qed

lemma le_diff: "(a :: nat) + b \<le> c \<Longrightarrow> b \<le> c - a"
  by simp

lemma rw_align_cut:
  assumes iovs: "small_list iovs" and bl: "0 < unat bl"
    and k: "0 < unat k" "unat k * unat bl < 4294967296"
    and fill: "filled iovs seg sz F (k * bl) cnt 0 ci (bytes, pos, off, cnt', n, ci')"
    and sz: "0 < sz" "cnt + sz \<le> length ci"
  shows "\<exists>ci'' r. rw_align iovs bl sz k bytes pos off cnt' n ci' = Inr (ci'', r) \<and>
    length ci'' = length ci \<and> take cnt ci'' = take cnt ci \<and>
    (\<forall>k' n' pos' off'. r = Some (k', n', pos', off') \<longrightarrow>
       unat k' \<le> unat k \<and> n' \<le> n \<and> child_cut iovs seg (unat bl) F cnt ci'' (k', n', pos', off'))"
proof -
  have kb: "unat (k * bl) = unat k * unat bl" using k(2) unat_mult_lem [of k bl] by simp
  have f: "n \<le> sz" "cnt' = cnt + n" "unat bytes \<le> unat k * unat bl" "bytes \<noteq> 0 \<Longrightarrow> n = sz"
      "at iovs pos off (F + (unat k * unat bl - unat bytes))" "length ci' = length ci" "take cnt ci' = take cnt ci"
      "pieces iovs seg F (part cnt n ci')" "length (addrs (part cnt n ci')) = unat k * unat bl - unat bytes"
    using fill unfolding filled_def kb by auto
  have m: "unat (bytes mod bl) = unat bytes mod unat bl" by (simp add: unat_mod_distrib)
  have ml: "unat bytes mod unat bl < unat bl" using bl by (rule mod_less_divisor)
  have rest: "unat (k - d) * unat bl = unat k * unat bl - unat bytes - t \<and> unat (k - d) \<le> unat k"
    if "t = (if unat bytes mod unat bl = 0 then 0 else unat bl - unat bytes mod unat bl)"
      and "unat d = (unat bytes + t) div unat bl" for d t
  proof -
    note c = cut_blocks [OF bl f(3) that(1)]
    have "unat d \<le> unat k" unfolding that(2) using div_le_mono [OF c(1), of "unat bl"] bl by simp
    then have "unat (k - d) = unat k - unat d" by (simp add: unat_sub word_le_nat_alt)
    then show ?thesis using c(2) that(2) by simp
  qed
  consider "bytes = 0" | "bytes \<noteq> 0" "bytes mod bl = 0" | "bytes \<noteq> 0" "bytes mod bl \<noteq> 0" by blast
  then show ?thesis
  proof cases
    case 1
    then show ?thesis using f k by (simp add: rw_align_full child_cut_def)
  next
    case 2
    have m0: "unat bytes mod unat bl = 0" using 2(2) m by simp
    have "0 < unat k * unat bl - unat bytes"
      using pieces_pos [OF f(8)] f(4) [OF 2(1)] sz f(6) unfolding f(9) by simp
    moreover have "unat (k - bytes div bl) * unat bl = unat k * unat bl - unat bytes"
        "unat (k - bytes div bl) \<le> unat k"
      using rest [of 0 "bytes div bl"] m0 by (simp_all add: unat_div_distrib)
    ultimately show ?thesis
      using 2 f by (auto simp: rw_align_def child_cut_def word_gt_0 intro!: gr0I)
  next
    case 3
    define t where "t = bl - bytes mod bl"
    have m0: "unat bytes mod unat bl \<noteq> 0" using 3(2) m by (metis unat_eq_iff unat_0)
    have t: "unat t = unat bl - unat bytes mod unat bl"
      using ml m by (simp add: t_def unat_sub word_le_nat_alt)
    have le: "unat bytes + unat t \<le> unat k * unat bl"
      using cut_blocks(1) [OF bl f(3) refl] m0 by (simp add: t)
    then have "unat (bytes + t) = unat bytes + unat t" using k by (simp add: unat_add_u32)
    then have k': "unat (k - (bytes + t) div bl) * unat bl = unat k * unat bl - unat bytes - unat t"
        "unat (k - (bytes + t) div bl) \<le> unat k"
      using rest [of "unat t" "(bytes + t) div bl"] m0 by (simp_all add: unat_div_distrib t)
    have n: "0 < n" "cnt + n \<le> length ci'" using f(4) [OF 3(1)] sz f(6) by simp_all
    obtain r where r: "rw_trim iovs t (cnt + n - 1) pos off n ci' = Inr r"
        "trimmed iovs seg F (unat k * unat bl - unat bytes - unat t) cnt n ci' r"
      using rw_trim_trimmed [OF iovs f(8) refl, unfolded f(9), OF f(5) le_diff [OF le] n] by blast
    obtain early pos' off' n' ci'' where [simp]: "r = (early, pos', off', n', ci'')" by (cases r)
    have "rw_align iovs bl sz k bytes pos off cnt' n ci' =
        (if early then Inr (ci'', None) else Inr (ci'', Some (k - (bytes + t) div bl, n', pos', off')))"
      using 3 f(4) [OF 3(1)] r(1) by (simp add: rw_align_def f(2) word_gt_0 flip: t_def)
    then show ?thesis
      using r(2) k' f(6,7) by (cases early) (auto simp: trimmed_def child_cut_def intro!: gr0I)
  qed
qed

definition cut_result ::
  "split_bdev \<Rightarrow> split_io \<Rightarrow> u64 \<Rightarrow> u64 \<Rightarrow> nat \<Rightarrow> nat \<Rightarrow> nat \<times> iovec list \<times> (u32 \<times> nat \<times> nat \<times> u32) option \<Rightarrow> bool" where
  "cut_result b io cur rem F cnt res \<longleftrightarrow> (case res of (cnt', ci', r) \<Rightarrow>
     length ci' = SPDK_BDEV_IO_NUM_CHILD_IOV \<and> take cnt ci' = take cnt (sp_child_iov io) \<and>
     cnt' \<le> SPDK_BDEV_IO_NUM_CHILD_IOV \<and>
     (\<forall>k n pos' off'. r = Some (k, n, pos', off') \<longrightarrow>
        unat k \<le> unat rem \<and> unat k \<le> unat (rw_max_size b) \<and> n \<le> rw_max_child_iovcnt b \<and> cnt + n \<le> cnt' \<and>
        unat k \<le> unat (rw_io_boundary b (sp_type io)) - unat cur mod unat (rw_io_boundary b (sp_type io)) \<and>
        child_cut (sp_iovs io) (rw_max_segment_size b) (unat (bdev_io_get_block_size b io)) F cnt ci' (k, n, pos', off')))"

lemma rw_child_cut:
  assumes iovs: "small_list (sp_iovs io)" and bl: "bdev_io_get_block_size b io \<noteq> 0"
    and boundary: "rw_io_boundary b (sp_type io) \<noteq> 0" and rem: "0 < unat rem"
    and F: "F + unat rem * unat (bdev_io_get_block_size b io) \<le> length (addrs (sp_iovs io))"
    and at: "at (sp_iovs io) pos off F"
    and cnt: "cnt < SPDK_BDEV_IO_NUM_CHILD_IOV" and ci: "length (sp_child_iov io) = SPDK_BDEV_IO_NUM_CHILD_IOV"
  shows "\<exists>r. rw_child b io cur rem pos off cnt = Inr r \<and> cut_result b io cur rem F cnt r"
proof -
  let ?iovs = "sp_iovs io" and ?bl = "bdev_io_get_block_size b io" and ?seg = "rw_max_segment_size b"
  define sz where "sz = min (SPDK_BDEV_IO_NUM_CHILD_IOV - cnt) (rw_max_child_iovcnt b)"
  have sz: "0 < sz" "sz \<le> rw_max_child_iovcnt b" "cnt + sz \<le> length (sp_child_iov io)"
    using cnt ci rw_max_child_iovcnt_pos [of b] by (auto simp: sz_def)
  obtain t where t: "to_next_boundary cur (rw_io_boundary b (sp_type io)) = Inr t"
    using boundary by (auto simp: to_next_boundary_def)
  note tb = to_next_boundary_bounds [OF t]
  define k where "k = min (rw_max_size b) (ucast (min rem (ucast t)))"
  have k: "unat k = min (unat (rw_max_size b)) (min (unat rem) (unat t))" by (simp add: k_def unat_child_blocks)
  have k0: "0 < unat k" unfolding k using rem tb(2) rw_max_size_pos [of b] by (simp add: unat_pos)
  have bl0: "0 < unat ?bl" using bl by (simp add: unat_pos)
  have "unat k * unat ?bl \<le> unat rem * unat ?bl" by (rule mult_le_mono1) (simp add: k)
  then have kb: "F + unat k * unat ?bl \<le> length (addrs ?iovs)" "unat k * unat ?bl < 4294967296"
    using F iovs unfolding small_list_def by linarith+
  have u: "unat (k * ?bl) = unat k * unat ?bl" using kb(2) unat_mult_lem [of k ?bl] by simp
  obtain bytes p f c n ci' where fill:
      "rw_fill ?iovs ?seg sz (k * ?bl) pos off cnt 0 (sp_child_iov io) = Inr (bytes, p, f, c, n, ci')"
      "filled ?iovs ?seg sz F (k * ?bl) cnt 0 (sp_child_iov io) (bytes, p, f, c, n, ci')"
    using rw_fill_filled [OF iovs rw_max_segment_size_pos at, of "k * ?bl" cnt sz 0 "sp_child_iov io" b] kb(1) sz(3) u
    by auto
  obtain ci'' r where align: "rw_align ?iovs ?bl sz k bytes p f c n ci' = Inr (ci'', r)"
      "length ci'' = length (sp_child_iov io)" "take cnt ci'' = take cnt (sp_child_iov io)"
      "\<forall>k' n' pos' off'. r = Some (k', n', pos', off') \<longrightarrow>
         unat k' \<le> unat k \<and> n' \<le> n \<and> child_cut ?iovs ?seg (unat ?bl) F cnt ci'' (k', n', pos', off')"
    using rw_align_cut [OF iovs bl0 k0 kb(2) fill(2) sz(1,3)] by blast
  have child: "rw_child b io cur rem pos off cnt = Inr (c, ci'', r)"
    using t fill(1) align(1) by (simp add: rw_child_def Let_def flip: sz_def k_def)
  have "n \<le> sz" "c = cnt + n" using fill(2) by (simp_all add: filled_def)
  moreover have "unat k \<le> unat rem" "unat k \<le> unat (rw_max_size b)" "unat k \<le> unat t" by (simp_all add: k)
  ultimately have "cut_result b io cur rem F cnt (c, ci'', r)"
    using align(2-4) sz(2,3) ci tb(1) unfolding cut_result_def by fastforce
  with child show ?thesis by blast
qed

end
