(* ===== verification/Bdev_Split_Inv.thy ===== *)
theory Bdev_Split_Inv
  imports Bdev_Split_Dec Bdev_Split_Rw
begin

text \<open>
  The invariant of a split I/O: its children are adjacent, stay within the limits of the device and
  carry the addresses of the parent; and the contract of a round of submissions, the locale
  \<open>split_rounds\<close>, which the rounds of all I/O types meet.
\<close>

section \<open>Requests and children\<close>

abbreviation is_rw :: "io_type \<Rightarrow> bool" where
  "is_rw t \<equiv> t = IO_READ \<or> t = IO_WRITE"

text \<open>A child as an I/O of its own.\<close>

definition child_io :: "split_io \<Rightarrow> split_child \<Rightarrow> split_io" where
  "child_io io c =
     io\<lparr>sp_offset_blocks := c_offset_blocks c, sp_num_blocks := c_num_blocks c,
        sp_src_offset_blocks := c_src_offset_blocks c, sp_iovs := c_iovs c\<rparr>"

definition child_ok :: "split_bdev \<Rightarrow> split_io \<Rightarrow> split_child \<Rightarrow> bool" where
  "child_ok b io c \<longleftrightarrow>
     \<not> bdev_io_should_split b (child_io io c) \<and>
     c_src_offset_blocks c = sp_src_offset_blocks io + (c_offset_blocks c - sp_offset_blocks io) \<and>
     (is_rw (sp_type io) \<longrightarrow>
        c_md_buf c = child_md_buf b io (c_offset_blocks c) \<and>
        length (addrs (c_iovs c)) = unat (c_num_blocks c) * unat (bdev_io_get_block_size b io) \<and>
        addrs (c_iovs c) =
          take (unat (c_num_blocks c) * unat (bdev_io_get_block_size b io))
            (drop ((unat (c_offset_blocks c) - unat (sp_offset_blocks io)) * unat (bdev_io_get_block_size b io))
              (addrs (sp_iovs io))))"

text \<open>Children that follow each other from block \<open>o\<close> on, and their number of blocks.\<close>

fun contiguous :: "nat \<Rightarrow> split_child list \<Rightarrow> bool" where
  "contiguous off [] = True"
| "contiguous off (c # cs) =
     (unat (c_offset_blocks c) = off \<and> 0 < unat (c_num_blocks c) \<and> contiguous (off + unat (c_num_blocks c)) cs)"

definition blocks :: "split_child list \<Rightarrow> nat" where
  "blocks cs = sum_list (map (\<lambda>c. unat (c_num_blocks c)) cs)"

lemma blocks_simps [simp]:
  "blocks [] = 0" "blocks (c # cs) = unat (c_num_blocks c) + blocks cs" "blocks (cs @ ds) = blocks cs + blocks ds"
  by (simp_all add: blocks_def)

lemma contiguous_append [simp]:
  "contiguous off (cs @ ds) \<longleftrightarrow> contiguous off cs \<and> contiguous (off + blocks cs) ds"
  by (induction cs arbitrary: off) (auto simp: add.assoc)

text \<open>The parts of an I/O that its splitting does not change.\<close>

definition req :: "split_io \<Rightarrow> _" where
  "req io = (sp_type io, sp_offset_blocks io, sp_num_blocks io, sp_iovs io, sp_md_buf io,
     sp_src_offset_blocks io, sp_pract io, sp_hide_metadata io, sp_desc_write io, sp_split io,
     sp_accel_sequence io, sp_cb_is_split_done io)"

lemma block_size_req: "req s = req t \<Longrightarrow> bdev_io_get_block_size b s = bdev_io_get_block_size b t"
  by (simp add: req_def bdev_io_get_block_size_def)

lemma should_split_req:
  assumes "req s = req t"
  shows "bdev_io_should_split b s = bdev_io_should_split b t"
proof -
  have "bdev_rw_should_split b s = bdev_rw_should_split b t"
      "bdev_unmap_should_split b s = bdev_unmap_should_split b t"
      "bdev_write_zeroes_should_split b s = bdev_write_zeroes_should_split b t"
      "bdev_copy_should_split b s = bdev_copy_should_split b t" "sp_type s = sp_type t"
    using assms by (simp_all add: req_def bdev_rw_should_split_def bdev_unmap_should_split_def
        bdev_write_zeroes_should_split_def bdev_copy_should_split_def)
  then show ?thesis by (cases "sp_type t") (simp_all add: bdev_io_should_split_def)
qed

lemma child_ok_req: "req s = req t \<Longrightarrow> child_ok b s c = child_ok b t c"
proof -
  assume r: "req s = req t"
  then have "req (child_io s c) = req (child_io t c)" by (simp add: req_def child_io_def)
  moreover have "child_md_buf b s x = child_md_buf b t x" for x
    using r by (simp add: req_def child_md_buf_def)
  ultimately show ?thesis
    using r block_size_req [OF r, of b] should_split_req [of "child_io s c" "child_io t c" b]
    by (simp add: child_ok_def req_def)
qed

section \<open>Accepted I/O\<close>

text \<open>The I/O has passed the checks of the function it was submitted with, as a child will.\<close>

definition full_pool :: mgmt_ch where
  "full_pool = \<lparr>per_thread_cache_count = 1, io_wait_queue_empty = True, bdev_io_pool_count = 0\<rparr>"

definition accepted :: "split_bdev \<Rightarrow> split_io \<Rightarrow> bool" where
  "accepted b io \<longleftrightarrow>
     submit_rc b full_pool io (sp_offset_blocks io) (sp_src_offset_blocks io) (sp_num_blocks io) = Inr None"

lemmas rc_defs = submit_rc_def readv_blocks_rc_def writev_blocks_rc_def unmap_blocks_rc_def
  write_zeroes_blocks_rc_def copy_blocks_rc_def

lemma accepted_range: "accepted b io \<Longrightarrow> unat (sp_offset_blocks io) + unat (sp_num_blocks io) \<le> unat (bd_blockcnt b)"
  by (auto simp: accepted_def rc_defs valid_blocks_iff split: io_type.splits if_splits)

lemma accepted_req: "req s = req t \<Longrightarrow> accepted b s = accepted b t"
  by (cases "sp_type t") (simp_all add: req_def accepted_def submit_rc_def)

text \<open>A part of an accepted I/O is refused only for lack of an I/O object.\<close>

lemma submit_rc_part:
  assumes acc: "accepted b io" and "req io' = req io"
    and "unat (sp_offset_blocks io) \<le> unat off"
    and "unat off + unat k \<le> unat (sp_offset_blocks io) + unat (sp_num_blocks io)"
  shows "submit_rc b m io' off (sp_src_offset_blocks io + (off - sp_offset_blocks io)) k =
    Inr (if bdev_channel_get_io m then None else Some ENOMEM)"
proof -
  have "unat (off - sp_offset_blocks io) = unat off - unat (sp_offset_blocks io)"
    using assms(3) by (simp add: unat_sub word_le_nat_alt)
  moreover have "unat (sp_src_offset_blocks io + (off - sp_offset_blocks io)) \<le>
      unat (sp_src_offset_blocks io) + unat (off - sp_offset_blocks io)"
    by (simp add: unat_word_ariths)
  ultimately show ?thesis
    using assms by (auto simp: accepted_def rc_defs valid_blocks_iff req_def split: io_type.splits if_splits)
qed

section \<open>The invariant\<close>

text \<open>What is required of the device and the request: the I/O is not empty, the limits do not overflow
  32 bits, a read or write is shorter than 4 GiB, and a boundary that is to be kept is not 0. The
  accel sequence has been put off (\<open>submit_ext_sequence_clears\<close>), and the I/O is not the child of
  another one: children need no further splitting (\<open>child_ok\<close>).\<close>

definition split_conf :: "split_bdev \<Rightarrow> split_io \<Rightarrow> bool" where
  "split_conf b io \<longleftrightarrow>
     sp_split io \<and> \<not> sp_accel_sequence io \<and> \<not> sp_cb_is_split_done io \<and>
     accepted b io \<and> sp_num_blocks io \<noteq> 0 \<and>
     (case sp_type io of
        IO_UNMAP \<Rightarrow> 0 < unat (bd_max_unmap b) * unat (bd_max_unmap_segments b) \<and>
          unat (bd_max_unmap b) * unat (bd_max_unmap_segments b) < 4294967296
      | IO_WRITE_ZEROES \<Rightarrow> bd_max_write_zeroes b \<noteq> 0
      | IO_COPY \<Rightarrow> bd_max_copy b \<noteq> 0
      | _ \<Rightarrow> bdev_io_get_block_size b io \<noteq> 0 \<and> rw_io_boundary b (sp_type io) \<noteq> 0 \<and>
          unat (bd_max_num_segments b) < 2147483648 \<and>
          unat (sp_num_blocks io) * unat (bdev_io_get_block_size b io) < 4294967296)"

definition rw_list :: "split_bdev \<Rightarrow> split_io \<Rightarrow> bool" where
  "rw_list b io \<longleftrightarrow> is_rw (sp_type io) \<longrightarrow> small_list (sp_iovs io) \<and>
     unat (sp_num_blocks io) * unat (bdev_io_get_block_size b io) \<le> length (addrs (sp_iovs io))"

definition pending :: "split_child \<times> io_status \<Rightarrow> bool" where
  "pending p \<longleftrightarrow> snd p = STATUS_PENDING"

definition split_base :: "split_bdev \<Rightarrow> split_io \<Rightarrow> bool" where
  "split_base b io \<longleftrightarrow>
     split_conf b io \<and> (sp_has_accel_sequence io \<longrightarrow> is_rw (sp_type io)) \<and>
     contiguous (unat (sp_offset_blocks io)) (map fst (sp_children io)) \<and>
     (\<forall>p\<in>set (sp_children io). child_ok b io (fst p)) \<and>
     unat (sp_current_offset_blocks io) + unat (sp_remaining_num_blocks io)
       = unat (sp_offset_blocks io) + unat (sp_num_blocks io) \<and>
     unat (sp_outstanding io) = length (filter pending (sp_children io)) \<and>
     (sp_status io = STATUS_SUCCESS \<longrightarrow> (\<forall>p\<in>set (sp_children io). pending p \<or> snd p = STATUS_SUCCESS)) \<and>
     length (sp_child_iov io) = SPDK_BDEV_IO_NUM_CHILD_IOV \<and>
     (\<forall>p\<in>set (sp_children io). pending p \<longrightarrow>
        part (c_iov (fst p)) (c_iovcnt (fst p)) (sp_child_iov io) = c_iovs (fst p))"

text \<open>The parent during a round, and between its events.\<close>

definition running :: "split_bdev \<Rightarrow> split_io \<Rightarrow> bool" where
  "running b io \<longleftrightarrow>
     split_base b io \<and> rw_list b io \<and> sp_cb io = [] \<and> sp_submitted io \<and> \<not> sp_waiting io \<and>
     \<not> sp_getting_buf io \<and> sp_finishing io = None \<and> sp_status io = STATUS_SUCCESS \<and>
     blocks (map fst (sp_children io)) + unat (sp_remaining_num_blocks io) = unat (sp_num_blocks io)"

definition settled :: "split_bdev \<Rightarrow> split_io \<Rightarrow> bool" where
  "settled b io \<longleftrightarrow>
     split_base b io \<and>
     (if sp_cb io = [] then
        sp_submitted io = (sp_finishing io = None) \<and>
        (sp_getting_buf io \<or> rw_list b io) \<and>
        (sp_status io = STATUS_SUCCESS \<and>
           blocks (map fst (sp_children io)) + unat (sp_remaining_num_blocks io) = unat (sp_num_blocks io)
         \<or> sp_status io \<noteq> STATUS_SUCCESS \<and> sp_status io \<noteq> STATUS_PENDING \<and>
           blocks (map fst (sp_children io)) \<le> unat (sp_num_blocks io) \<and>
           sp_remaining_num_blocks io = 0 \<and> sp_outstanding io \<noteq> 0) \<and>
        (if sp_outstanding io \<noteq> 0 then \<not> sp_waiting io \<and> \<not> sp_getting_buf io \<and> sp_finishing io = None
         else if sp_waiting io
         then \<not> sp_getting_buf io \<and> sp_finishing io = None \<and> sp_remaining_num_blocks io \<noteq> 0
         else if sp_getting_buf io
         then sp_finishing io = None \<and> sp_children io = [] \<and> sp_type io = IO_READ \<and> length (sp_iovs io) \<le> 1
         else sp_finishing io \<noteq> None \<and> sp_remaining_num_blocks io = 0)
      else (\<exists>r. sp_cb io = [r] \<and>
          (r \<longrightarrow> sp_status io = STATUS_SUCCESS \<and> blocks (map fst (sp_children io)) = unat (sp_num_blocks io))) \<and>
        \<not> sp_submitted io \<and> \<not> sp_waiting io \<and> \<not> sp_getting_buf io \<and> sp_finishing io = None \<and>
        sp_outstanding io = 0 \<and> blocks (map fst (sp_children io)) \<le> unat (sp_num_blocks io))"

lemma split_conf_req: "req s = req t \<Longrightarrow> split_conf b s = split_conf b t"
  using accepted_req [of s t b] block_size_req [of s t b]
  by (cases "sp_type t") (simp_all add: split_conf_def req_def)

lemma rw_list_req: "req s = req t \<Longrightarrow> rw_list b s = rw_list b t"
  using block_size_req [of s t b] by (simp add: rw_list_def req_def)

section \<open>Submitting a child\<close>

lemma get_io_cache: "\<not> bdev_channel_get_io m \<Longrightarrow> per_thread_cache_count m = 0"
  by (simp add: bdev_channel_get_io_def split: if_splits)

lemma split_submit_nomem:
  assumes "submit_rc b m (io\<lparr>sp_outstanding := sp_outstanding io + 1\<rparr>) cur
      (sp_src_offset_blocks io + (cur - sp_offset_blocks io)) k = Inr (Some ENOMEM)"
    and "sp_split io" and "\<not> bdev_channel_get_io m" and "\<not> sp_accel_sequence io"
  shows "bdev_io_split_submit b m iov n md k cur rem io =
    Inr (Some ENOMEM, cur, rem, if sp_outstanding io = 0 then io\<lparr>sp_waiting := True\<rparr> else io)"
  using assms get_io_cache [OF assms(3)]
  by (simp add: bdev_io_split_submit_def Let_def bdev_queue_io_wait_with_cb_def spdk_bdev_queue_io_wait_def)

lemma running_cur:
  assumes "running b io"
  shows "unat (sp_current_offset_blocks io) = unat (sp_offset_blocks io) + blocks (map fst (sp_children io))"
  using assms by (simp add: running_def split_base_def)

lemma running_part:
  assumes "running b io" and "unat k \<le> unat (sp_remaining_num_blocks io)"
  shows "unat (sp_offset_blocks io) \<le> unat (sp_current_offset_blocks io)"
    and "unat (sp_current_offset_blocks io) + unat k \<le> unat (sp_offset_blocks io) + unat (sp_num_blocks io)"
  using assms running_cur [OF assms(1)] by (simp_all add: running_def)

definition new_child :: "split_io \<Rightarrow> nat \<Rightarrow> nat \<Rightarrow> u64 \<Rightarrow> u64 \<Rightarrow> split_child" where
  "new_child io iov n md k =
     \<lparr>c_offset_blocks = sp_current_offset_blocks io, c_num_blocks = k,
      c_src_offset_blocks = sp_src_offset_blocks io + (sp_current_offset_blocks io - sp_offset_blocks io),
      c_iov = iov, c_iovcnt = n, c_iovs = part iov n (sp_child_iov io), c_md_buf = md\<rparr>"

definition with_child :: "split_io \<Rightarrow> split_child \<Rightarrow> split_io" where
  "with_child io c =
     io\<lparr>sp_outstanding := sp_outstanding io + 1,
        sp_current_offset_blocks := sp_current_offset_blocks io + c_num_blocks c,
        sp_remaining_num_blocks := sp_remaining_num_blocks io - c_num_blocks c,
        sp_children := sp_children io @ [(c, STATUS_PENDING)]\<rparr>"

lemma req_with_child [simp]: "req (with_child io c) = req io"
  by (simp add: req_def with_child_def)

lemma running_with_child:
  assumes run: "running b io" and k: "0 < unat k" "unat k \<le> unat (sp_remaining_num_blocks io)"
    and out: "unat (sp_outstanding io) < 4294967295"
    and ok: "child_ok b io (new_child io iov n md k)"
  shows "running b (with_child io (new_child io iov n md k))"
proof -
  let ?c = "new_child io iov n md k" and ?t = "with_child io (new_child io iov n md k)"
  note part = running_part [OF run k(2)]
  have base: "split_base b io" using run by (simp add: running_def)
  have "unat (sp_offset_blocks io) + unat (sp_num_blocks io) \<le> unat (bd_blockcnt b)"
    using base accepted_range by (auto simp: split_base_def split_conf_def)
  then have "unat (sp_current_offset_blocks io) + unat k < 18446744073709551616"
    using part(2) unat_u64_bound [of "bd_blockcnt b"] by linarith
  then have c: "unat (sp_current_offset_blocks io + k) = unat (sp_current_offset_blocks io) + unat k"
    by (rule unat_add_u64)
  have r: "unat (sp_remaining_num_blocks io - k) = unat (sp_remaining_num_blocks io) - unat k"
    using k(2) by (simp add: unat_sub word_le_nat_alt)
  have o: "unat (sp_outstanding io + 1) = unat (sp_outstanding io) + 1"
    using out by (subst unat_add_u32) simp_all
  have eqs: "sp_children ?t = sp_children io @ [(?c, STATUS_PENDING)]" "sp_outstanding ?t = sp_outstanding io + 1"
      "sp_current_offset_blocks ?t = sp_current_offset_blocks io + k"
      "sp_remaining_num_blocks ?t = sp_remaining_num_blocks io - k"
      "sp_child_iov ?t = sp_child_iov io" "sp_status ?t = sp_status io" "sp_cb ?t = sp_cb io"
      "sp_has_accel_sequence ?t = sp_has_accel_sequence io" "sp_submitted ?t = sp_submitted io"
      "sp_waiting ?t = sp_waiting io" "sp_getting_buf ?t = sp_getting_buf io"
      "sp_finishing ?t = sp_finishing io" "sp_type ?t = sp_type io"
      "sp_offset_blocks ?t = sp_offset_blocks io" "sp_num_blocks ?t = sp_num_blocks io"
    by (simp_all add: with_child_def new_child_def)
  have nc: "c_offset_blocks ?c = sp_current_offset_blocks io" "c_num_blocks ?c = k"
      "part (c_iov ?c) (c_iovcnt ?c) (sp_child_iov io) = c_iovs ?c"
    by (simp_all add: new_child_def)
  have "split_base b ?t"
    using base k running_cur [OF run] ok unfolding split_base_def eqs
    by (auto simp: nc c r o pending_def split_conf_req [OF req_with_child] child_ok_req [OF req_with_child])
  moreover have "rw_list b ?t" using run rw_list_req [OF req_with_child] by (simp add: running_def)
  ultimately show ?thesis
    using run k unfolding running_def eqs by (simp add: nc r)
qed

lemma split_submit_running:
  assumes run: "running b io" and k: "0 < unat k" "unat k \<le> unat (sp_remaining_num_blocks io)"
  shows "bdev_io_split_submit b m iov n md k (sp_current_offset_blocks io) (sp_remaining_num_blocks io) io =
    (let t = with_child io (new_child io iov n md k) in
     if bdev_channel_get_io m
     then Inr (None, sp_current_offset_blocks t, sp_remaining_num_blocks t, t)
     else Inr (Some ENOMEM, sp_current_offset_blocks io, sp_remaining_num_blocks io,
       if sp_outstanding io = 0 then io\<lparr>sp_waiting := True\<rparr> else io))"
proof -
  have acc: "accepted b io" and sp: "sp_split io" "\<not> sp_accel_sequence io"
    using run by (simp_all add: running_def split_base_def split_conf_def)
  have rc: "submit_rc b m (io\<lparr>sp_outstanding := sp_outstanding io + 1\<rparr>) (sp_current_offset_blocks io)
      (sp_src_offset_blocks io + (sp_current_offset_blocks io - sp_offset_blocks io)) k
      = Inr (if bdev_channel_get_io m then None else Some ENOMEM)"
    by (rule submit_rc_part [OF acc _ running_part [OF run k(2)]]) (simp add: req_def)
  show ?thesis
  proof (cases "bdev_channel_get_io m")
    case True
    then show ?thesis using rc sp
      by (simp add: bdev_io_split_submit_def Let_def with_child_def new_child_def)
  next
    case False
    then show ?thesis using rc sp split_submit_nomem by (simp add: Let_def)
  qed
qed

section \<open>The end of a round\<close>

lemma split_base_cong:
  assumes "req s = req t" "sp_has_accel_sequence s = sp_has_accel_sequence t" "sp_children s = sp_children t"
    "sp_current_offset_blocks s = sp_current_offset_blocks t"
    "sp_remaining_num_blocks s = sp_remaining_num_blocks t" "sp_outstanding s = sp_outstanding t"
    "sp_status s = sp_status t" "sp_child_iov s = sp_child_iov t"
  shows "split_base b s = split_base b t"
proof -
  have "sp_type s = sp_type t" "sp_offset_blocks s = sp_offset_blocks t" "sp_num_blocks s = sp_num_blocks t"
    using assms(1) by (simp_all add: req_def)
  then show ?thesis
    by (simp add: split_base_def split_conf_req [OF assms(1)] child_ok_req [OF assms(1)] assms(2-))
qed

lemma running_settled: "\<lbrakk>running b io; sp_outstanding io \<noteq> 0\<rbrakk> \<Longrightarrow> settled b io"
  by (simp add: running_def settled_def)

lemma running_wait:
  assumes "running b io" and "sp_outstanding io = 0" and "sp_remaining_num_blocks io \<noteq> 0"
  shows "settled b (io\<lparr>sp_waiting := True\<rparr>)"
proof -
  have "req (io\<lparr>sp_waiting := True\<rparr>) = req io" by (simp add: req_def)
  then show ?thesis
    using assms split_base_cong [of "io\<lparr>sp_waiting := True\<rparr>" io b] rw_list_req [of "io\<lparr>sp_waiting := True\<rparr>" io b]
    by (simp add: running_def settled_def)
qed

lemma running_child_iov:
  assumes "running b io" and "length ci = SPDK_BDEV_IO_NUM_CHILD_IOV"
    and "\<And>p. p \<in> set (sp_children io) \<Longrightarrow> pending p \<Longrightarrow>
      part (c_iov (fst p)) (c_iovcnt (fst p)) ci = part (c_iov (fst p)) (c_iovcnt (fst p)) (sp_child_iov io)"
  shows "running b (io\<lparr>sp_child_iov := ci\<rparr>)"
proof -
  have r: "req (io\<lparr>sp_child_iov := ci\<rparr>) = req io" by (simp add: req_def)
  have "split_base b (io\<lparr>sp_child_iov := ci\<rparr>)"
    using assms by (simp add: running_def split_base_def split_conf_req [OF r] child_ok_req [OF r])
  then show ?thesis using assms(1) rw_list_req [OF r, of b] by (simp add: running_def)
qed

lemma running_failed:
  assumes "running b io" and "sp_outstanding io = 0"
  shows "settled b (complete_failed (io\<lparr>sp_status := STATUS_FAILED\<rparr>))"
proof -
  let ?t = "complete_failed (io\<lparr>sp_status := STATUS_FAILED\<rparr>)"
  have r: "req ?t = req io" by (simp add: req_def complete_failed_def)
  have "split_base b ?t"
    using assms
    by (simp add: running_def split_base_def split_conf_req [OF r] child_ok_req [OF r]) (simp add: complete_failed_def)
  moreover have "sp_cb ?t = [False]" using assms by (simp add: running_def complete_failed_def)
  ultimately show ?thesis using assms by (auto simp: settled_def running_def complete_failed_def)
qed

section \<open>The contract of a round\<close>

text \<open>Blocks not yet submitted, children in flight and the wait for a buffer; a child has at least one
  block.\<close>

definition slack :: "split_io \<Rightarrow> nat" where
  "slack io = unat (sp_remaining_num_blocks io) + unat (sp_outstanding io) + (if sp_getting_buf io then 1 else 0)"

lemma slack_simps [simp]:
  "slack (io\<lparr>sp_waiting := w\<rparr>) = slack io" "slack (io\<lparr>sp_child_iov := ci\<rparr>) = slack io"
  "slack (less_than_block io) = slack io"
  by (simp_all add: slack_def less_than_block_def complete_failed_def)

lemma slack_with_child:
  assumes "0 < unat (c_num_blocks c)" "unat (c_num_blocks c) \<le> unat (sp_remaining_num_blocks io)"
    and "unat (sp_outstanding io) < 4294967295"
  shows "slack (with_child io c) \<le> slack io"
  using assms by (simp add: slack_def with_child_def unat_sub word_le_nat_alt unat_add_u32)

text \<open>A round that starts with blocks left and no child in flight ends without an error, and leaves
  the parent with a child in flight, on the wait queue, or completed.\<close>

definition round_start :: "split_bdev \<Rightarrow> split_io \<Rightarrow> bool" where
  "round_start b io \<longleftrightarrow> running b io \<and> sp_outstanding io = 0 \<and> sp_remaining_num_blocks io \<noteq> 0"

locale split_rounds =
  fixes rnd :: "split_bdev \<Rightarrow> (nat \<Rightarrow> mgmt_ch) \<Rightarrow> split_io \<Rightarrow> split_io res"
    and types :: "io_type set"
  assumes rnd_settles: "\<lbrakk>round_start b io; sp_type io \<in> types\<rbrakk> \<Longrightarrow>
    \<exists>io'. rnd b mg io = Inr io' \<and> settled b io' \<and> slack io' \<le> slack io"
begin

lemma rnd_wake:
  assumes "settled b io" and "sp_waiting io" and "sp_type io \<in> types"
  shows "\<exists>io'. rnd b mg (io\<lparr>sp_waiting := False\<rparr>) = Inr io' \<and> settled b io' \<and> slack io' \<le> slack io"
proof -
  have r: "req (io\<lparr>sp_waiting := False\<rparr>) = req io" by (simp add: req_def)
  have "round_start b (io\<lparr>sp_waiting := False\<rparr>)"
    using assms split_base_cong [of "io\<lparr>sp_waiting := False\<rparr>" io b] rw_list_req [OF r, of b] r
    by (auto simp: round_start_def running_def settled_def split: if_splits)
  then show ?thesis using rnd_settles [of b "io\<lparr>sp_waiting := False\<rparr>" mg] assms(3) by simp
qed

end

section \<open>Unmap, write zeroes, copy\<close>

definition req_limit :: "split_bdev \<Rightarrow> io_type \<Rightarrow> u64" where
  "req_limit b t = (case t of
     IO_UNMAP \<Rightarrow> ucast (bd_max_unmap b * bd_max_unmap_segments b)
   | IO_WRITE_ZEROES \<Rightarrow> ucast (bd_max_write_zeroes b)
   | IO_COPY \<Rightarrow> ucast (bd_max_copy b)
   | _ \<Rightarrow> 0)"

lemma unmap_within_limits:
  assumes "unat (sp_num_blocks io) \<le> unat (bd_max_unmap b) * unat (bd_max_unmap_segments b)"
    and "unat (bd_max_unmap b) * unat (bd_max_unmap_segments b) < 4294967296"
  shows "\<not> bdev_unmap_should_split b io"
proof (cases "bd_max_unmap b = 0")
  case False
  let ?m = "unat (bd_max_unmap b)" and ?s = "unat (bd_max_unmap_segments b)" and ?k = "unat (sp_num_blocks io)"
  have m: "0 < ?m" "?m < 4294967296" using False by (simp_all add: unat_pos)
  have "unat (sp_num_blocks io + ucast (bd_max_unmap b)) = ?k + ?m"
    using unat_add_u64 [of "sp_num_blocks io" "ucast (bd_max_unmap b)"] assms m(2) by simp
  then have "unat (sp_num_blocks io + ucast (bd_max_unmap b) - 1) = ?k + ?m - 1"
    using m(1) by (subst unat_sub) (simp_all add: word_le_nat_alt)
  then have d: "unat (spdk_divide_round_up (sp_num_blocks io) (ucast (bd_max_unmap b))) = (?k + ?m - 1) div ?m"
    by (simp add: spdk_divide_round_up_def unat_div_distrib)
  have "?k + ?m - 1 < Suc ?s * ?m" using assms(1) m(1) by (simp add: mult.commute)
  then have "(?k + ?m - 1) div ?m < Suc ?s" by (rule less_mult_imp_div_less)
  then have le: "(?k + ?m - 1) div ?m \<le> ?s" by simp
  then have "unat (ucast (spdk_divide_round_up (sp_num_blocks io) (ucast (bd_max_unmap b))) :: u32) \<le> ?s"
    by (subst unat_ucast_u64_u32) (use d le_less_trans [OF le unat_u32_bound] in simp_all)
  then show ?thesis by (simp add: bdev_unmap_should_split_def Let_def word_less_nat_alt)
qed (simp add: bdev_unmap_should_split_def)

lemma child_ok_req_limit:
  assumes conf: "split_conf b io" and t: "\<not> is_rw (sp_type io)"
    and k: "unat k \<le> unat (req_limit b (sp_type io))"
  shows "child_ok b io (new_child io 0 0 0 k)" and "req_limit b (sp_type io) \<noteq> 0"
proof -
  have p: "unat (bd_max_unmap b * bd_max_unmap_segments b) = unat (bd_max_unmap b) * unat (bd_max_unmap_segments b)"
    if "sp_type io = IO_UNMAP"
    using that conf unat_mult_lem [of "bd_max_unmap b" "bd_max_unmap_segments b"] by (simp add: split_conf_def)
  have acc: "accepted b io" using conf by (simp add: split_conf_def)
  then consider "sp_type io = IO_UNMAP" | "sp_type io = IO_WRITE_ZEROES" | "sp_type io = IO_COPY"
    using t by (cases "sp_type io") (simp_all add: accepted_def submit_rc_def)
  then have "\<not> bdev_io_should_split b (child_io io (new_child io 0 0 0 k)) \<and> 0 < unat (req_limit b (sp_type io))"
  proof cases
    case 1
    then show ?thesis using k conf p unmap_within_limits [of "child_io io (new_child io 0 0 0 k)" b]
      by (simp add: bdev_io_should_split_def child_io_def new_child_def req_limit_def split_conf_def)
  qed (use k conf in \<open>simp_all add: bdev_io_should_split_def child_io_def new_child_def req_limit_def split_conf_def
        bdev_write_zeroes_should_split_def bdev_copy_should_split_def word_less_nat_alt unat_pos\<close>)
  then show "child_ok b io (new_child io 0 0 0 k)" "req_limit b (sp_type io) \<noteq> 0"
    using t by (auto simp: child_ok_def new_child_def)
qed

lemma split_reqs_settles:
  assumes "running b io" and "\<not> is_rw (sp_type io)" and "unat (sp_outstanding io) = n" and "n \<le> mx" and "0 < mx" "mx \<le> 32"
    and "n = 0 \<Longrightarrow> sp_remaining_num_blocks io \<noteq> 0"
  shows "\<exists>io'. split_reqs b mg (req_limit b (sp_type io)) mx n (sp_current_offset_blocks io)
      (sp_remaining_num_blocks io) io = Inr io' \<and> settled b io' \<and> slack io' \<le> slack io"
  using assms
proof (induction "mx - n" arbitrary: n io)
  case 0
  then have "sp_outstanding io \<noteq> 0" by auto
  then show ?case using 0 running_settled by (subst split_reqs.simps) auto
next
  case (Suc m)
  show ?case
  proof (cases "sp_remaining_num_blocks io = 0")
    case True
    then have "sp_outstanding io \<noteq> 0" using Suc.prems by auto
    then show ?thesis using True Suc.prems running_settled by (subst split_reqs.simps) auto
  next
    case False
    have n_less: "n < mx" using Suc.hyps(2) by simp
    let ?k = "min (sp_remaining_num_blocks io) (req_limit b (sp_type io))"
    let ?t = "with_child io (new_child io 0 0 0 ?k)"
    have conf: "split_conf b io" using Suc.prems(1) by (simp add: running_def split_base_def)
    note ok = child_ok_req_limit [OF conf Suc.prems(2), of ?k]
    have k: "0 < unat ?k" "unat ?k \<le> unat (sp_remaining_num_blocks io)" "unat ?k \<le> unat (req_limit b (sp_type io))"
      using False ok(2) by (simp_all add: unat_min unat_pos)
    have submit: "bdev_io_split_submit b (mg n) 0 0 0 ?k (sp_current_offset_blocks io) (sp_remaining_num_blocks io) io =
        (if bdev_channel_get_io (mg n)
         then Inr (None, sp_current_offset_blocks ?t, sp_remaining_num_blocks ?t, ?t)
         else Inr (Some ENOMEM, sp_current_offset_blocks io, sp_remaining_num_blocks io,
           if sp_outstanding io = 0 then io\<lparr>sp_waiting := True\<rparr> else io))"
      using split_submit_running [OF Suc.prems(1) k(1,2)] by (simp add: Let_def)
    show ?thesis
    proof (cases "bdev_channel_get_io (mg n)")
      case True
      have run: "running b ?t"
        using running_with_child [OF Suc.prems(1) k(1,2) _ ok(1) [OF k(3)]] Suc.prems(3,4,6) by simp
      have n: "unat (sp_outstanding ?t) = n + 1" "sp_type ?t = sp_type io"
        using Suc.prems(3,4,6) by (simp_all add: with_child_def unat_add_u32)
      have "\<exists>io'. split_reqs b mg (req_limit b (sp_type ?t)) mx (n + 1) (sp_current_offset_blocks ?t)
          (sp_remaining_num_blocks ?t) ?t = Inr io' \<and> settled b io' \<and> slack io' \<le> slack ?t"
        by (rule Suc.hyps(1)) (use Suc.hyps(2) Suc.prems run n in auto)
      moreover have "slack ?t \<le> slack io"
        by (rule slack_with_child) (use k Suc.prems(3,4,6) in \<open>simp_all add: new_child_def\<close>)
      ultimately show ?thesis
        using True False n_less submit by (subst split_reqs.simps) (auto simp add: n(2))
    next
      case no_io: False
      have "settled b (if sp_outstanding io = 0 then io\<lparr>sp_waiting := True\<rparr> else io)"
        using running_settled running_wait Suc.prems(1) False by simp
      then show ?thesis
        using no_io False n_less submit by (subst split_reqs.simps) simp
    qed
  qed
qed

interpretation unmap: split_rounds bdev_unmap_split "{IO_UNMAP}"
proof
  fix b io mg assume "round_start b io" "sp_type io \<in> {IO_UNMAP}"
  then show "\<exists>io'. bdev_unmap_split b mg io = Inr io' \<and> settled b io' \<and> slack io' \<le> slack io"
    using split_reqs_settles [of b io 0 8 mg]
    by (auto simp: round_start_def running_def split_base_def split_conf_def bdev_unmap_split_def req_limit_def Let_def)
qed

interpretation write_zeroes: split_rounds bdev_write_zeroes_split "{IO_WRITE_ZEROES}"
proof
  fix b io mg assume "round_start b io" "sp_type io \<in> {IO_WRITE_ZEROES}"
  then show "\<exists>io'. bdev_write_zeroes_split b mg io = Inr io' \<and> settled b io' \<and> slack io' \<le> slack io"
    using split_reqs_settles [of b io 0 8 mg]
    by (auto simp: round_start_def running_def split_base_def split_conf_def bdev_write_zeroes_split_def req_limit_def)
qed

interpretation copy: split_rounds bdev_copy_split "{IO_COPY}"
proof
  fix b io mg assume "round_start b io" "sp_type io \<in> {IO_COPY}"
  then show "\<exists>io'. bdev_copy_split b mg io = Inr io' \<and> settled b io' \<and> slack io' \<le> slack io"
    using split_reqs_settles [of b io 0 8 mg]
    by (auto simp: round_start_def running_def split_base_def split_conf_def bdev_copy_split_def req_limit_def)
qed

section \<open>Reads and writes\<close>

lemma rw_conf:
  assumes "split_conf b io" and "is_rw (sp_type io)"
  shows "bdev_io_get_block_size b io \<noteq> 0" and "rw_io_boundary b (sp_type io) \<noteq> 0"
    and "unat (bd_max_num_segments b) < 2147483648"
    and "unat (sp_num_blocks io) * unat (bdev_io_get_block_size b io) < 4294967296"
  using assms by (auto simp: split_conf_def)

lemma child_ok_rw:
  assumes run: "running b io" and rw: "is_rw (sp_type io)"
    and k: "unat k \<le> unat (sp_remaining_num_blocks io)" "unat k \<le> unat (rw_max_size b)"
      "unat k \<le> unat (rw_io_boundary b (sp_type io))
         - unat (sp_current_offset_blocks io) mod unat (rw_io_boundary b (sp_type io))"
    and n: "n \<le> rw_max_child_iovcnt b"
    and cut: "child_cut (sp_iovs io) (rw_max_segment_size b) (unat (bdev_io_get_block_size b io))
      (blocks (map fst (sp_children io)) * unat (bdev_io_get_block_size b io)) cnt (sp_child_iov io) (k, n, pos, off)"
  shows "child_ok b io (new_child io cnt n (child_md_buf b io (sp_current_offset_blocks io)) (ucast k))"
proof -
  let ?c = "new_child io cnt n (child_md_buf b io (sp_current_offset_blocks io)) (ucast k)"
  let ?F = "blocks (map fst (sp_children io)) * unat (bdev_io_get_block_size b io)"
  have base: "split_base b io" and list: "small_list (sp_iovs io)"
      "unat (sp_num_blocks io) * unat (bdev_io_get_block_size b io) \<le> length (addrs (sp_iovs io))"
      and bl: "blocks (map fst (sp_children io)) + unat (sp_remaining_num_blocks io) = unat (sp_num_blocks io)"
    using run rw by (auto simp: running_def rw_list_def)
  have conf: "split_conf b io" using base by (simp add: split_base_def)
  note rwc = rw_conf [OF conf rw]
  have p: "pieces (sp_iovs io) (rw_max_segment_size b) ?F (part cnt n (sp_child_iov io))"
      "length (addrs (part cnt n (sp_child_iov io))) = unat k * unat (bdev_io_get_block_size b io)" "0 < unat k"
    using cut by (simp_all add: child_cut_def)
  have F: "?F \<le> length (addrs (sp_iovs io))"
    using list(2) bl mult_le_mono1 [of "blocks (map fst (sp_children io))" "unat (sp_num_blocks io)" "unat (bdev_io_get_block_size b io)"]
    by linarith
  have "unat (sp_current_offset_blocks io) + unat k \<le> unat (sp_offset_blocks io) + unat (sp_num_blocks io)"
    using running_part(2) [OF run k(1)] .
  also have "\<dots> \<le> unat (bd_blockcnt b)" using accepted_range conf by (simp add: split_conf_def)
  finally have rng: "unat (sp_current_offset_blocks io) + unat k \<le> 18446744073709551616"
    using unat_u64_bound [of "bd_blockcnt b"] by linarith
  have k0: "ucast k \<noteq> (0 :: u64)" using p(3) unat_ucast_u32_u64 [of k] by (metis less_irrefl unat_0)
  have eqs: "sp_num_blocks (child_io io ?c) = ucast k" "sp_offset_blocks (child_io io ?c) = sp_current_offset_blocks io"
      "sp_type (child_io io ?c) = sp_type io" "sp_iovs (child_io io ?c) = part cnt n (sp_child_iov io)"
    by (simp_all add: child_io_def new_child_def)
  have len: "length (part cnt n (sp_child_iov io)) \<le> rw_max_child_iovcnt b" using n by simp
  have seg: "unat (iov_len v) \<le> unat (rw_max_segment_size b)" if "v \<in> set (part cnt n (sp_child_iov io))" for v
    using pieces_elems [OF p(1) that] by simp
  have "\<not> bdev_rw_should_split b (child_io io ?c)"
    by (rule rw_within_limits) (use len in \<open>simp_all add: eqs k k0 rng rwc seg\<close>)
  moreover have "sp_type (child_io io ?c) = sp_type io" by (simp add: child_io_def)
  ultimately have "\<not> bdev_io_should_split b (child_io io ?c)" using rw by (auto simp: bdev_io_should_split_def)
  moreover have "addrs (part cnt n (sp_child_iov io))
      = take (unat k * unat (bdev_io_get_block_size b io)) (drop ?F (addrs (sp_iovs io)))"
    using pieces_addrs [OF p(1) F] unfolding p(2) by blast
  ultimately show ?thesis
    using p(2) running_cur [OF run] unfolding child_ok_def by (simp add: new_child_def)
qed

text \<open>The state of the loop: the position in the parent's list is that of the next block, and the
  lists of the children in flight lie before the next free element of the array.\<close>

definition rw_at :: "split_bdev \<Rightarrow> split_io \<Rightarrow> nat \<Rightarrow> u32 \<Rightarrow> nat \<Rightarrow> bool" where
  "rw_at b io pos off cnt \<longleftrightarrow>
     running b io \<and> is_rw (sp_type io) \<and> cnt \<le> SPDK_BDEV_IO_NUM_CHILD_IOV \<and> unat (sp_outstanding io) \<le> cnt \<and>
     at (sp_iovs io) pos off
       (blocks (map fst (sp_children io)) * unat (bdev_io_get_block_size b io)) \<and>
     (\<forall>p\<in>set (sp_children io). pending p \<longrightarrow> c_iov (fst p) + c_iovcnt (fst p) \<le> cnt) \<and>
     (sp_outstanding io = 0 \<longrightarrow> cnt = 0 \<and> sp_remaining_num_blocks io \<noteq> 0)"

lemma rw_at_fits:
  assumes "running b io" "is_rw (sp_type io)"
  shows "blocks (map fst (sp_children io)) * unat (bdev_io_get_block_size b io)
      + unat (sp_remaining_num_blocks io) * unat (bdev_io_get_block_size b io) \<le> length (addrs (sp_iovs io))"
  using assms by (auto simp: running_def rw_list_def simp flip: distrib_right)

lemma part_take: "start + n \<le> cnt \<Longrightarrow> take cnt xs = take cnt ys \<Longrightarrow> part start n xs = part start n ys"
proof -
  assume le: "start + n \<le> cnt" and eq: "take cnt xs = take cnt ys"
  have "take (start + n) xs = take (start + n) (take cnt xs)" "take (start + n) ys = take (start + n) (take cnt ys)"
    using le by (simp_all add: min_def)
  then have "take (start + n) xs = take (start + n) ys" by (simp add: eq)
  then show ?thesis by (simp add: take_drop add.commute)
qed

text \<open>The array after a child has been cut, and the state after the child has been submitted.\<close>

lemma rw_at_child_iov:
  assumes at: "rw_at b io pos off cnt"
    and ci: "length ci = SPDK_BDEV_IO_NUM_CHILD_IOV" "take cnt ci = take cnt (sp_child_iov io)"
  shows "running b (io\<lparr>sp_child_iov := ci\<rparr>)"
proof (rule running_child_iov)
  fix p assume p: "p \<in> set (sp_children io)" "pending p"
  show "part (c_iov (fst p)) (c_iovcnt (fst p)) ci = part (c_iov (fst p)) (c_iovcnt (fst p)) (sp_child_iov io)"
    by (rule part_take [OF _ ci(2)]) (use at p in \<open>simp add: rw_at_def\<close>)
qed (use at ci in \<open>simp_all add: rw_at_def\<close>)

lemma rw_at_with_child:
  assumes at: "rw_at b io pos off cnt" and cnt: "cnt' \<le> SPDK_BDEV_IO_NUM_CHILD_IOV" "cnt + n \<le> cnt'"
    and k: "unat k \<le> unat (sp_remaining_num_blocks io)" "unat k \<le> unat (rw_max_size b)"
      "unat k \<le> unat (rw_io_boundary b (sp_type io))
         - unat (sp_current_offset_blocks io) mod unat (rw_io_boundary b (sp_type io))"
    and n: "n \<le> rw_max_child_iovcnt b"
    and cut: "child_cut (sp_iovs io) (rw_max_segment_size b) (unat (bdev_io_get_block_size b io))
      (blocks (map fst (sp_children io)) * unat (bdev_io_get_block_size b io)) cnt (sp_child_iov io) (k, n, pos', off')"
  shows "rw_at b (with_child io (new_child io cnt n (child_md_buf b io (sp_current_offset_blocks io)) (ucast k))) pos' off' cnt'"
    and "0 < n"
proof -
  let ?c = "new_child io cnt n (child_md_buf b io (sp_current_offset_blocks io)) (ucast k)"
  have run: "running b io" and rw: "is_rw (sp_type io)" and out: "unat (sp_outstanding io) \<le> cnt"
    using at by (simp_all add: rw_at_def)
  have k0: "0 < unat k" using cut by (simp add: child_cut_def)
  have "bdev_io_get_block_size b io \<noteq> 0"
    using rw_conf(1) [OF _ rw] run by (simp add: running_def split_base_def)
  then show n0: "0 < n" using cut by (auto simp: child_cut_def unat_eq_0 intro!: gr0I)
  have run': "running b (with_child io ?c)"
    using running_with_child [OF run _ _ _ child_ok_rw [OF run rw k n cut]] k0 k(1) out cnt by simp
  have o: "unat (sp_outstanding (with_child io ?c)) = unat (sp_outstanding io) + 1"
    using out cnt by (simp add: with_child_def unat_add_u32)
  have bs: "bdev_io_get_block_size b (with_child io ?c) = bdev_io_get_block_size b io"
    by (rule block_size_req) simp
  have ch: "sp_children (with_child io ?c) = sp_children io @ [(?c, STATUS_PENDING)]" "c_num_blocks ?c = ucast k"
      "sp_type (with_child io ?c) = sp_type io" "sp_iovs (with_child io ?c) = sp_iovs io" "c_iov ?c = cnt" "c_iovcnt ?c = n"
    by (simp_all add: with_child_def new_child_def)
  have "at (sp_iovs io) pos' off' ((blocks (map fst (sp_children io)) + unat k) * unat (bdev_io_get_block_size b io))"
    using cut by (simp add: child_cut_def distrib_right)
  then show "rw_at b (with_child io ?c) pos' off' cnt'"
    using at run' n0 cnt out o
    by (auto simp: rw_at_def bs ch unat_eq_0 [symmetric] simp del: unat_eq_0)
qed

lemma rw_child_at:
  assumes at: "rw_at b io pos off cnt" and rem: "sp_remaining_num_blocks io \<noteq> 0" and cnt: "cnt < SPDK_BDEV_IO_NUM_CHILD_IOV"
  shows "pos < length (sp_iovs io)"
    and "\<exists>r. rw_child b io (sp_current_offset_blocks io) (sp_remaining_num_blocks io) pos off cnt = Inr r \<and>
      cut_result b io (sp_current_offset_blocks io) (sp_remaining_num_blocks io)
        (blocks (map fst (sp_children io)) * unat (bdev_io_get_block_size b io)) cnt r"
proof -
  have run: "running b io" and rw: "is_rw (sp_type io)"
      and pos: "at (sp_iovs io) pos off (blocks (map fst (sp_children io)) * unat (bdev_io_get_block_size b io))"
    using at by (simp_all add: rw_at_def)
  have conf: "split_conf b io" and list: "small_list (sp_iovs io)" "length (sp_child_iov io) = SPDK_BDEV_IO_NUM_CHILD_IOV"
    using run rw by (auto simp: running_def split_base_def rw_list_def)
  note c = rw_conf [OF conf rw]
  have r: "0 < unat (sp_remaining_num_blocks io)" using rem by (simp add: unat_pos)
  then have "0 < unat (sp_remaining_num_blocks io) * unat (bdev_io_get_block_size b io)"
    using c(1) by (simp add: unat_pos)
  then show "pos < length (sp_iovs io)" using at_less [OF pos] rw_at_fits [OF run rw] by linarith
  show "\<exists>r. rw_child b io (sp_current_offset_blocks io) (sp_remaining_num_blocks io) pos off cnt = Inr r \<and>
      cut_result b io (sp_current_offset_blocks io) (sp_remaining_num_blocks io)
        (blocks (map fst (sp_children io)) * unat (bdev_io_get_block_size b io)) cnt r"
    by (rule rw_child_cut [OF list(1) c(1,2) r rw_at_fits [OF run rw] pos cnt list(2)])
qed

text \<open>What a pass of the loop does with the cut child: it ends the round, or submits the child.\<close>

lemma less_than_block_settles:
  assumes "rw_at b io pos off cnt" "length ci = SPDK_BDEV_IO_NUM_CHILD_IOV" "take cnt ci = take cnt (sp_child_iov io)"
  shows "settled b (less_than_block (io\<lparr>sp_child_iov := ci\<rparr>))"
proof -
  have run: "running b (io\<lparr>sp_child_iov := ci\<rparr>)" by (rule rw_at_child_iov [OF assms])
  then show ?thesis
    using running_failed [OF run] running_settled [OF run] by (simp add: less_than_block_def)
qed

lemma rw_at_update:
  assumes "rw_at b io pos off cnt" "length ci = SPDK_BDEV_IO_NUM_CHILD_IOV" "take cnt ci = take cnt (sp_child_iov io)"
  shows "rw_at b (io\<lparr>sp_child_iov := ci\<rparr>) pos off cnt"
proof -
  have "bdev_io_get_block_size b (io\<lparr>sp_child_iov := ci\<rparr>) = bdev_io_get_block_size b io"
    by (rule block_size_req) (simp add: req_def)
  then show ?thesis using rw_at_child_iov [OF assms] assms(1) by (simp add: rw_at_def)
qed

lemma rw_submit:
  assumes at: "rw_at b io pos off cnt"
    and cut: "cut_result b io (sp_current_offset_blocks io) (sp_remaining_num_blocks io)
      (blocks (map fst (sp_children io)) * unat (bdev_io_get_block_size b io)) cnt (cnt', ci, Some (k, n, pos', off'))"
  defines "io1 \<equiv> io\<lparr>sp_child_iov := ci\<rparr>"
  defines "t \<equiv> with_child io1 (new_child io1 cnt n (child_md_buf b io1 (sp_current_offset_blocks io)) (ucast k))"
  shows "rw_at b t pos' off' cnt'" and "cnt < cnt'" and "cnt' \<le> SPDK_BDEV_IO_NUM_CHILD_IOV" and "slack t \<le> slack io"
    and "bdev_io_split_submit b m cnt n (child_md_buf b io (sp_current_offset_blocks io)) (ucast k)
        (sp_current_offset_blocks io) (sp_remaining_num_blocks io) io1 =
      (if bdev_channel_get_io m
       then Inr (None, sp_current_offset_blocks t, sp_remaining_num_blocks t, t)
       else Inr (Some ENOMEM, sp_current_offset_blocks io, sp_remaining_num_blocks io,
         if sp_outstanding io1 = 0 then io1\<lparr>sp_waiting := True\<rparr> else io1))"
proof -
  let ?cur = "sp_current_offset_blocks io" and ?rem = "sp_remaining_num_blocks io"
  have c: "unat k \<le> unat ?rem" "unat k \<le> unat (rw_max_size b)" "n \<le> rw_max_child_iovcnt b" "cnt + n \<le> cnt'"
      "unat k \<le> unat (rw_io_boundary b (sp_type io)) - unat ?cur mod unat (rw_io_boundary b (sp_type io))"
      "child_cut (sp_iovs io) (rw_max_segment_size b) (unat (bdev_io_get_block_size b io))
         (blocks (map fst (sp_children io)) * unat (bdev_io_get_block_size b io)) cnt ci (k, n, pos', off')"
      "length ci = SPDK_BDEV_IO_NUM_CHILD_IOV" "take cnt ci = take cnt (sp_child_iov io)" "0 < unat k"
    and c': "cnt' \<le> SPDK_BDEV_IO_NUM_CHILD_IOV"
    using cut by (simp_all add: cut_result_def child_cut_def)
  have io1: "sp_current_offset_blocks io1 = ?cur" "sp_remaining_num_blocks io1 = ?rem" "sp_type io1 = sp_type io"
      "sp_iovs io1 = sp_iovs io" "sp_children io1 = sp_children io" "sp_child_iov io1 = ci" "req io1 = req io"
    by (simp_all add: io1_def req_def)
  have bs: "bdev_io_get_block_size b io1 = bdev_io_get_block_size b io" by (rule block_size_req) (simp add: io1)
  have at1: "rw_at b io1 pos off cnt" unfolding io1_def by (rule rw_at_update [OF at c(7,8)])
  note w = rw_at_with_child [OF at1 c' c(4), unfolded io1 bs, OF c(1,2,5,3,6)]
  then show "rw_at b t pos' off' cnt'" "cnt < cnt'" "cnt' \<le> SPDK_BDEV_IO_NUM_CHILD_IOV" using c(4) c' by (simp_all add: t_def)
  have "slack t \<le> slack io1"
    unfolding t_def by (rule slack_with_child) (use c(1,9) at1 in \<open>simp_all add: new_child_def io1 rw_at_def\<close>)
  then show "slack t \<le> slack io" by (simp add: io1_def)
  have md: "child_md_buf b io1 ?cur = child_md_buf b io ?cur" by (simp add: child_md_buf_def io1_def)
  show "bdev_io_split_submit b m cnt n (child_md_buf b io ?cur) (ucast k) ?cur ?rem io1 =
      (if bdev_channel_get_io m
       then Inr (None, sp_current_offset_blocks t, sp_remaining_num_blocks t, t)
       else Inr (Some ENOMEM, ?cur, ?rem, if sp_outstanding io1 = 0 then io1\<lparr>sp_waiting := True\<rparr> else io1))"
    using split_submit_running [of b io1 "ucast k" m cnt n "child_md_buf b io1 ?cur"] at1 c(1,9)
    by (simp add: io1 md t_def Let_def rw_at_def)
qed

lemma rw_loop_settles:
  assumes "rw_at b io pos off cnt"
  shows "\<exists>io'. rw_loop b mg i (sp_current_offset_blocks io) (sp_remaining_num_blocks io) pos off cnt io = Inr io' \<and>
    settled b io' \<and> slack io' \<le> slack io"
  using assms
proof (induction "SPDK_BDEV_IO_NUM_CHILD_IOV - cnt" arbitrary: io pos off cnt i rule: less_induct)
  case less
  let ?cur = "sp_current_offset_blocks io" and ?rem = "sp_remaining_num_blocks io"
  have run: "running b io" using less.prems by (simp add: rw_at_def)
  show ?case
  proof (cases "?rem \<noteq> 0 \<and> cnt < SPDK_BDEV_IO_NUM_CHILD_IOV")
    case False
    then have "sp_outstanding io \<noteq> 0" using less.prems by (auto simp: rw_at_def)
    then show ?thesis using False running_settled [OF run] by (subst rw_loop.simps) (auto simp: word_gt_0)
  next
    case True
    obtain cnt' ci r where child: "rw_child b io ?cur ?rem pos off cnt = Inr (cnt', ci, r)"
        and cut: "cut_result b io ?cur ?rem (blocks (map fst (sp_children io)) * unat (bdev_io_get_block_size b io)) cnt (cnt', ci, r)"
      using rw_child_at(2) [OF less.prems] True by auto
    have ci: "length ci = SPDK_BDEV_IO_NUM_CHILD_IOV" "take cnt ci = take cnt (sp_child_iov io)"
      using cut by (simp_all add: cut_result_def)
    have guard: "0 < ?rem \<and> pos < length (sp_iovs io) \<and> cnt < SPDK_BDEV_IO_NUM_CHILD_IOV"
      using True rw_child_at(1) [OF less.prems] by (simp add: word_gt_0)
    show ?thesis
    proof (cases r)
      case None
      then show ?thesis
        using guard child less_than_block_settles [OF less.prems ci] by (subst rw_loop.simps) simp
    next
      case (Some q)
      obtain k n pos' off' where q: "r = Some (k, n, pos', off')" using Some by (cases q) auto
      note sub = rw_submit [OF less.prems cut [unfolded q]]
      define io1 where "io1 = io\<lparr>sp_child_iov := ci\<rparr>"
      define t where "t = with_child io1 (new_child io1 cnt n (child_md_buf b io1 ?cur) (ucast k))"
      note sub = sub [folded io1_def, folded t_def]
      show ?thesis
      proof (cases "bdev_channel_get_io (mg i)")
        case True
        have "\<exists>io'. rw_loop b mg (i + 1) (sp_current_offset_blocks t) (sp_remaining_num_blocks t) pos' off' cnt' t = Inr io' \<and>
            settled b io' \<and> slack io' \<le> slack t"
          by (rule less.hyps [OF _ sub(1)]) (use sub(2,3) guard in simp)
        then show ?thesis
          using True guard child q sub(4) sub(5) [of "mg i"] by (subst rw_loop.simps) (auto simp flip: io1_def)
      next
        case False
        have "running b io1" unfolding io1_def by (rule rw_at_child_iov [OF less.prems ci])
        then have "settled b (if sp_outstanding io1 = 0 then io1\<lparr>sp_waiting := True\<rparr> else io1)"
          using running_settled running_wait [of b io1] guard by (simp add: io1_def word_gt_0)
        moreover have "slack io1 = slack io" by (simp add: io1_def)
        ultimately show ?thesis
          using False guard child q sub(5) [of "mg i"] by (subst rw_loop.simps) (simp flip: io1_def)
      qed
    qed
  qed
qed

lemma rw_split_settles:
  assumes "round_start b io" and "is_rw (sp_type io)"
  shows "\<exists>io'. bdev_rw_split b mg io = Inr io' \<and> settled b io' \<and> slack io' \<le> slack io"
proof -
  have run: "running b io" using assms by (simp add: round_start_def)
  have conf: "split_conf b io" and list: "small_list (sp_iovs io)"
    using run assms(2) by (auto simp: running_def split_base_def rw_list_def)
  let ?bl = "bdev_io_get_block_size b io"
  let ?off = "ucast ((sp_current_offset_blocks io - sp_offset_blocks io) * ucast ?bl) :: u32"
  have F: "blocks (map fst (sp_children io)) * unat ?bl \<le> length (addrs (sp_iovs io))"
      "length (addrs (sp_iovs io)) < 4294967296"
    using rw_at_fits [OF run assms(2)] list by (simp_all add: small_list_def)
  have "unat (sp_current_offset_blocks io - sp_offset_blocks io) = blocks (map fst (sp_children io))"
    using running_cur [OF run] by (simp add: unat_sub word_le_nat_alt)
  then have "unat ((sp_current_offset_blocks io - sp_offset_blocks io) * ucast ?bl :: u64) = blocks (map fst (sp_children io)) * unat ?bl"
    using F unat_mult_lem [of "sp_current_offset_blocks io - sp_offset_blocks io" "ucast ?bl"] by simp
  then have off: "unat ?off = blocks (map fst (sp_children io)) * unat ?bl"
    using F by (simp add: unat_ucast_u64_u32)
  obtain pos off where skip: "rw_skip (sp_iovs io) 0 ?off = (pos, off)" by fastforce
  have "at (sp_iovs io) pos off (blocks (map fst (sp_children io)) * unat ?bl)"
    using rw_skip_at [OF list, of 0 ?off pos off] skip off F(1) by simp
  moreover have "filter pending (sp_children io) = []"
    using assms(1) unfolding round_start_def running_def split_base_def by force
  ultimately have "rw_at b io pos off 0"
    using assms run by (auto simp: rw_at_def round_start_def filter_empty_conv)
  then show ?thesis
    using rw_loop_settles [of b io pos off 0 mg 0] skip conf by (simp add: bdev_rw_split_def split_conf_def Let_def)
qed

interpretation rw: split_rounds bdev_rw_split "{IO_READ, IO_WRITE}"
  by unfold_locales (rule rw_split_settles, auto)

text \<open>Hence the round of every type that can be split.\<close>

interpretation rounds: split_rounds split_round "{IO_READ, IO_WRITE, IO_UNMAP, IO_WRITE_ZEROES, IO_COPY}"
proof
  fix b io mg assume "round_start b io" "sp_type io \<in> {IO_READ, IO_WRITE, IO_UNMAP, IO_WRITE_ZEROES, IO_COPY}"
  then show "\<exists>io'. split_round b mg io = Inr io' \<and> settled b io' \<and> slack io' \<le> slack io"
    using rw.rnd_settles unmap.rnd_settles write_zeroes.rnd_settles copy.rnd_settles
    by (auto simp: split_round_def)
qed

end

