(* ===== verification/Bdev_Split_Props.thy ===== *)
theory Bdev_Split_Props
  imports Bdev_Split_Inv
begin

text \<open>
  Runs of a split I/O: the invariant holds after every event, no assertion fails and no access is
  out of bounds, and the properties of the children, of the completion and of the progress of the
  parent follow. The last section shows what happens outside the conditions of the invariant.
\<close>

section \<open>Start\<close>

text \<open>An I/O that \<open>bdev_io_submit\<close> passes to \<open>bdev_io_split\<close>, within the conditions of the invariant
  (\<open>split_conf\<close> and \<open>rw_list\<close>): it is not empty; a read or write has fewer than \<open>2 ^ 32\<close> bytes in
  elements that are not empty, blocks that are not empty, a boundary that is not 0 if one is to be kept,
  and a device that takes fewer than \<open>2 ^ 31\<close> segments; the product of the two unmap limits fits in 32
  bits. A read may come without a buffer. The properties below call such an I/O regular.\<close>

definition split_ready :: "split_bdev \<Rightarrow> split_io \<Rightarrow> bool" where
  "split_ready b io \<longleftrightarrow>
     sp_submitted io \<and> \<not> sp_waiting io \<and> \<not> sp_getting_buf io \<and> sp_finishing io = None \<and> sp_cb io = [] \<and>
     sp_children io = [] \<and> length (sp_child_iov io) = SPDK_BDEV_IO_NUM_CHILD_IOV \<and>
     bdev_io_should_split b io \<and> split_conf b io \<and> (sp_has_accel_sequence io \<longrightarrow> is_rw (sp_type io)) \<and>
     (if is_rw (sp_type io) \<and> \<not> is_buf_allocated (sp_iovs io)
      then sp_type io = IO_READ \<and> length (sp_iovs io) \<le> 1 else rw_list b io)"

definition split_init :: "split_bdev \<Rightarrow> split_io \<Rightarrow> bool" where
  "split_init b io \<longleftrightarrow> (\<exists>io0 mg. split_ready b io0 \<and> bdev_io_split b mg io0 = Inr io)"

lemma conf_types: "split_conf b io \<Longrightarrow> sp_type io \<in> {IO_READ, IO_WRITE, IO_UNMAP, IO_WRITE_ZEROES, IO_COPY}"
  by (cases "sp_type io") (simp_all add: split_conf_def accepted_def submit_rc_def)

lemma settled_types: "settled b io \<Longrightarrow> sp_type io \<in> {IO_READ, IO_WRITE, IO_UNMAP, IO_WRITE_ZEROES, IO_COPY}"
  by (rule conf_types [of b]) (simp add: settled_def split_base_def)

lemma start_base:
  assumes "split_conf b io" "sp_has_accel_sequence io \<longrightarrow> is_rw (sp_type io)" "sp_children io = []"
    "sp_current_offset_blocks io = sp_offset_blocks io" "sp_remaining_num_blocks io = sp_num_blocks io"
    "sp_outstanding io = 0" "length (sp_child_iov io) = SPDK_BDEV_IO_NUM_CHILD_IOV"
  shows "split_base b io"
  using assms by (simp add: split_base_def)

lemma split_settles:
  assumes "split_ready b io"
  shows "\<exists>io'. bdev_io_split b mg io = Inr io' \<and> settled b io'"
proof -
  define io1 where "io1 = io\<lparr>sp_current_offset_blocks := sp_offset_blocks io,
    sp_remaining_num_blocks := sp_num_blocks io, sp_outstanding := 0, sp_status := STATUS_SUCCESS\<rparr>"
  have r: "req io1 = req io" by (simp add: io1_def req_def)
  have conf: "split_conf b io1" using assms split_conf_req [OF r] by (simp add: split_ready_def)
  have base: "split_base b io1" by (rule start_base) (use assms conf in \<open>simp_all add: split_ready_def io1_def\<close>)
  have eq: "bdev_io_split b mg io =
      (if is_rw (sp_type io) \<and> \<not> is_buf_allocated (sp_iovs io)
       then c_assert (sp_type io = IO_READ) (Inr (io1\<lparr>sp_getting_buf := True\<rparr>)) else split_round b mg io1)"
    using assms conf by (simp add: bdev_io_split_def split_ready_def Let_def io1_def split_conf_def)
  show ?thesis
  proof (cases "is_rw (sp_type io) \<and> \<not> is_buf_allocated (sp_iovs io)")
    case True
    have "split_base b (io1\<lparr>sp_getting_buf := True\<rparr>)"
      using base split_base_cong [of "io1\<lparr>sp_getting_buf := True\<rparr>" io1 b] by (simp add: req_def)
    then have "settled b (io1\<lparr>sp_getting_buf := True\<rparr>)"
      using assms True by (auto simp: settled_def split_ready_def io1_def)
    then show ?thesis using eq True assms by (simp add: split_ready_def)
  next
    case False
    then have "round_start b io1"
      using assms base rw_list_req [OF r, of b]
      by (simp add: round_start_def running_def split_ready_def split_conf_def) (simp add: io1_def)
    then show ?thesis using eq False rounds.rnd_settles [of b io1 mg] conf_types [OF conf] by auto
  qed
qed

section \<open>Completion of a child\<close>

lemma length_filter_update:
  assumes "i < length xs" "P (xs ! i)" "\<not> P y"
  shows "length (filter P (xs[i := y])) = length (filter P xs) - 1" and "0 < length (filter P xs)"
proof -
  have xs: "filter P xs = filter P (take i xs) @ xs ! i # filter P (drop (Suc i) xs)"
    using assms(2) by (subst id_take_nth_drop [OF assms(1)]) simp
  then show "0 < length (filter P xs)" by simp
  show "length (filter P (xs[i := y])) = length (filter P xs) - 1"
    unfolding xs using assms by (simp add: upd_conv_take_nth_drop)
qed

text \<open>The parent after the first part of \<open>bdev_io_split_done\<close>.\<close>

definition child_done :: "nat \<Rightarrow> io_status \<Rightarrow> split_io \<Rightarrow> split_io" where
  "child_done i st io =
     (let io = io\<lparr>sp_children := (sp_children io)[i := (fst (sp_children io ! i), st)]\<rparr>;
          io = (if st \<noteq> STATUS_SUCCESS
                then io\<lparr>sp_status := st,
                        sp_current_offset_blocks := sp_current_offset_blocks io + sp_remaining_num_blocks io,
                        sp_remaining_num_blocks := 0\<rparr>
                else io) in
      io\<lparr>sp_outstanding := sp_outstanding io - 1\<rparr>)"

lemma child_done_simps [simp]:
  "req (child_done i st io) = req io" "sp_cb (child_done i st io) = sp_cb io"
  "sp_child_iov (child_done i st io) = sp_child_iov io" "sp_waiting (child_done i st io) = sp_waiting io"
  "sp_getting_buf (child_done i st io) = sp_getting_buf io" "sp_finishing (child_done i st io) = sp_finishing io"
  "sp_submitted (child_done i st io) = sp_submitted io"
  "sp_has_accel_sequence (child_done i st io) = sp_has_accel_sequence io"
  "sp_outstanding (child_done i st io) = sp_outstanding io - 1"
  "sp_type (child_done i st io) = sp_type io" "sp_offset_blocks (child_done i st io) = sp_offset_blocks io"
  "sp_num_blocks (child_done i st io) = sp_num_blocks io"
  "sp_children (child_done i st io) = (sp_children io)[i := (fst (sp_children io ! i), st)]"
  "sp_status (child_done i st io) = (if st = STATUS_SUCCESS then sp_status io else st)"
  by (simp_all add: child_done_def req_def Let_def)

lemma map_fst_update [simp]: "i < length xs \<Longrightarrow> map fst (xs[i := (fst (xs ! i), y)]) = map fst xs"
  by (metis fst_conv list_update_id map_update nth_map)

lemma child_done_base:
  assumes base: "split_base b io" and i: "i < length (sp_children io)" "pending (sp_children io ! i)" "st \<noteq> STATUS_PENDING"
  shows "split_base b (child_done i st io)" and "sp_outstanding io \<noteq> 0"
proof -
  let ?cs = "(sp_children io)[i := (fst (sp_children io ! i), st)]"
  note f = length_filter_update [of i "sp_children io" pending "(fst (sp_children io ! i), st)"]
  have out: "unat (sp_outstanding io) = length (filter pending (sp_children io))"
    using base by (simp add: split_base_def)
  then have "0 < unat (sp_outstanding io)" using f(2) i by (simp add: pending_def)
  then show nz: "sp_outstanding io \<noteq> 0" by (simp add: unat_pos)
  then have n: "unat (sp_outstanding io - 1) = length (filter pending ?cs)"
    using f(1) i out by (simp add: unat_minus_one pending_def)
  have in_set: "p \<in> set (sp_children io) \<or> p = (fst (sp_children io ! i), st)" if "p \<in> set ?cs" for p
    using that set_update_subset_insert by (metis insertE subsetD)
  have ok: "\<forall>p\<in>set ?cs. child_ok b io (fst p)"
    using base in_set nth_mem [OF i(1)] by (fastforce simp: split_base_def)
  have parts: "\<forall>p\<in>set ?cs. pending p \<longrightarrow> part (c_iov (fst p)) (c_iovcnt (fst p)) (sp_child_iov io) = c_iovs (fst p)"
    using base in_set i(3) by (fastforce simp: split_base_def pending_def)
  have succ: "\<forall>p\<in>set ?cs. pending p \<or> snd p = STATUS_SUCCESS" if "st = STATUS_SUCCESS" "sp_status io = STATUS_SUCCESS"
    using base in_set that by (fastforce simp: split_base_def)
  have "unat (sp_offset_blocks io) + unat (sp_num_blocks io) \<le> unat (bd_blockcnt b)"
    using base accepted_range by (auto simp: split_base_def split_conf_def)
  then have "unat (sp_current_offset_blocks io) + unat (sp_remaining_num_blocks io) < 18446744073709551616"
    using base unat_u64_bound [of "bd_blockcnt b"] by (simp add: split_base_def del: unat_u64_bound)
  then have "unat (sp_current_offset_blocks io + sp_remaining_num_blocks io)
      = unat (sp_current_offset_blocks io) + unat (sp_remaining_num_blocks io)"
    by (rule unat_add_u64)
  then have range: "unat (sp_current_offset_blocks (child_done i st io)) + unat (sp_remaining_num_blocks (child_done i st io))
      = unat (sp_offset_blocks io) + unat (sp_num_blocks io)"
    using base by (simp add: split_base_def child_done_def Let_def)
  show "split_base b (child_done i st io)"
    using base n ok parts succ range i(1)
    by (simp add: split_base_def split_conf_req [OF child_done_simps(1)] child_ok_req [OF child_done_simps(1)])
qed

lemma split_done_eq:
  assumes "sp_split io" and "\<not> sp_cb_is_split_done io"
  shows "bdev_io_split_done b mg i st io =
    (let io = child_done i st io in
     if sp_outstanding io \<noteq> 0 then Inr io
     else if sp_remaining_num_blocks io = 0 then
       let io = io\<lparr>sp_submitted := False\<rparr> in
       if sp_status io = STATUS_SUCCESS \<and> bdev_io_needs_sequence_exec b io
       then c_assert (sp_type io = IO_WRITE \<or> sp_type io = IO_READ) (Inr (io\<lparr>sp_finishing := Some ExecSequence\<rparr>))
       else if sp_status io = STATUS_SUCCESS \<and> sp_has_bounce_buf io
       then Inr (io\<lparr>sp_finishing := Some PushBounce\<rparr>)
       else Inr (parent_bdev_io_complete 0 io)
     else split_round b mg io)"
proof -
  have "\<not> sp_cb_is_split_done (child_done i st io)" using assms(2) by (simp add: child_done_def Let_def)
  then show ?thesis
    using assms unfolding bdev_io_split_done_def child_done_def c_assert_def Let_def
    by (simp only: if_True simp_thms)
qed

lemma settled_active:
  assumes "settled b io" and "sp_outstanding io \<noteq> 0"
  shows "split_base b io" "sp_cb io = []" "sp_submitted io" "\<not> sp_waiting io" "\<not> sp_getting_buf io"
    "sp_finishing io = None" "rw_list b io"
    "sp_status io = STATUS_SUCCESS \<and>
       blocks (map fst (sp_children io)) + unat (sp_remaining_num_blocks io) = unat (sp_num_blocks io)
     \<or> sp_status io \<noteq> STATUS_SUCCESS \<and> sp_status io \<noteq> STATUS_PENDING \<and>
       blocks (map fst (sp_children io)) \<le> unat (sp_num_blocks io) \<and> sp_remaining_num_blocks io = 0"
  using assms unfolding settled_def by (auto split: if_splits)

text \<open>The last child of a round has completed.\<close>

lemma child_done_last:
  assumes base: "split_base b io" and out: "sp_outstanding io = 0" and cb: "sp_cb io = []"
    and no: "\<not> sp_waiting io" "\<not> sp_getting_buf io" "sp_finishing io = None" and list: "rw_list b io"
    and rem: "sp_remaining_num_blocks io = 0"
    and n: "blocks (map fst (sp_children io)) \<le> unat (sp_num_blocks io)"
      "sp_status io = STATUS_SUCCESS \<Longrightarrow> blocks (map fst (sp_children io)) = unat (sp_num_blocks io)"
  shows "sp_status io = STATUS_SUCCESS \<Longrightarrow> settled b (io\<lparr>sp_submitted := False, sp_finishing := Some f\<rparr>)"
    and "settled b (parent_bdev_io_complete 0 (io\<lparr>sp_submitted := False\<rparr>))"
proof -
  let ?s = "io\<lparr>sp_submitted := False, sp_finishing := Some f\<rparr>"
  let ?t = "parent_bdev_io_complete 0 (io\<lparr>sp_submitted := False\<rparr>)"
  have r: "req ?s = req io" "req ?t = req io" by (simp_all add: req_def parent_bdev_io_complete_def Let_def)
  have "split_base b ?s" using base split_base_cong [of ?s io b, OF r(1)] by simp
  then show "settled b ?s" if "sp_status io = STATUS_SUCCESS"
    using that out cb no rem n(2) rw_list_req [OF r(1), of b] list by (simp add: settled_def)
  have "split_base b ?t"
    using base split_base_cong [of ?t io b, OF r(2)] by (simp add: parent_bdev_io_complete_def Let_def)
  then show "settled b ?t"
    using out cb no n by (simp add: settled_def parent_bdev_io_complete_def Let_def)
qed

lemma done_settles:
  assumes s: "settled b io" and i: "i < length (sp_children io)" "snd (sp_children io ! i) = STATUS_PENDING" "st \<noteq> STATUS_PENDING"
  shows "\<exists>io'. bdev_io_split_done b mg i st io = Inr io' \<and> settled b io' \<and> slack io' < slack io"
proof -
  let ?t = "child_done i st io"
  have "split_base b io" using s by (simp add: settled_def)
  note cd = child_done_base [OF this i(1) _ i(3)]
  have base: "split_base b ?t" and out: "sp_outstanding io \<noteq> 0" using cd i(2) by (simp_all add: pending_def)
  note a = settled_active [OF s out]
  have conf: "split_conf b ?t" using base by (simp add: split_base_def)
  have list: "rw_list b ?t" using a(7) rw_list_req [OF child_done_simps(1)] by simp
  have st: "sp_status ?t = STATUS_SUCCESS \<and>
       blocks (map fst (sp_children ?t)) + unat (sp_remaining_num_blocks ?t) = unat (sp_num_blocks ?t)
     \<or> sp_status ?t \<noteq> STATUS_SUCCESS \<and> sp_status ?t \<noteq> STATUS_PENDING \<and>
       blocks (map fst (sp_children ?t)) \<le> unat (sp_num_blocks ?t) \<and> sp_remaining_num_blocks ?t = 0"
    using a(8) i by (auto simp: child_done_def Let_def)
  have "unat (sp_outstanding io - 1) < unat (sp_outstanding io)"
    using out by (simp add: unat_minus_one unat_pos)
  then have slack: "slack ?t < slack io" by (simp add: slack_def) (simp add: child_done_def Let_def)
  have eq: "bdev_io_split_done b mg i st io = (let io = ?t in
     if sp_outstanding io \<noteq> 0 then Inr io
     else if sp_remaining_num_blocks io = 0 then
       let io = io\<lparr>sp_submitted := False\<rparr> in
       if sp_status io = STATUS_SUCCESS \<and> bdev_io_needs_sequence_exec b io
       then c_assert (sp_type io = IO_WRITE \<or> sp_type io = IO_READ) (Inr (io\<lparr>sp_finishing := Some ExecSequence\<rparr>))
       else if sp_status io = STATUS_SUCCESS \<and> sp_has_bounce_buf io
       then Inr (io\<lparr>sp_finishing := Some PushBounce\<rparr>)
       else Inr (parent_bdev_io_complete 0 io)
     else split_round b mg io)"
    by (rule split_done_eq) (use a(1) in \<open>simp_all add: split_base_def split_conf_def\<close>)
  consider "sp_outstanding ?t \<noteq> 0" | "sp_outstanding ?t = 0" "sp_remaining_num_blocks ?t \<noteq> 0"
    | "sp_outstanding ?t = 0" "sp_remaining_num_blocks ?t = 0" by blast
  then show ?thesis
  proof cases
    case 1
    then have "settled b ?t" using base list st a unfolding settled_def by (simp del: child_done_simps(9,13,14))
    then show ?thesis using 1 slack by (simp add: eq)
  next
    case 2
    then have "round_start b ?t" using base list st a unfolding round_start_def running_def by auto
    then show ?thesis
      using 2 rounds.rnd_settles [of b ?t mg] conf_types [OF conf] slack by (auto simp: eq)
  next
    case 3
    have n: "blocks (map fst (sp_children ?t)) \<le> unat (sp_num_blocks ?t)"
        "sp_status ?t = STATUS_SUCCESS \<Longrightarrow> blocks (map fst (sp_children ?t)) = unat (sp_num_blocks ?t)"
      using st 3 by auto
    have last: "settled b (?t\<lparr>sp_submitted := False, sp_finishing := Some f\<rparr>)" if "sp_status ?t = STATUS_SUCCESS" for f
      by (rule child_done_last(1) [OF base 3(1) _ _ _ _ list 3(2) n that]) (use a in simp_all)
    have fail: "settled b (parent_bdev_io_complete 0 (?t\<lparr>sp_submitted := False\<rparr>))"
      by (rule child_done_last(2) [OF base 3(1) _ _ _ _ list 3(2) n]) (use a in simp_all)
    have rw: "bdev_io_needs_sequence_exec b (?t\<lparr>sp_submitted := False\<rparr>) \<Longrightarrow> sp_type io = IO_WRITE \<or> sp_type io = IO_READ"
      using a(1) by (auto simp: bdev_io_needs_sequence_exec_def split_base_def split: if_splits)
    have sl: "slack (?t\<lparr>sp_submitted := False, sp_finishing := Some f\<rparr>) = slack ?t"
        "slack (parent_bdev_io_complete 0 (?t\<lparr>sp_submitted := False\<rparr>)) = slack ?t" for f
      by (simp_all add: slack_def parent_bdev_io_complete_def Let_def)
    show ?thesis
      using 3 last fail rw slack unfolding eq Let_def
      by (simp add: sl del: child_done_simps(9,13,14) split: if_split)
  qed
qed

section \<open>The other events\<close>

lemma get_buf_settles:
  fixes buf :: u64
  assumes s: "settled b io" and g: "sp_getting_buf io"
  defines "io1 \<equiv> spdk_bdev_io_set_buf buf (sp_num_blocks io * ucast (bdev_io_get_block_size b io)) (io\<lparr>sp_getting_buf := False\<rparr>)"
  shows "\<exists>io'. bdev_rw_split_get_buf_cb b mg True io1 = Inr io' \<and> settled b io' \<and> slack io' < slack io"
    and "\<exists>io'. bdev_rw_split_get_buf_cb b mg False (io\<lparr>sp_getting_buf := False\<rparr>) = Inr io' \<and> settled b io' \<and> slack io' < slack io"
proof -
  let ?bl = "bdev_io_get_block_size b io" and ?io = "io\<lparr>sp_getting_buf := False\<rparr>"
  have f: "split_base b io" "sp_cb io = []" "sp_submitted io" "sp_finishing io = None" "sp_outstanding io = 0"
      "\<not> sp_waiting io" "sp_children io = []" "sp_type io = IO_READ" "length (sp_iovs io) \<le> 1"
      "sp_status io = STATUS_SUCCESS" "sp_remaining_num_blocks io = sp_num_blocks io"
    using s g unfolding settled_def by (auto simp: unat_eq_iff split: if_splits)
  have conf: "split_conf b io" using f(1) by (simp add: split_base_def)
  have n: "sp_num_blocks io \<noteq> 0" "?bl \<noteq> 0" "unat (sp_num_blocks io) * unat ?bl < 4294967296"
    using rw_conf [OF conf] f(8) conf by (auto simp: split_conf_def)
  have len: "unat (sp_num_blocks io * ucast ?bl) = unat (sp_num_blocks io) * unat ?bl"
    using n(3) unat_mult_lem [of "sp_num_blocks io" "ucast ?bl"] by simp
  have iovs: "sp_iovs io1 = [\<lparr>iov_base = buf, iov_len = sp_num_blocks io * ucast ?bl\<rparr>]"
    using f(9) by (cases "sp_iovs io") (simp_all add: io1_def spdk_bdev_io_set_buf_def)
  have bs: "bdev_io_get_block_size b io1 = ?bl"
    by (simp add: io1_def spdk_bdev_io_set_buf_def bdev_io_get_block_size_def)
  have same: "sp_type io1 = sp_type io" "sp_num_blocks io1 = sp_num_blocks io"
    by (simp_all add: io1_def spdk_bdev_io_set_buf_def)
  have "0 < unat (sp_num_blocks io) * unat ?bl" using n by (simp add: unat_pos)
  then have "sp_num_blocks io * ucast ?bl \<noteq> 0" using len by (metis less_irrefl unat_0)
  then have list: "rw_list b io1" using n len by (simp add: rw_list_def small_list_def iovs bs same)
  have conf1: "split_conf b io1"
    using conf f(8) bs by (simp add: split_conf_def accepted_def submit_rc_def io1_def spdk_bdev_io_set_buf_def)
  have "split_base b io1"
    using f conf1 by (simp add: split_base_def) (simp add: io1_def spdk_bdev_io_set_buf_def)
  then have "round_start b io1"
    using f list n by (simp add: round_start_def running_def) (simp add: io1_def spdk_bdev_io_set_buf_def)
  moreover have "slack io1 < slack io" using g by (simp add: slack_def io1_def spdk_bdev_io_set_buf_def)
  ultimately show "\<exists>io'. bdev_rw_split_get_buf_cb b mg True io1 = Inr io' \<and> settled b io' \<and> slack io' < slack io"
    using rw.rnd_settles [of b io1 mg] f(8) same by (auto simp: bdev_rw_split_get_buf_cb_def)
  let ?t = "complete_failed (?io\<lparr>sp_status := STATUS_FAILED\<rparr>)"
  have r: "req ?t = req io" by (simp add: req_def complete_failed_def)
  have "split_base b ?t"
    using f by (simp add: split_base_def split_conf_req [OF r]) (simp add: complete_failed_def)
  moreover have "sp_cb ?t = [False]" using f by (simp add: complete_failed_def)
  ultimately have "settled b ?t" using f by (auto simp: settled_def complete_failed_def)
  then show "\<exists>io'. bdev_rw_split_get_buf_cb b mg False ?io = Inr io' \<and> settled b io' \<and> slack io' < slack io"
    using g by (simp add: bdev_rw_split_get_buf_cb_def slack_def complete_failed_def)
qed

lemma finish_settles:
  assumes s: "settled b io" and f: "sp_finishing io = Some f"
  shows "settled b (parent_bdev_io_complete rc (io\<lparr>sp_finishing := None, sp_has_accel_sequence := a \<and> sp_has_accel_sequence io\<rparr>))"
    and "sp_status io = STATUS_SUCCESS" and "\<not> sp_accel_sequence io"
proof -
  let ?t = "parent_bdev_io_complete rc (io\<lparr>sp_finishing := None, sp_has_accel_sequence := a \<and> sp_has_accel_sequence io\<rparr>)"
  have c: "split_base b io" "sp_cb io = []" "\<not> sp_submitted io" "sp_outstanding io = 0" "\<not> sp_waiting io" "\<not> sp_getting_buf io"
      "sp_remaining_num_blocks io = 0" "blocks (map fst (sp_children io)) = unat (sp_num_blocks io)"
    and st: "sp_status io = STATUS_SUCCESS"
    using s f unfolding settled_def by (auto split: if_splits)
  have r: "req ?t = req io" by (simp add: req_def parent_bdev_io_complete_def Let_def)
  have "split_base b ?t"
    using c st unfolding split_base_def split_conf_req [OF r] child_ok_req [OF r]
    by (simp add: parent_bdev_io_complete_def Let_def)
  then show "settled b ?t" using c by (simp add: settled_def parent_bdev_io_complete_def Let_def)
  show "sp_status io = STATUS_SUCCESS" by (fact st)
  show "\<not> sp_accel_sequence io" using c(1) by (simp add: split_base_def split_conf_def)
qed

section \<open>Runs\<close>

text \<open>What is left to do: blocks and children, and the events that are to come before the next child
  or the end. It decreases with every event but a wake-up that finds no I/O object.\<close>

definition work :: "split_io \<Rightarrow> nat" where
  "work io = 3 * slack io + (if sp_waiting io then 1 else 0) + (if sp_finishing io \<noteq> None then 1 else 0)"

lemma settled_work: "settled b io \<Longrightarrow> work io \<le> 3 * slack io + 1"
  by (auto simp: settled_def work_def split: if_splits)

lemma slack_less_work: "settled b io' \<Longrightarrow> slack io' < slack io \<Longrightarrow> work io' < work io"
  using settled_work [of b io'] by (simp add: work_def)

lemma wake_work:
  assumes "settled b io" "sp_waiting io" "settled b io'" "slack io' \<le> slack io"
  shows "work io' < work io \<or> sp_waiting io' \<and> work io' = work io"
proof -
  have "0 < slack io" using assms(1,2) by (auto simp: settled_def slack_def unat_pos split: if_splits)
  moreover have "sp_finishing io' \<noteq> None \<Longrightarrow> slack io' = 0 \<and> \<not> sp_waiting io'"
    using assms(3) by (auto simp: settled_def slack_def split: if_splits)
  ultimately show ?thesis using assms(2,4) by (auto simp: work_def)
qed

lemma complete_work [simp]: "work (parent_bdev_io_complete rc io) = work io"
  by (simp add: work_def slack_def parent_bdev_io_complete_def Let_def)

lemma finish_work:
  "sp_finishing io \<noteq> None \<Longrightarrow> work (io\<lparr>sp_finishing := None, sp_has_accel_sequence := a\<rparr>) < work io"
  by (simp add: work_def slack_def)

inductive_cases split_stepE: "split_step b io io'"

lemma step_settled:
  assumes "split_step b io io'" and s: "settled b io"
  shows "settled b io' \<and> (work io' < work io \<or> sp_waiting io \<and> sp_waiting io' \<and> work io' = work io)"
  using assms(1)
proof cases
  case (child_done i st mg)
  then have "settled b io'" "slack io' < slack io" using done_settles [OF s, of i st mg] by auto
  then show ?thesis using slack_less_work by blast
next
  case (wake mg)
  then have "settled b io'" "slack io' \<le> slack io"
    using rounds.rnd_wake [OF s wake(1) settled_types [OF s], of mg] by auto
  then show ?thesis using wake_work [OF s] wake(1) by blast
next
  case (got_buf mg buf)
  then have "settled b io'" "slack io' < slack io" using get_buf_settles(1) [OF s got_buf(1), where buf = buf and mg = mg] by auto
  then show ?thesis using slack_less_work by blast
next
  case (no_buf mg)
  then have "settled b io'" "slack io' < slack io" using get_buf_settles(2) [OF s, of mg] by auto
  then show ?thesis using slack_less_work by blast
next
  case (pushed rc)
  then show ?thesis using finish_settles(1) [OF s pushed(1), of rc True] finish_work [of io "sp_has_accel_sequence io"] by simp
next
  case (executed rc)
  have "io' = parent_bdev_io_complete rc (io\<lparr>sp_finishing := None, sp_has_accel_sequence := False\<rparr>)"
    using executed(2) by (simp add: bdev_io_complete_parent_sequence_cb_def)
  then show ?thesis
    using finish_settles(1) [OF s executed(1), of rc False] finish_work [of io False] executed(1) by simp
qed

lemma init_settled: "split_init b io \<Longrightarrow> settled b io"
  using split_settles unfolding split_init_def by (metis sum.inject(2))

interpretation split_run: transition_invariant "split_step b" "split_init b" "settled b" for b
  by unfold_locales (use init_settled step_settled in blast)+

section \<open>Facts about settled states\<close>

lemma settled_children:
  assumes "settled b io"
  shows "contiguous (unat (sp_offset_blocks io)) (map fst (sp_children io))"
    and "blocks (map fst (sp_children io)) \<le> unat (sp_num_blocks io)"
    and "p \<in> set (sp_children io) \<Longrightarrow> child_ok b io (fst p)"
  using assms by (auto simp: settled_def split_base_def split: if_splits)

lemma children_data:
  fixes bl off0 :: nat
  assumes "contiguous off cs" and "off0 \<le> off"
    and "\<And>c. c \<in> set cs \<Longrightarrow> addrs (c_iovs c) = take (unat (c_num_blocks c) * bl) (drop ((unat (c_offset_blocks c) - off0) * bl) A)"
  shows "concat (map (\<lambda>c. addrs (c_iovs c)) cs) = take (blocks cs * bl) (drop ((off - off0) * bl) A)"
  using assms
proof (induction cs arbitrary: off)
  case (Cons c cs)
  have c: "addrs (c_iovs c) = take (unat (c_num_blocks c) * bl) (drop ((off - off0) * bl) A)"
    using Cons.prems(1) Cons.prems(3) [of c] by simp
  have IH: "concat (map (\<lambda>c. addrs (c_iovs c)) cs)
      = take (blocks cs * bl) (drop ((off + unat (c_num_blocks c) - off0) * bl) A)"
    by (rule Cons.IH) (use Cons.prems in simp_all)
  have "(off + unat (c_num_blocks c) - off0) * bl = unat (c_num_blocks c) * bl + (off - off0) * bl"
    using Cons.prems(2) by (simp add: add.commute [of off] flip: distrib_right)
  then show ?case by (simp add: c IH distrib_right take_add)
qed simp

lemma settled_data:
  assumes "settled b io" and "is_rw (sp_type io)"
  shows "concat (map (\<lambda>c. addrs (c_iovs c)) (map fst (sp_children io))) =
    take (blocks (map fst (sp_children io)) * unat (bdev_io_get_block_size b io)) (addrs (sp_iovs io))"
proof -
  have "addrs (c_iovs c) = take (unat (c_num_blocks c) * unat (bdev_io_get_block_size b io))
      (drop ((unat (c_offset_blocks c) - unat (sp_offset_blocks io)) * unat (bdev_io_get_block_size b io)) (addrs (sp_iovs io)))"
    if c: "c \<in> set (map fst (sp_children io))" for c
  proof -
    obtain p where "p \<in> set (sp_children io)" "c = fst p" using c by auto
    then have "child_ok b io c" using settled_children(3) [OF assms(1)] by simp
    then show ?thesis using assms(2) unfolding child_ok_def by blast
  qed
  from children_data [OF settled_children(1) [OF assms(1)] order_refl this] show ?thesis by simp
qed

lemma settled_no_pending:
  assumes "settled b io" and "sp_outstanding io = 0" and "p \<in> set (sp_children io)"
  shows "snd p \<noteq> STATUS_PENDING"
proof -
  have "unat (sp_outstanding io) = length (filter pending (sp_children io))"
    using assms(1) by (simp add: settled_def split_base_def)
  then have "filter pending (sp_children io) = []" using assms(2) by simp
  then show ?thesis using assms(3) by (simp add: filter_empty_conv pending_def)
qed

lemma settled_all_done:
  assumes "settled b io" and "sp_cb io \<noteq> []" and "p \<in> set (sp_children io)"
  shows "snd p \<noteq> STATUS_PENDING" and "sp_cb io = [True] \<Longrightarrow> snd p = STATUS_SUCCESS"
proof -
  have out: "sp_outstanding io = 0" and st: "sp_cb io = [True] \<Longrightarrow> sp_status io = STATUS_SUCCESS"
    using assms(1,2) by (auto simp: settled_def)
  show np: "snd p \<noteq> STATUS_PENDING" by (rule settled_no_pending [OF assms(1) out assms(3)])
  show "snd p = STATUS_SUCCESS" if "sp_cb io = [True]"
    using st [OF that] np assms(1,3) unfolding settled_def split_base_def pending_def by blast
qed


section \<open>An example\<close>

text \<open>A device that splits at every second block of 4 bytes and takes lists of at most two elements; a
  read of three blocks that starts at block 1.\<close>

definition example_bdev :: split_bdev where
  "example_bdev = \<lparr>bd_blockcnt = 100, bd_blocklen = 4, bd_md_len = 0, bd_dif_pi_format = PI_FORMAT_16,
     bd_split_on_write_unit = False, bd_split_on_optimal_io_boundary = True, bd_write_unit_size = 0,
     bd_optimal_io_boundary = 2, bd_max_segment_size = 3, bd_max_num_segments = 2, bd_max_unmap = 0,
     bd_max_unmap_segments = 0, bd_max_write_zeroes = 0, bd_max_copy = 0, bd_max_rw_size = 0,
     bd_supported = (\<lambda>_. True), bd_accel_sequence_supported = (\<lambda>_. False)\<rparr>"

definition example_io :: split_io where
  "example_io = example_request IO_READ 1 3 [\<lparr>iov_base = 1000, iov_len = 5\<rparr>, \<lparr>iov_base = 2000, iov_len = 7\<rparr>]"

definition example_start :: split_io where
  "example_start = projr (bdev_io_split example_bdev (\<lambda>_. full_pool) example_io)"

lemma example_ready: "split_ready example_bdev example_io"
proof -
  have "crosses_boundary 2 1 3" by (simp add: crosses_boundary_iff)
  then show ?thesis
    by (simp add: split_ready_def example_io_def example_request_def example_bdev_def bdev_io_should_split_def bdev_rw_should_split_def
        bdev_rw_get_io_boundary_def split_conf_def accepted_def full_pool_def rc_defs valid_blocks_iff bdev_channel_get_io_def
        bdev_io_get_block_size_def bdev_desc_get_block_size_def rw_io_boundary_def rw_list_def small_list_def
        is_buf_allocated_def)
qed

lemma example_init: "split_init example_bdev example_start"
proof -
  obtain io' where "bdev_io_split example_bdev (\<lambda>_. full_pool) example_io = Inr io'"
    using split_settles [OF example_ready] by blast
  then show ?thesis using example_ready unfolding split_init_def example_start_def by (metis sum.sel(2))
qed

lemma example_children:
  "map (\<lambda>p. (unat (c_offset_blocks (fst p)), unat (c_num_blocks (fst p)), c_iovs (fst p))) (sp_children example_start)
     = [(1, 1, [\<lparr>iov_base = 1000, iov_len = 3\<rparr>, \<lparr>iov_base = 1003, iov_len = 1\<rparr>]),
        (2, 1, [\<lparr>iov_base = 1004, iov_len = 1\<rparr>, \<lparr>iov_base = 2000, iov_len = 3\<rparr>]),
        (3, 1, [\<lparr>iov_base = 2003, iov_len = 3\<rparr>, \<lparr>iov_base = 2006, iov_len = 1\<rparr>])]"
  by code_simp

lemma example_type: "sp_type example_start = IO_READ"
  by code_simp

text \<open>The same run after the children have completed, one after the other.\<close>

definition example_done :: "nat \<Rightarrow> split_io \<Rightarrow> split_io" where
  "example_done i io = projr (bdev_io_split_done example_bdev (\<lambda>_. full_pool) i STATUS_SUCCESS io)"

definition example_end :: split_io where
  "example_end = example_done 2 (example_done 0 (example_done 1 example_start))"

lemma example_step:
  assumes "settled example_bdev io" and "i < length (map snd (sp_children io))" and "map snd (sp_children io) ! i = STATUS_PENDING"
  shows "split_step example_bdev io (example_done i io)" and "settled example_bdev (example_done i io)"
proof -
  obtain io' where "bdev_io_split_done example_bdev (\<lambda>_. full_pool) i STATUS_SUCCESS io = Inr io'" "settled example_bdev io'"
    using done_settles [OF assms(1), of i STATUS_SUCCESS "\<lambda>_. full_pool"] assms(2,3) by auto
  then show "split_step example_bdev io (example_done i io)" "settled example_bdev (example_done i io)"
    using assms(2,3) split_step.child_done [of i io STATUS_SUCCESS example_bdev "\<lambda>_. full_pool" io']
    by (simp_all add: example_done_def)
qed

lemma example_states:
  "map snd (sp_children example_start) = [STATUS_PENDING, STATUS_PENDING, STATUS_PENDING]"
  "map snd (sp_children (example_done 1 example_start)) = [STATUS_PENDING, STATUS_SUCCESS, STATUS_PENDING]"
  "map snd (sp_children (example_done 0 (example_done 1 example_start))) = [STATUS_SUCCESS, STATUS_SUCCESS, STATUS_PENDING]"
  by code_simp+

lemma example_run: "(split_step example_bdev)\<^sup>*\<^sup>* example_start example_end"
proof -
  let ?s1 = "example_done 1 example_start" and ?s2 = "example_done 0 (example_done 1 example_start)"
  have s0: "settled example_bdev example_start" by (rule init_settled [OF example_init])
  have s1: "split_step example_bdev example_start ?s1" "settled example_bdev ?s1"
    by (rule example_step [OF s0]; simp add: example_states del: length_map)+
  have s2: "split_step example_bdev ?s1 ?s2" "settled example_bdev ?s2"
    by (rule example_step [OF s1(2)]; simp add: example_states del: length_map One_nat_def)+
  have s3: "split_step example_bdev ?s2 example_end"
    unfolding example_end_def by (rule example_step [OF s2(2)]; simp add: example_states del: length_map One_nat_def)
  show ?thesis
    by (rule rtranclp.rtrancl_into_rtrancl [OF rtranclp.rtrancl_into_rtrancl
          [OF rtranclp.rtrancl_into_rtrancl [OF rtranclp.rtrancl_refl]]]) (fact s1(1) s2(1) s3)+
qed

lemma example_end_cb: "sp_cb example_end = [True]"
  by code_simp

section \<open>Properties\<close>

text \<open>C2 (functional). In every state of the run of a regular split I/O (not empty; a read or write of
  fewer than \<open>2 ^ 32\<close> bytes in non-empty elements, with no boundary of 0 and fewer than \<open>2 ^ 31\<close>
  segments; a product of the unmap limits below \<open>2 ^ 32\<close>) the children submitted so far are adjacent and not empty, start at the
  first block of the parent and do not exceed it; each of them is within the limits of the device
  (it would not be split again), and the lists of the children of a read or write are, one after
  the other, the first bytes of the list of the parent. A child that is in flight finds its list in
  the array unchanged; the source of a child of a copy is as far from the source of the parent as
  the child is from the parent.\<close>

theorem split_children_tile:
  assumes "split_init b s" and "(split_step b)\<^sup>*\<^sup>* s t"
  shows "contiguous (unat (sp_offset_blocks t)) (map fst (sp_children t)) \<and>
    blocks (map fst (sp_children t)) \<le> unat (sp_num_blocks t) \<and>
    (\<forall>(c, st)\<in>set (sp_children t).
       \<not> bdev_io_should_split b (child_io t c) \<and>
       c_src_offset_blocks c - sp_src_offset_blocks t = c_offset_blocks c - sp_offset_blocks t \<and>
       (st = STATUS_PENDING \<longrightarrow> part (c_iov c) (c_iovcnt c) (sp_child_iov t) = c_iovs c)) \<and>
    (is_rw (sp_type t) \<longrightarrow>
       concat (map (\<lambda>p. addrs (c_iovs (fst p))) (sp_children t)) =
       take (blocks (map fst (sp_children t)) * unat (bdev_io_get_block_size b t)) (addrs (sp_iovs t)))"
proof -
  have s: "settled b t" by (rule split_run.reachable_inv [OF assms])
  note c = settled_children [OF s]
  have "is_rw (sp_type t) \<longrightarrow> concat (map (\<lambda>p. addrs (c_iovs (fst p))) (sp_children t)) =
      take (blocks (map fst (sp_children t)) * unat (bdev_io_get_block_size b t)) (addrs (sp_iovs t))"
    using settled_data [OF s] by (simp add: comp_def)
  moreover have "\<forall>(c, st)\<in>set (sp_children t).
      \<not> bdev_io_should_split b (child_io t c) \<and>
      c_src_offset_blocks c - sp_src_offset_blocks t = c_offset_blocks c - sp_offset_blocks t \<and>
      (st = STATUS_PENDING \<longrightarrow> part (c_iov c) (c_iovcnt c) (sp_child_iov t) = c_iovs c)"
  proof clarify
    fix ch st assume p: "(ch, st) \<in> set (sp_children t)"
    then have "child_ok b t ch" "st = STATUS_PENDING \<longrightarrow> part (c_iov ch) (c_iovcnt ch) (sp_child_iov t) = c_iovs ch"
      using c(3) [OF p] s by (auto simp: settled_def split_base_def pending_def)
    then show "\<not> bdev_io_should_split b (child_io t ch) \<and>
        c_src_offset_blocks ch - sp_src_offset_blocks t = c_offset_blocks ch - sp_offset_blocks t \<and>
        (st = STATUS_PENDING \<longrightarrow> part (c_iov ch) (c_iovcnt ch) (sp_child_iov t) = c_iovs ch)"
      by (simp add: child_ok_def)
  qed
  ultimately show ?thesis using c(1,2) by (intro conjI)
qed

theorem split_children_tile_witness:
  "contiguous (unat (sp_offset_blocks example_start)) (map fst (sp_children example_start)) \<and>
   concat (map (\<lambda>p. addrs (c_iovs (fst p))) (sp_children example_start)) =
     take (blocks (map fst (sp_children example_start)) * unat (bdev_io_get_block_size example_bdev example_start))
       (addrs (sp_iovs example_start)) \<and> length (sp_children example_start) = 3"
proof -
  have l: "length (sp_children example_start) = 3"
    using arg_cong [OF example_children, of length] by simp
  note t = split_children_tile [OF example_init rtranclp.rtrancl_refl]
  show ?thesis
    using t [THEN conjunct1] t [THEN conjunct2, THEN conjunct2, THEN conjunct2, THEN mp, OF disjI1 [OF example_type]] l
    by (intro conjI)
qed

text \<open>C3 (safety). The callback of a regular split I/O is called at most once, after all its children have completed and
  it has left the list of submitted I/O; it reports success only if the children cover the whole
  parent and all of them succeeded.\<close>

theorem split_completes_once:
  assumes "split_init b s" and "(split_step b)\<^sup>*\<^sup>* s t" and "sp_cb t \<noteq> []"
  shows "\<exists>success. sp_cb t = [success] \<and> \<not> sp_submitted t \<and> \<not> sp_waiting t \<and>
    (\<forall>(c, st)\<in>set (sp_children t). st \<noteq> STATUS_PENDING) \<and>
    (success \<longrightarrow> blocks (map fst (sp_children t)) = unat (sp_num_blocks t) \<and>
       (\<forall>(c, st)\<in>set (sp_children t). st = STATUS_SUCCESS))"
proof -
  have s: "settled b t" by (rule split_run.reachable_inv [OF assms(1,2)])
  then obtain r where r: "sp_cb t = [r]" "\<not> sp_submitted t" "\<not> sp_waiting t"
      "r \<longrightarrow> blocks (map fst (sp_children t)) = unat (sp_num_blocks t)"
    using assms(3) by (auto simp: settled_def)
  moreover have "\<forall>(c, st)\<in>set (sp_children t). st \<noteq> STATUS_PENDING"
    using settled_all_done(1) [OF s assms(3)] by (simp add: case_prod_beta)
  moreover have "\<forall>(c, st)\<in>set (sp_children t). st = STATUS_SUCCESS" if r
    using settled_all_done(2) [OF s assms(3)] r(1) that by (simp add: case_prod_beta)
  ultimately show ?thesis by (intro exI [of _ r]) simp
qed

theorem split_completes_once_witness:
  "\<exists>success. sp_cb example_end = [success] \<and> \<not> sp_submitted example_end \<and> \<not> sp_waiting example_end \<and>
    (\<forall>(c, st)\<in>set (sp_children example_end). st \<noteq> STATUS_PENDING) \<and>
    (success \<longrightarrow> blocks (map fst (sp_children example_end)) = unat (sp_num_blocks example_end) \<and>
       (\<forall>(c, st)\<in>set (sp_children example_end). st = STATUS_SUCCESS))"
  by (rule split_completes_once [OF example_init example_run]) (simp add: example_end_cb)






section \<open>Outside the conditions\<close>

text \<open>C39 (error). A read or write of no blocks at a boundary that is to be kept counts as crossing it, because the
  index of its last block is computed as its first block minus one. It is split into no children,
  and nothing completes it: no event is left.\<close>

theorem zero_length_split_hangs:
  assumes "is_rw (sp_type io)" and "sp_num_blocks io = 0"
    and "bdev_rw_get_io_boundary b (sp_type io) \<noteq> 0" "unat (bdev_rw_get_io_boundary b (sp_type io)) dvd unat (sp_offset_blocks io)"
    and "is_buf_allocated (sp_iovs io)" "sp_split io" "sp_children io = []"
    and "sp_cb io = []" "\<not> sp_waiting io" "\<not> sp_getting_buf io" "sp_finishing io = None"
  shows "bdev_io_should_split b io \<and>
    (\<exists>io'. bdev_io_split b mg io = Inr io' \<and> sp_cb io' = [] \<and> sp_children io' = [] \<and> (\<forall>t. \<not> split_step b io' t))"
proof -
  define io1 where "io1 = io\<lparr>sp_current_offset_blocks := sp_offset_blocks io,
    sp_remaining_num_blocks := sp_num_blocks io, sp_outstanding := 0, sp_status := STATUS_SUCCESS\<rparr>"
  have split: "bdev_io_should_split b io"
    using assms(1-3) crosses_boundary_0 [OF assms(3,4)]
    by (auto simp: bdev_io_should_split_def bdev_rw_should_split_def Let_def)
  have "bdev_rw_split b mg io1 = Inr io1"
    using assms(2,6) by (simp add: bdev_rw_split_def rw_loop.simps io1_def split: prod.split)
  then have "bdev_io_split b mg io = Inr io1"
    using split assms(1,5,6) by (auto simp: bdev_io_split_def split_round_def Let_def io1_def)
  moreover have "\<not> split_step b io1 t" for t
    using assms(7-) by (auto simp: io1_def elim!: split_stepE)
  ultimately show ?thesis using split assms(7,8) by (auto simp: io1_def)
qed

theorem zero_length_split_hangs_witness:
  "\<exists>io'. bdev_io_split example_limits (\<lambda>_. full_pool) (example_request IO_READ 8 0 [\<lparr>iov_base = 4096, iov_len = 0\<rparr>]) = Inr io' \<and>
     sp_cb io' = [] \<and> sp_children io' = [] \<and> (\<forall>t. \<not> split_step example_limits io' t)"
  by (rule zero_length_split_hangs [THEN conjunct2])
     (simp_all add: example_limits_def example_request_def bdev_rw_get_io_boundary_def is_buf_allocated_def)

text \<open>A device that splits on a boundary of zero blocks: \<open>bdev_rw_get_io_boundary\<close> takes the zero for the
  absence of a boundary, but the first round divides by it.\<close>

lemma zero_boundary_undefined:
  assumes "sp_type io = IO_READ" "bd_split_on_optimal_io_boundary b" "bd_optimal_io_boundary b = 0"
    and "sp_split io" "sp_remaining_num_blocks io \<noteq> 0" "sp_current_offset_blocks io = sp_offset_blocks io"
    and "sp_iovs io = v # vs" "iov_len v \<noteq> 0"
  shows "bdev_rw_get_io_boundary b (sp_type io) = 0" and "bdev_rw_split b mg io = Inl Undefined"
  using assms
  by (simp_all add: bdev_rw_get_io_boundary_def bdev_rw_split_def rw_loop.simps rw_child_def rw_io_boundary_def
      to_next_boundary_def word_gt_0)

lemma split_reqs_zero:
  assumes "sp_type io = IO_UNMAP" "sp_split io" "sp_desc_write io" "rem \<noteq> 0" "n \<le> mx"
    and "unat off \<le> unat (bd_blockcnt b)" "\<And>i. bdev_channel_get_io (mg i)"
    and "sp_remaining_num_blocks io = rem" "sp_current_offset_blocks io = off"
  shows "\<exists>io'. split_reqs b mg 0 mx n off rem io = Inr io' \<and>
    sp_remaining_num_blocks io' = rem \<and> sp_current_offset_blocks io' = off \<and>
    (\<exists>cs. sp_children io' = sp_children io @ cs \<and> length cs = mx - n \<and> (\<forall>(c, st)\<in>set cs. c_num_blocks c = 0))"
  using assms
proof (induction "mx - n" arbitrary: n io)
  case 0
  then show ?case by (subst split_reqs.simps) auto
next
  case (Suc k)
  let ?c = "\<lparr>c_offset_blocks = off, c_num_blocks = 0,
    c_src_offset_blocks = sp_src_offset_blocks io + (off - sp_offset_blocks io), c_iov = 0, c_iovcnt = 0,
    c_iovs = [], c_md_buf = 0\<rparr>"
  let ?t = "io\<lparr>sp_outstanding := sp_outstanding io + 1, sp_current_offset_blocks := off,
    sp_remaining_num_blocks := rem, sp_children := sp_children io @ [(?c, STATUS_PENDING)]\<rparr>"
  have submit: "bdev_io_split_submit b (mg n) 0 0 0 0 off rem io = Inr (None, off, rem, ?t)"
    using Suc.prems
    by (simp add: bdev_io_split_submit_def Let_def submit_rc_def unmap_blocks_rc_def valid_blocks_iff)
  have n: "n < mx" using Suc.hyps(2) by simp
  obtain io' cs where io': "split_reqs b mg 0 mx (n + 1) off rem ?t = Inr io'"
      "sp_remaining_num_blocks io' = rem" "sp_current_offset_blocks io' = off"
      "sp_children io' = sp_children ?t @ cs" "length cs = mx - (n + 1)" "\<forall>(c, st)\<in>set cs. c_num_blocks c = 0"
  proof -
    have "\<exists>io'. split_reqs b mg 0 mx (n + 1) off rem ?t = Inr io' \<and>
        sp_remaining_num_blocks io' = rem \<and> sp_current_offset_blocks io' = off \<and>
        (\<exists>cs. sp_children io' = sp_children ?t @ cs \<and> length cs = mx - (n + 1) \<and> (\<forall>(c, st)\<in>set cs. c_num_blocks c = 0))"
      by (rule Suc.hyps(1)) (use Suc.hyps(2) Suc.prems in simp_all)
    then show ?thesis by (elim exE conjE) (rule that)
  qed
  have "split_reqs b mg 0 mx n off rem io = Inr io'"
    using n submit io'(1) Suc.prems(4) by (subst split_reqs.simps) simp
  moreover have "sp_children io' = sp_children io @ ((?c, STATUS_PENDING) # cs)" using io'(4) by simp
  moreover have "length ((?c, STATUS_PENDING) # cs) = mx - n" using io'(5) n by simp
  moreover have "\<forall>(c, st)\<in>set ((?c, STATUS_PENDING) # cs). c_num_blocks c = 0" using io'(6) by simp
  ultimately show ?case using io'(2,3) by blast
qed

text \<open>C40 (bounds). The largest unmap is computed as a product of 32 bits. When it is a multiple of 2^32 an unmap that
  is too large is split into unmaps of no blocks: a round that finds I/O objects submits eight of
  them and leaves as many blocks as before.\<close>

theorem unmap_product_wraps:
  assumes "bd_max_unmap b * bd_max_unmap_segments b = 0" and "sp_type io = IO_UNMAP"
    and "sp_split io" "sp_desc_write io" "sp_remaining_num_blocks io \<noteq> 0"
    and "unat (sp_current_offset_blocks io) \<le> unat (bd_blockcnt b)"
    and "\<And>i. bdev_channel_get_io (mg i)"
  shows "\<exists>io'. bdev_unmap_split b mg io = Inr io' \<and>
    sp_remaining_num_blocks io' = sp_remaining_num_blocks io \<and>
    sp_current_offset_blocks io' = sp_current_offset_blocks io \<and>
    (\<exists>cs. sp_children io' = sp_children io @ cs \<and> length cs = 8 \<and> (\<forall>(c, st)\<in>set cs. c_num_blocks c = 0))"
  using split_reqs_zero [of io "sp_remaining_num_blocks io" 0 8 "sp_current_offset_blocks io" b mg] assms
  by (simp add: bdev_unmap_split_def Let_def)

theorem unmap_product_wraps_witness:
  "\<exists>io'. bdev_unmap_split (example_limits\<lparr>bd_blockcnt := 17179869184, bd_max_unmap := 65536, bd_max_unmap_segments := 65536\<rparr>) (\<lambda>_. full_pool)
      (example_request IO_UNMAP 0 8589934592 []\<lparr>sp_remaining_num_blocks := 8589934592\<rparr>) = Inr io' \<and>
    sp_remaining_num_blocks io' = 8589934592"
  using unmap_product_wraps [of "example_limits\<lparr>bd_blockcnt := 17179869184, bd_max_unmap := 65536, bd_max_unmap_segments := 65536\<rparr>"
      "example_request IO_UNMAP 0 8589934592 []\<lparr>sp_remaining_num_blocks := 8589934592\<rparr>" "\<lambda>_. full_pool"]
  by (auto simp: example_limits_def example_request_def full_pool_def bdev_channel_get_io_def)

end
