(* ===== verification/Bdev_Range_Inv.thy ===== *)
theory Bdev_Range_Inv
  imports Bdev_Range_Lock
begin

text \<open>
  The invariant of the LBA range locks. The phase of a lock is read off its context, the pending
  list and its task; \<open>chan_ok\<close> says what a channel holds for the locks in each phase, \<open>ctx_ok\<close> what
  the device's lists hold. Every handler preserves both.
\<close>

section \<open>Overlap\<close>

lemma overlapped_commute: "bdev_lba_range_overlapped a b = bdev_lba_range_overlapped b a"
  by (auto simp: bdev_lba_range_overlapped_def)

lemma overlapped_cong:
  "\<lbrakk>same_key a a'; same_key b b'\<rbrakk> \<Longrightarrow> bdev_lba_range_overlapped a b = bdev_lba_range_overlapped a' b'"
  by (simp add: bdev_lba_range_overlapped_def same_key_def)

lemma overlapped_key: "same_key a a' \<Longrightarrow> bdev_lba_range_overlapped a b = bdev_lba_range_overlapped a' b"
  by (simp add: bdev_lba_range_overlapped_def same_key_def)

lemma same_key_refl [simp]: "same_key r r"
  and same_key_sym: "same_key r r' \<Longrightarrow> same_key r' r"
  by (simp_all add: same_key_def)

lemma same_key_trans: "\<lbrakk>same_key a b; same_key b c\<rbrakk> \<Longrightarrow> same_key a c"
  by (simp add: same_key_def)

lemma is_locked_owner_mono:
  "bdev_io_range_is_locked t io r \<Longrightarrow> bdev_io_range_is_locked t io (r\<lparr>lr_owner_ch := None\<rparr>)"
  by (auto simp: bdev_io_range_is_locked_def Let_def bdev_lba_range_overlapped_def split: io_type.splits if_splits)

lemma is_locked_add_owner:
  "\<not> bdev_io_range_is_locked t io r \<Longrightarrow> lr_owner_ch r = None \<Longrightarrow> \<not> bdev_io_range_is_locked t io (r\<lparr>lr_owner_ch := ow\<rparr>)"
  by (auto simp: bdev_io_range_is_locked_def Let_def bdev_lba_range_overlapped_def split: io_type.splits if_splits)

section \<open>The phase of a lock\<close>

datatype phase =
    Dead | Pending | Locking nat | Checking nat | LockDone | Granted | Unlocking nat | UnlockDone | Failed

fun task_phase :: "task option \<Rightarrow> phase" where
  "task_phase None = Granted"
| "task_phase (Some LockMsg) = Locking 0"
| "task_phase (Some (CallChannel LockGetChannel LockCb t)) = Locking t"
| "task_phase (Some (CallChannel UnlockGetChannel UnlockCb t)) = Unlocking t"
| "task_phase (Some (CheckIo t)) = Checking t"
| "task_phase (Some (CallCompletion LockCb None)) = LockDone"
| "task_phase (Some (CallCompletion UnlockCb None)) = UnlockDone"
| "task_phase _ = Failed"

definition phase :: "bdev_state \<Rightarrow> nat \<Rightarrow> phase" where
  "phase s c = (if bdev_ctx s c = None then Dead
     else if c \<in> set (pending_locked_ranges s) then Pending else task_phase (bdev_task s c))"

text \<open>A lock in one of the first four phases is in the device's list; in the phases of \<open>may\<close> a channel
  may have a copy of the range; where it has been \<open>reached\<close> it must have one.\<close>

fun holding :: "phase \<Rightarrow> bool" where
  "holding (Locking n) = True"
| "holding (Checking n) = True"
| "holding LockDone = True"
| "holding Granted = True"
| "holding _ = False"

fun unlocking :: "phase \<Rightarrow> bool" where
  "unlocking (Unlocking n) = True"
| "unlocking UnlockDone = True"
| "unlocking _ = False"

fun may :: "phase \<Rightarrow> nat \<Rightarrow> bool" where
  "may (Unlocking n) t = (n \<le> t)"
| "may p t = holding p"

fun reached :: "phase \<Rightarrow> nat \<Rightarrow> bool" where
  "reached (Locking n) t = (t < n)"
| "reached (Checking n) t = (t \<le> n)"
| "reached LockDone t = True"
| "reached Granted t = True"
| "reached _ t = False"

definition active :: "phase \<Rightarrow> bool" where
  "active p \<longleftrightarrow> p = Granted \<or> unlocking p"

lemma active_simps [simp]: "active Granted" "active (Unlocking n)" "active UnlockDone"
  "\<not> active (Locking n)" "\<not> active (Checking n)" "\<not> active LockDone" "\<not> active Pending" "\<not> active Dead"
  by (simp_all add: active_def)

section \<open>The invariant of a channel\<close>

definition drained :: "nat \<Rightarrow> spdk_bdev_channel \<Rightarrow> lba_range \<Rightarrow> bool" where
  "drained t ch r \<longleftrightarrow> (\<forall>io\<in>set (ch_io_submitted ch). \<not> io_child io \<longrightarrow> \<not> bdev_io_range_is_locked t io r)"

definition range_ok ::
  "(nat \<Rightarrow> lba_range option) \<Rightarrow> (nat \<Rightarrow> phase) \<Rightarrow> nat \<Rightarrow> spdk_bdev_channel \<Rightarrow> lba_range \<Rightarrow> bool" where
  "range_ok rg ph t ch r \<longleftrightarrow> (\<exists>c x. rg c = Some x \<and> same_key r x \<and> may (ph c) t
     \<and> (lr_owner_ch r \<noteq> None \<longrightarrow> lr_owner_ch r = lr_owner_ch x \<and> active (ph c))
     \<and> (ph c \<noteq> Checking t \<longrightarrow> drained t ch r))"

definition has_range :: "spdk_bdev_channel \<Rightarrow> lba_range \<Rightarrow> bool" where
  "has_range ch x \<longleftrightarrow> (\<exists>r\<in>set (ch_locked_ranges ch). same_key r x)"

definition queue_ok :: "nat \<Rightarrow> spdk_bdev_channel \<Rightarrow> bool" where
  "queue_ok t ch \<longleftrightarrow> (\<forall>io\<in>set (ch_io_locked ch). \<exists>r\<in>set (ch_locked_ranges ch).
     bdev_io_range_is_locked t io (r\<lparr>lr_owner_ch := None\<rparr>))"

definition chan_ok :: "(nat \<Rightarrow> lba_range option) \<Rightarrow> (nat \<Rightarrow> phase) \<Rightarrow> nat \<Rightarrow> spdk_bdev_channel \<Rightarrow> bool" where
  "chan_ok rg ph t ch \<longleftrightarrow> distinct (map lr_locked_ctx (ch_locked_ranges ch))
     \<and> (\<forall>r\<in>set (ch_locked_ranges ch). range_ok rg ph t ch r)
     \<and> (\<forall>c x. rg c = Some x \<longrightarrow> reached (ph c) t \<longrightarrow> has_range ch x)
     \<and> queue_ok t ch"

lemma chan_ok_phase:
  assumes "chan_ok rg ph t ch" "may (ph c) t \<Longrightarrow> may p t" "ph c = Checking t \<Longrightarrow> p = Checking t"
    "active (ph c) \<Longrightarrow> active p"
    "\<And>x. rg c = Some x \<Longrightarrow> reached p t \<Longrightarrow> reached (ph c) t \<or> has_range ch x"
  shows "chan_ok rg (ph(c := p)) t ch"
proof -
  have "range_ok rg (ph(c := p)) t ch r" if r: "range_ok rg ph t ch r" for r
  proof -
    obtain d x where "rg d = Some x" "same_key r x" "may (ph d) t"
        "lr_owner_ch r \<noteq> None \<longrightarrow> lr_owner_ch r = lr_owner_ch x \<and> active (ph d)"
        "ph d \<noteq> Checking t \<longrightarrow> drained t ch r"
      using r unfolding range_ok_def by blast
    then show ?thesis
      unfolding range_ok_def using assms(2-4) by (intro exI [of _ d] exI [of _ x]) auto
  qed
  then show ?thesis using assms(1,5) by (auto simp: chan_ok_def)
qed

text \<open>A context that has no copies comes or goes.\<close>

lemma chan_ok_ctx:
  assumes "chan_ok rg ph t ch" "rg c \<noteq> None \<Longrightarrow> \<not> may (ph c) t" "\<not> reached p t"
  shows "chan_ok (rg(c := x)) (ph(c := p)) t ch"
proof -
  have "range_ok (rg(c := x)) (ph(c := p)) t ch r" if r: "range_ok rg ph t ch r" for r
  proof -
    obtain d y where *: "rg d = Some y" "same_key r y" "may (ph d) t"
        "lr_owner_ch r \<noteq> None \<longrightarrow> lr_owner_ch r = lr_owner_ch y \<and> active (ph d)"
        "ph d \<noteq> Checking t \<longrightarrow> drained t ch r"
      using r unfolding range_ok_def by blast
    moreover from * assms(2) have "d \<noteq> c" by auto
    ultimately show ?thesis
      unfolding range_ok_def by (intro exI [of _ d] exI [of _ y]) auto
  qed
  then show ?thesis using assms(1,3) by (auto simp: chan_ok_def)
qed

section \<open>I/O on a channel\<close>

lemma submit_ranges [simp]: "ch_locked_ranges (bdev_io_submit t io ch) = ch_locked_ranges ch"
  by (simp add: bdev_io_submit_def bdev_ch_add_to_io_submitted_def)

lemma has_range_submit [simp]: "has_range (bdev_io_submit t io ch) x = has_range ch x"
  by (simp add: has_range_def)

lemma drained_submit:
  "\<lbrakk>drained t ch r; r \<in> set (ch_locked_ranges ch)\<rbrakk> \<Longrightarrow> drained t (bdev_io_submit t io ch) r"
  by (auto simp: drained_def bdev_io_submit_def bdev_ch_add_to_io_submitted_def list_ex_iff)

lemma queue_ok_submit: "queue_ok t ch \<Longrightarrow> queue_ok t (bdev_io_submit t io ch)"
  by (auto simp: queue_ok_def bdev_io_submit_def bdev_ch_add_to_io_submitted_def list_ex_iff
      intro: is_locked_owner_mono)

lemma range_ok_mono:
  "\<lbrakk>range_ok rg ph t ch r; drained t ch r \<Longrightarrow> drained t ch' r\<rbrakk> \<Longrightarrow> range_ok rg ph t ch' r"
  unfolding range_ok_def by blast

lemma chan_ok_submit: "chan_ok rg ph t ch \<Longrightarrow> chan_ok rg ph t (bdev_io_submit t io ch)"
  unfolding chan_ok_def by (auto intro: range_ok_mono drained_submit queue_ok_submit)

lemma chan_ok_complete: "chan_ok rg ph t ch \<Longrightarrow> chan_ok rg ph t (bdev_ch_remove_from_io_submitted io ch)"
proof -
  let ?ch = "bdev_ch_remove_from_io_submitted io ch"
  have "drained t ch r \<Longrightarrow> drained t ?ch r" for r
    using set_remove1_subset [of io "ch_io_submitted ch"]
    by (auto simp: drained_def bdev_ch_remove_from_io_submitted_def)
  then show "chan_ok rg ph t ch \<Longrightarrow> chan_ok rg ph t ?ch"
    unfolding chan_ok_def
    by (auto simp: bdev_ch_remove_from_io_submitted_def has_range_def queue_ok_def
        intro: range_ok_mono [of rg ph t ch])
qed

section \<open>Adding and removing the copy of a range\<close>

lemma has_range_append [simp]:
  "has_range (ch\<lparr>ch_locked_ranges := rs @ rs'\<rparr>) x
     \<longleftrightarrow> has_range (ch\<lparr>ch_locked_ranges := rs\<rparr>) x \<or> has_range (ch\<lparr>ch_locked_ranges := rs'\<rparr>) x"
  by (auto simp: has_range_def)

lemma drained_ranges [simp]: "drained t (ch\<lparr>ch_locked_ranges := rs\<rparr>) r = drained t ch r"
  by (simp add: drained_def)

text \<open>The walk of \<open>c\<close> has put its range on channel \<open>t\<close>, where it now waits or goes on.\<close>

lemma chan_ok_add:
  assumes ok: "chan_ok rg ph t ch" and c: "rg c = Some x" "same_key r x" "lr_owner_ch r = None"
    and ph: "ph c = Locking t" and new: "lr_locked_ctx r \<notin> lr_locked_ctx ` set (ch_locked_ranges ch)"
    and p: "p = Checking t \<or> holding p \<and> \<not> active p \<and> drained t ch r"
  shows "chan_ok rg (ph(c := p)) t (ch\<lparr>ch_locked_ranges := ch_locked_ranges ch @ [r]\<rparr>)"
proof -
  have "range_ok rg (ph(c := p)) t ch r'" if r': "range_ok rg ph t ch r'" for r'
  proof -
    obtain d y where "rg d = Some y" "same_key r' y" "may (ph d) t"
        "lr_owner_ch r' \<noteq> None \<longrightarrow> lr_owner_ch r' = lr_owner_ch y \<and> active (ph d)"
        "ph d \<noteq> Checking t \<longrightarrow> drained t ch r'"
      using r' unfolding range_ok_def by blast
    then show ?thesis
      unfolding range_ok_def using p ph by (intro exI [of _ d] exI [of _ y]) (auto elim: holding.elims)
  qed
  moreover have "range_ok rg (ph(c := p)) t ch r"
    unfolding range_ok_def using c p by (intro exI [of _ c] exI [of _ x]) (auto elim: holding.elims)
  moreover have "range_ok rg (ph(c := p)) t (ch\<lparr>ch_locked_ranges := rs\<rparr>) r' = range_ok rg (ph(c := p)) t ch r'"
    for r' rs by (simp add: range_ok_def)
  ultimately show ?thesis
    using ok c new by (auto simp: chan_ok_def queue_ok_def has_range_def)
qed

lemma key_unique:
  "\<lbrakk>distinct (map lr_locked_ctx rs); r \<in> set rs; r' \<in> set rs; lr_locked_ctx r = lr_locked_ctx r'\<rbrakk> \<Longrightarrow> r = r'"
  by (simp add: distinct_map inj_on_def)

text \<open>The conflicting I/O on channel \<open>t\<close> has completed.\<close>

lemma chan_ok_checked:
  assumes ok: "chan_ok rg ph t ch" and c: "rg c = Some x" "ph c = Checking t"
    and r: "r \<in> set (ch_locked_ranges ch)" "same_key r x" "drained t ch r" and p: "holding p" "p \<noteq> Granted"
  shows "chan_ok rg (ph(c := p)) t ch"
proof -
  have "range_ok rg (ph(c := p)) t ch r'" if r': "r' \<in> set (ch_locked_ranges ch)" for r'
  proof -
    have "range_ok rg ph t ch r'" using ok r' by (simp add: chan_ok_def)
    then obtain d y where d: "rg d = Some y" "same_key r' y" "may (ph d) t"
        "lr_owner_ch r' \<noteq> None \<longrightarrow> lr_owner_ch r' = lr_owner_ch y \<and> active (ph d)"
        "ph d \<noteq> Checking t \<longrightarrow> drained t ch r'"
      unfolding range_ok_def by blast
    have "d = c \<Longrightarrow> r' = r"
      using d c r r' ok by (intro key_unique [of "ch_locked_ranges ch"]) (auto simp: chan_ok_def same_key_def)
    then show ?thesis
      unfolding range_ok_def using d c r p by (intro exI [of _ d] exI [of _ y]) (auto elim: holding.elims)
  qed
  moreover have "has_range ch x" using r by (auto simp: has_range_def)
  ultimately show ?thesis using ok c by (auto simp: chan_ok_def)
qed

definition unique_keys :: "(nat \<Rightarrow> lba_range option) \<Rightarrow> bool" where
  "unique_keys rg \<longleftrightarrow> (\<forall>c d x y. rg c = Some x \<longrightarrow> rg d = Some y \<longrightarrow> lr_locked_ctx x = lr_locked_ctx y \<longrightarrow> c = d)"

lemma unique_keysD: "\<lbrakk>unique_keys rg; rg c = Some x; rg d = Some y; lr_locked_ctx x = lr_locked_ctx y\<rbrakk> \<Longrightarrow> c = d"
  unfolding unique_keys_def by blast

lemma extract_key:
  assumes "distinct (map lr_locked_ctx rs)"
  shows "(case List.extract (\<lambda>r. same_key x r) rs of None \<Rightarrow> rs | Some (before, _, after) \<Rightarrow> before @ after)
    = filter (\<lambda>r. \<not> same_key x r) rs"
proof (cases "List.extract (\<lambda>r. same_key x r) rs")
  case None
  moreover from None have "\<forall>r\<in>set rs. \<not> same_key x r" by (auto simp: extract_None_iff)
  ultimately show ?thesis by simp
next
  case (Some z)
  then obtain before r after where z: "z = (before, r, after)" by (cases z)
  with Some have rs: "rs = before @ r # after" "same_key x r" "\<not> (\<exists>y\<in>set before. same_key x y)"
    by (simp_all add: extract_Some_iff)
  then have "\<forall>y\<in>set after. \<not> same_key x y"
    using assms by (auto simp: same_key_def)
  moreover have "filter (\<lambda>r. \<not> same_key x r) before = before" using rs(3) by (auto intro: filter_True)
  ultimately show ?thesis using rs Some z by simp
qed

lemma chan_ok_resubmit: "chan_ok rg ph t ch \<Longrightarrow> chan_ok rg ph t (resubmit_locked t ios ch)"
  by (induction t ios ch rule: resubmit_locked.induct) (auto intro: chan_ok_submit)

lemma chan_ok_remove:
  assumes ok: "chan_ok rg ph t ch" and u: "unique_keys rg" and c: "rg c = Some x" "ph c = Unlocking t"
    and p: "unlocking p"
  shows "chan_ok rg (ph(c := p)) t
    (ch\<lparr>ch_locked_ranges := filter (\<lambda>r. \<not> same_key x r) (ch_locked_ranges ch), ch_io_locked := []\<rparr>)"
proof -
  let ?ch = "ch\<lparr>ch_locked_ranges := filter (\<lambda>r. \<not> same_key x r) (ch_locked_ranges ch), ch_io_locked := []\<rparr>"
  have "range_ok rg (ph(c := p)) t ?ch r" if r: "r \<in> set (ch_locked_ranges ch)" "\<not> same_key x r" for r
  proof -
    have "range_ok rg ph t ch r" using ok r by (simp add: chan_ok_def)
    then obtain d y where d: "rg d = Some y" "same_key r y" "may (ph d) t"
        "lr_owner_ch r \<noteq> None \<longrightarrow> lr_owner_ch r = lr_owner_ch y \<and> active (ph d)"
        "ph d \<noteq> Checking t \<longrightarrow> drained t ch r"
      unfolding range_ok_def by blast
    moreover have "d \<noteq> c" using d c r by (auto simp: same_key_def)
    ultimately show ?thesis
      unfolding range_ok_def by (intro exI [of _ d] exI [of _ y]) (auto simp: drained_def)
  qed
  moreover have "has_range ?ch y" if d: "rg d = Some y" "reached ((ph(c := p)) d) t" for d y
  proof -
    have "d \<noteq> c" using d p by (auto elim: unlocking.elims)
    then have "has_range ch y" using ok d by (simp add: chan_ok_def)
    then obtain r where r: "r \<in> set (ch_locked_ranges ch)" "same_key r y"
      unfolding has_range_def by blast
    have "\<not> same_key x r" using unique_keysD [OF u c(1) d(1)] \<open>d \<noteq> c\<close> r(2) by (auto simp: same_key_def)
    then show ?thesis using r by (auto simp: has_range_def)
  qed
  ultimately show ?thesis
    using ok by (auto simp: chan_ok_def queue_ok_def distinct_map inj_on_def)
qed

text \<open>The lock is granted and its owner's copy learns it.\<close>

lemma chan_ok_owner:
  assumes ok: "chan_ok rg ph t ch" and u: "unique_keys rg"
    and c: "rg c = Some (cx_range x)" "ph c = Granted"
  shows "chan_ok rg ph t (set_owner_ch x ch)"
proof -
  define f where "f = (\<lambda>r. if same_key r (cx_range x) then r\<lparr>lr_owner_ch := lr_owner_ch (cx_range x)\<rparr> else r)"
  have rs: "ch_locked_ranges (set_owner_ch x ch) = map f (ch_locked_ranges ch)"
      "ch_io_submitted (set_owner_ch x ch) = ch_io_submitted ch" "ch_io_locked (set_owner_ch x ch) = ch_io_locked ch"
    by (simp_all add: set_owner_ch_def f_def)
  have fs: "lr_locked_ctx (f r) = lr_locked_ctx r" "same_key (f r) = same_key r"
      "(f r)\<lparr>lr_owner_ch := None\<rparr> = r\<lparr>lr_owner_ch := None\<rparr>" for r
    by (simp_all add: f_def same_key_def fun_eq_iff)
  have dr: "drained t (set_owner_ch x ch) = drained t ch" by (simp add: drained_def rs fun_eq_iff)
  have "range_ok rg ph t (set_owner_ch x ch) (f r)" if r: "range_ok rg ph t ch r" for r
  proof -
    obtain d y where d: "rg d = Some y" "same_key r y" "may (ph d) t"
        "lr_owner_ch r \<noteq> None \<longrightarrow> lr_owner_ch r = lr_owner_ch y \<and> active (ph d)"
        "ph d \<noteq> Checking t \<longrightarrow> drained t ch r"
      using r unfolding range_ok_def by blast
    show ?thesis
    proof (cases "same_key r (cx_range x)")
      case True
      then have "d = c" using unique_keysD [OF u d(1) c(1)] d(2) by (auto simp: same_key_def)
      then have y: "y = cx_range x" "drained t ch r" using c d by auto
      have "drained t ch (r\<lparr>lr_owner_ch := lr_owner_ch (cx_range x)\<rparr>)"
      proof (cases "lr_owner_ch r")
        case None then show ?thesis using y(2) is_locked_add_owner by (auto simp: drained_def)
      next
        case (Some a)
        then have "r\<lparr>lr_owner_ch := lr_owner_ch (cx_range x)\<rparr> = r" using y(1) d(4) by simp
        then show ?thesis using y(2) by simp
      qed
      then show ?thesis
        unfolding range_ok_def dr using True c d \<open>d = c\<close> y
        by (intro exI [of _ c] exI [of _ "cx_range x"]) (simp add: f_def same_key_def)
    next
      case False
      then show ?thesis unfolding range_ok_def dr using d by (intro exI [of _ d] exI [of _ y]) (simp add: f_def)
    qed
  qed
  then show ?thesis
    using ok by (auto simp: chan_ok_def rs has_range_def queue_ok_def fs o_def)
qed

section \<open>The invariant of the device\<close>

definition rgs :: "bdev_state \<Rightarrow> nat \<Rightarrow> lba_range option" where
  "rgs s c = map_option cx_range (bdev_ctx s c)"

definition threads_ok :: "bdev_state \<Rightarrow> bool" where
  "threads_ok s \<longleftrightarrow> sorted (dev_threads s) \<and> distinct (dev_threads s)
     \<and> (\<forall>t. bdev_ch s t \<noteq> None \<longleftrightarrow> t \<in> set (dev_threads s))"

definition chans_ok :: "bdev_state \<Rightarrow> bool" where
  "chans_ok s \<longleftrightarrow> (\<forall>t ch. bdev_ch s t = Some ch \<longrightarrow> chan_ok (rgs s) (phase s) t ch)"

definition lists_ok :: "bdev_state \<Rightarrow> bool" where
  "lists_ok s \<longleftrightarrow> (\<forall>c. c \<in> set (locked_ranges s) \<longleftrightarrow> holding (phase s c))
     \<and> (\<forall>c\<in>set (pending_locked_ranges s). bdev_ctx s c \<noteq> None)
     \<and> (\<forall>c. phase s c \<noteq> Failed) \<and> (\<forall>c. phase s c = Dead \<or> phase s c = Pending \<longrightarrow> bdev_task s c = None)
     \<and> distinct (locked_ranges s) \<and> distinct (pending_locked_ranges s)"

definition keys_ok :: "bdev_state \<Rightarrow> bool" where
  "keys_ok s \<longleftrightarrow> unique_keys (rgs s) \<and> (\<forall>c x. rgs s c = Some x \<longrightarrow> lr_offset x < lr_offset x + lr_length x
     \<and> (lr_quiesce x \<longrightarrow> lr_owner_ch x = None) \<and> (\<forall>t. lr_owner_ch x = Some t \<longrightarrow> bdev_ch s t \<noteq> None \<and> lr_owner_thread x = t))"

definition exclusive_ok :: "bdev_state \<Rightarrow> bool" where
  "exclusive_ok s \<longleftrightarrow> (\<forall>c d x y. c \<in> set (locked_ranges s) \<longrightarrow> d \<in> set (locked_ranges s) \<longrightarrow> c \<noteq> d \<longrightarrow>
     rgs s c = Some x \<longrightarrow> rgs s d = Some y \<longrightarrow> \<not> bdev_lba_range_overlapped x y)"

definition quiesced_ok :: "bdev_state \<Rightarrow> bool" where
  "quiesced_ok s \<longleftrightarrow> distinct (quiesced_ranges s) \<and> (\<forall>c\<in>set (quiesced_ranges s). phase s c = Granted
     \<and> (\<exists>x. rgs s c = Some x \<and> lr_owner_ch x = None))"

text \<open>A pending lock overlaps a lock that holds its range or is giving it up.\<close>

definition blocked :: "bdev_state \<Rightarrow> lba_range \<Rightarrow> bool" where
  "blocked s x \<longleftrightarrow> (\<exists>d y. rgs s d = Some y \<and> (holding (phase s d) \<or> unlocking (phase s d)) \<and> bdev_lba_range_overlapped x y)"

definition waiting_ok :: "bdev_state \<Rightarrow> bool" where
  "waiting_ok s \<longleftrightarrow> (\<forall>c\<in>set (pending_locked_ranges s). \<exists>x. rgs s c = Some x \<and> blocked s x)"

lemma blocked_mono:
  assumes "blocked s x" "\<And>d y. \<lbrakk>rgs s d = Some y; holding (phase s d) \<or> unlocking (phase s d)\<rbrakk> \<Longrightarrow>
      rgs s' d = Some y \<and> (holding (phase s' d) \<or> unlocking (phase s' d))"
  shows "blocked s' x"
  using assms unfolding blocked_def by blast

lemma blockedI: "\<lbrakk>rgs s d = Some y; holding (phase s d); bdev_lba_range_overlapped x y\<rbrakk> \<Longrightarrow> blocked s x"
  unfolding blocked_def by blast

text \<open>Only the copies of a range that blocks reads block reads.\<close>

definition quiesce_copy :: "locked_lba_range_ctx \<Rightarrow> bool" where
  "quiesce_copy x \<longleftrightarrow> (lr_quiesce (cx_current_range x) \<longrightarrow> lr_quiesce (cx_range x))"

lemma quiesce_copy_ref [simp]: "quiesce_copy (x\<lparr>cx_ch_ref := ref\<rparr>) = quiesce_copy x"
  by (simp add: quiesce_copy_def)

definition check_ok :: "bdev_state \<Rightarrow> bool" where
  "check_ok s \<longleftrightarrow> (\<forall>c t x. bdev_ctx s c = Some x \<longrightarrow> phase s c = Checking t \<longrightarrow> cx_ch_ref x = Some t
     \<and> quiesce_copy x \<and> same_key (cx_current_range x) (cx_range x)
     \<and> (\<exists>ch. bdev_ch s t = Some ch \<and> cx_current_range x \<in> set (ch_locked_ranges ch)))"

definition range_inv :: "bdev_state \<Rightarrow> bool" where
  "range_inv s \<longleftrightarrow> threads_ok s \<and> chans_ok s \<and> lists_ok s \<and> keys_ok s \<and> exclusive_ok s
     \<and> quiesced_ok s \<and> waiting_ok s \<and> check_ok s"

lemma rgs_Some: "rgs s c = Some r \<longleftrightarrow> (\<exists>x. bdev_ctx s c = Some x \<and> r = cx_range x)"
  by (auto simp: rgs_def)

lemma phase_Dead: "lists_ok s \<Longrightarrow> phase s c = Dead \<longleftrightarrow> bdev_ctx s c = None"
proof -
  have "task_phase tk \<noteq> Dead" for tk by (induction tk rule: task_phase.induct) simp_all
  then show ?thesis by (simp add: phase_def)
qed

lemma task_phase_neq [simp]: "task_phase tk \<noteq> Dead" "task_phase tk \<noteq> Pending"
  by (induction tk rule: task_phase.induct) simp_all

lemma phase_Pending: "lists_ok s \<Longrightarrow> phase s c = Pending \<longleftrightarrow> c \<in> set (pending_locked_ranges s)"
  by (auto simp: phase_def lists_ok_def)

text \<open>A step that only moves one lock from one phase to the next.\<close>

lemma phase_step:
  assumes inv: "range_inv s"
    and frame: "locked_ranges s' = locked_ranges s" "pending_locked_ranges s' = pending_locked_ranges s"
      "dev_threads s' = dev_threads s" "rgs s' = rgs s" "\<And>t. bdev_ch s' t = None \<longleftrightarrow> bdev_ch s t = None"
    and ph: "phase s' = (phase s)(c := p)" "holding (phase s c) = holding p" "unlocking (phase s c) = unlocking p"
      "holding p \<or> unlocking p"
    and tasks: "\<And>d. d \<noteq> c \<Longrightarrow> bdev_task s' d = bdev_task s d"
    and "quiesced_ok s'" "chans_ok s'" "check_ok s'"
  shows "range_inv s'"
proof -
  have ctx: "bdev_ctx s' d = None \<longleftrightarrow> bdev_ctx s d = None" for d
    using fun_cong [OF frame(4), of d] by (auto simp: rgs_def)
  have hold: "holding (phase s' d) = holding (phase s d)" "unlocking (phase s' d) = unlocking (phase s d)" for d
    using ph by auto
  have live: "phase s' d \<noteq> Failed" "phase s' d = Dead \<or> phase s' d = Pending \<Longrightarrow> bdev_task s' d = None" for d
    using inv ph(1,4) tasks [of d] by (cases "d = c"; auto simp: range_inv_def lists_ok_def)+
  have "lists_ok s'"
    using inv live unfolding lists_ok_def hold frame ctx range_inv_def by blast
  moreover have "threads_ok s'" "keys_ok s'" "exclusive_ok s'" "waiting_ok s'"
    using inv unfolding range_inv_def threads_ok_def keys_ok_def exclusive_ok_def waiting_ok_def blocked_def frame hold
    by blast+
  ultimately show ?thesis using assms by (simp add: range_inv_def)
qed

lemma phase_set_task [simp]:
  "phase (set_task c tk s) = (phase s)(c := if bdev_ctx s c = None then Dead
     else if c \<in> set (pending_locked_ranges s) then Pending else task_phase (Some tk))"
  by (auto simp: phase_def set_task_def fun_eq_iff)

lemma set_task_simps [simp]:
  "locked_ranges (set_task c tk s) = locked_ranges s" "pending_locked_ranges (set_task c tk s) = pending_locked_ranges s"
  "quiesced_ranges (set_task c tk s) = quiesced_ranges s" "bdev_ctx (set_task c tk s) = bdev_ctx s"
  "dev_threads (set_task c tk s) = dev_threads s" "bdev_ch (set_task c tk s) = bdev_ch s"
  "rgs (set_task c tk s) = rgs s" "d \<noteq> c \<Longrightarrow> bdev_task (set_task c tk s) d = bdev_task s d"
  by (simp_all add: set_task_def rgs_def fun_eq_iff)

section \<open>Walks\<close>

definition lock_next :: "nat list \<Rightarrow> nat \<Rightarrow> phase" where
  "lock_next ts cur = (case io_dev_get_next_thread ts cur of Some n \<Rightarrow> Locking n | None \<Rightarrow> LockDone)"

definition unlock_next :: "nat list \<Rightarrow> nat \<Rightarrow> phase" where
  "unlock_next ts cur = (case io_dev_get_next_thread ts cur of Some n \<Rightarrow> Unlocking n | None \<Rightarrow> UnlockDone)"

lemma next_thread_SomeD:
  assumes "io_dev_get_next_thread ts cur = Some n" "sorted ts" "t \<in> set ts"
  shows "cur < n" "cur < t \<longleftrightarrow> n \<le> t"
proof -
  obtain i where i: "i < length ts" "cur + 1 \<le> ts ! i" "n = ts ! i" "\<forall>j<i. \<not> cur + 1 \<le> ts ! j"
    using assms(1) by (auto simp: io_dev_get_next_thread_def find_Some_iff)
  then show "cur < n" by simp
  obtain j where "j < length ts" "t = ts ! j" using assms(3) by (auto simp: in_set_conv_nth)
  then show "cur < t \<longleftrightarrow> n \<le> t"
    using i sorted_nth_mono [OF assms(2), of i j] by (cases "j < i") auto
qed

lemma next_thread_NoneD: "io_dev_get_next_thread ts cur = None \<Longrightarrow> t \<in> set ts \<Longrightarrow> t \<le> cur"
  by (auto simp: io_dev_get_next_thread_def find_None_iff)

lemma lock_next_facts [simp]:
  "holding (lock_next ts cur)" "\<not> unlocking (lock_next ts cur)" "\<not> active (lock_next ts cur)"
  "lock_next ts cur \<noteq> Checking t" "Checking t \<noteq> lock_next ts cur" "lock_next ts cur \<noteq> Granted" "may (lock_next ts cur) t" "lock_next ts cur \<noteq> Failed"
  by (simp_all add: lock_next_def split: option.split)

lemma unlock_next_facts [simp]:
  "\<not> holding (unlock_next ts cur)" "unlocking (unlock_next ts cur)" "active (unlock_next ts cur)"
  "unlock_next ts cur \<noteq> Checking t" "unlock_next ts cur \<noteq> Granted" "\<not> reached (unlock_next ts cur) t"
  by (simp_all add: unlock_next_def split: option.split)

lemma reached_lock_next: "\<lbrakk>sorted ts; t \<in> set ts\<rbrakk> \<Longrightarrow> reached (lock_next ts cur) t \<longleftrightarrow> t \<le> cur"
  using next_thread_SomeD [of ts cur _ t] next_thread_NoneD [of ts cur t]
  by (auto simp: lock_next_def not_less [symmetric] split: option.split)

lemma may_unlock_next: "\<lbrakk>sorted ts; t \<in> set ts\<rbrakk> \<Longrightarrow> may (unlock_next ts cur) t \<longleftrightarrow> cur < t"
  using next_thread_SomeD [of ts cur _ t] next_thread_NoneD [of ts cur t]
  by (auto simp: unlock_next_def split: option.split)

lemma phase_live:
  assumes "range_inv s" "holding (phase s c) \<or> unlocking (phase s c)"
  obtains x where "bdev_ctx s c = Some x" "rgs s c = Some (cx_range x)" "c \<notin> set (pending_locked_ranges s)"
  using assms by (auto simp: phase_def rgs_def split: if_splits)

lemma continue_simps [simp]:
  "locked_ranges (spdk_for_each_channel_continue fn cpl t st c s) = locked_ranges s"
  "pending_locked_ranges (spdk_for_each_channel_continue fn cpl t st c s) = pending_locked_ranges s"
  "quiesced_ranges (spdk_for_each_channel_continue fn cpl t st c s) = quiesced_ranges s"
  "bdev_ctx (spdk_for_each_channel_continue fn cpl t st c s) = bdev_ctx s"
  "dev_threads (spdk_for_each_channel_continue fn cpl t st c s) = dev_threads s"
  "bdev_ch (spdk_for_each_channel_continue fn cpl t st c s) = bdev_ch s"
  "rgs (spdk_for_each_channel_continue fn cpl t st c s) = rgs s"
  "d \<noteq> c \<Longrightarrow> bdev_task (spdk_for_each_channel_continue fn cpl t st c s) d = bdev_task s d"
  by (simp_all add: spdk_for_each_channel_continue_def split: option.split)

lemma phase_continue:
  assumes "bdev_ctx s c = Some x" "c \<notin> set (pending_locked_ranges s)"
  shows "phase (spdk_for_each_channel_continue LockGetChannel LockCb t None c s) = (phase s)(c := lock_next (dev_threads s) t)"
    and "phase (spdk_for_each_channel_continue UnlockGetChannel UnlockCb t None c s) = (phase s)(c := unlock_next (dev_threads s) t)"
  using assms by (simp_all add: spdk_for_each_channel_continue_def lock_next_def unlock_next_def split: option.split)

lemma thread_of_channel: "\<lbrakk>range_inv s; bdev_ch s t = Some ch\<rbrakk> \<Longrightarrow> t \<in> set (dev_threads s) \<and> sorted (dev_threads s)"
  by (auto simp: range_inv_def threads_ok_def)

lemma chan_okI: "\<lbrakk>range_inv s; bdev_ch s t = Some ch\<rbrakk> \<Longrightarrow> chan_ok (rgs s) (phase s) t ch"
  by (simp add: range_inv_def chans_ok_def)

lemma other_chan_ok_lock:
  assumes "range_inv s" "phase s c = Locking t \<or> phase s c = Checking t"
    "p = lock_next (dev_threads s) t \<or> p = Checking t" "bdev_ch s t' = Some ch" "t' \<noteq> t"
  shows "chan_ok (rgs s) ((phase s)(c := p)) t' ch"
  using assms chan_okI [OF assms(1,4)] thread_of_channel [OF assms(1,4)] reached_lock_next [of "dev_threads s" t' t]
  by (intro chan_ok_phase) auto

lemma quiesced_phase:
  "\<lbrakk>range_inv s; phase s' = (phase s)(c := p); quiesced_ranges s' = quiesced_ranges s; rgs s' = rgs s; phase s c \<noteq> Granted\<rbrakk>
     \<Longrightarrow> quiesced_ok s'"
  by (auto simp: range_inv_def quiesced_ok_def)

lemma check_ok_phase:
  assumes "range_inv s" "phase s' = (phase s)(c := p)" "\<And>d. d \<noteq> c \<Longrightarrow> bdev_ctx s' d = bdev_ctx s d"
    and own: "\<And>t x. \<lbrakk>p = Checking t; bdev_ctx s' c = Some x\<rbrakk> \<Longrightarrow> cx_ch_ref x = Some t \<and> quiesce_copy x \<and> same_key (cx_current_range x) (cx_range x) \<and>
      (\<exists>ch. bdev_ch s' t = Some ch \<and> cx_current_range x \<in> set (ch_locked_ranges ch))"
    and keep: "\<And>d t ch x. \<lbrakk>d \<noteq> c; bdev_ctx s d = Some x; bdev_ch s t = Some ch;
         cx_current_range x \<in> set (ch_locked_ranges ch); same_key (cx_current_range x) (cx_range x)\<rbrakk>
       \<Longrightarrow> \<exists>ch'. bdev_ch s' t = Some ch' \<and> cx_current_range x \<in> set (ch_locked_ranges ch')"
  shows "check_ok s'"
  unfolding check_ok_def
proof (intro allI impI)
  fix d t x assume x: "bdev_ctx s' d = Some x" and t: "phase s' d = Checking t"
  show "cx_ch_ref x = Some t \<and> quiesce_copy x \<and> same_key (cx_current_range x) (cx_range x) \<and>
      (\<exists>ch. bdev_ch s' t = Some ch \<and> cx_current_range x \<in> set (ch_locked_ranges ch))"
  proof (cases "d = c")
    case True
    then show ?thesis using own x t assms(2) by simp
  next
    case False
    then have "phase s d = Checking t" "bdev_ctx s d = Some x" using x t assms(2,3) by auto
    moreover from this obtain ch where "cx_ch_ref x = Some t" "quiesce_copy x" "same_key (cx_current_range x) (cx_range x)"
        "bdev_ch s t = Some ch" "cx_current_range x \<in> set (ch_locked_ranges ch)"
      using assms(1) unfolding range_inv_def check_ok_def by blast
    ultimately show ?thesis using keep False by blast
  qed
qed

text \<open>The channel is gone, or it had the range already.\<close>

lemma lock_skip_inv:
  assumes inv: "range_inv s" and ph: "phase s c = Locking t"
    and skip: "\<And>ch x. bdev_ch s t = Some ch \<Longrightarrow> rgs s c = Some x \<Longrightarrow> has_range ch x"
  shows "range_inv (spdk_for_each_channel_continue LockGetChannel LockCb t None c s)" (is "range_inv ?s")
proof (rule phase_step [OF inv])
  obtain x where x: "bdev_ctx s c = Some x" "rgs s c = Some (cx_range x)" "c \<notin> set (pending_locked_ranges s)"
    by (rule phase_live [OF inv]) (use ph in auto)
  show p: "phase ?s = (phase s)(c := lock_next (dev_threads s) t)" using x by (simp add: phase_continue)
  show "quiesced_ok ?s" by (rule quiesced_phase [OF inv p]) (simp_all add: ph)
  show "check_ok ?s" by (rule check_ok_phase [OF inv p]) auto
  have "chan_ok (rgs s) ((phase s)(c := lock_next (dev_threads s) t)) t ch" if "bdev_ch s t = Some ch" for ch
    using skip [OF that x(2)] x(2) ph by (intro chan_ok_phase [OF chan_okI [OF inv that]]) auto
  then show "chans_ok ?s"
    using other_chan_ok_lock [OF inv] ph unfolding chans_ok_def p by (metis continue_simps(6,7))
qed (use ph in auto)

lemma phase_frame [simp]:
  "bdev_ctx s c = Some x0 \<Longrightarrow> phase (s\<lparr>bdev_ctx := (bdev_ctx s)(c \<mapsto> x)\<rparr>) = phase s"
  "phase (s\<lparr>bdev_ch := chs\<rparr>) = phase s" "phase (s\<lparr>quiesced_ranges := q\<rparr>) = phase s"
  "phase (s\<lparr>unregister_msgs := n\<rparr>) = phase s" "phase (s\<lparr>locked_ranges := l\<rparr>) = phase s"
  by (auto simp: phase_def fun_eq_iff)

lemma rgs_frame [simp]:
  "bdev_ctx s c = Some x0 \<Longrightarrow> cx_range x = cx_range x0 \<Longrightarrow> rgs (s\<lparr>bdev_ctx := (bdev_ctx s)(c \<mapsto> x)\<rparr>) = rgs s"
  "rgs (s\<lparr>bdev_ch := chs\<rparr>) = rgs s" "rgs (s\<lparr>quiesced_ranges := q\<rparr>) = rgs s"
  "rgs (s\<lparr>unregister_msgs := n\<rparr>) = rgs s" "rgs (s\<lparr>locked_ranges := l\<rparr>) = rgs s"
  by (auto simp: rgs_def fun_eq_iff)

lemma check_io_simps [simp]:
  "locked_ranges (bdev_lock_lba_range_check_io c t x ch s) = locked_ranges s"
  "pending_locked_ranges (bdev_lock_lba_range_check_io c t x ch s) = pending_locked_ranges s"
  "quiesced_ranges (bdev_lock_lba_range_check_io c t x ch s) = quiesced_ranges s"
  "dev_threads (bdev_lock_lba_range_check_io c t x ch s) = dev_threads s"
  "bdev_ch (bdev_lock_lba_range_check_io c t x ch s) = bdev_ch s"
  "d \<noteq> c \<Longrightarrow> bdev_task (bdev_lock_lba_range_check_io c t x ch s) d = bdev_task s d"
  "d \<noteq> c \<Longrightarrow> bdev_ctx (bdev_lock_lba_range_check_io c t x ch s) d = bdev_ctx s d"
  by (simp_all add: bdev_lock_lba_range_check_io_def)

lemma check_io_cases:
  fixes s c t x ch
  assumes "bdev_ctx s c = Some x0" "cx_range x = cx_range x0" "c \<notin> set (pending_locked_ranges s)"
  defines "s' \<equiv> bdev_lock_lba_range_check_io c t x ch s"
  obtains p ref where "phase s' = (phase s)(c := p)" "bdev_ctx s' c = Some (x\<lparr>cx_ch_ref := ref\<rparr>)" "rgs s' = rgs s"
    "p = Checking t \<and> ref = Some t \<or> p = lock_next (dev_threads s) t \<and> drained t ch (cx_current_range x)"
proof (cases "list_ex (\<lambda>io. bdev_io_range_is_locked t io (cx_current_range x)) (ch_io_submitted ch)")
  case True
  then show ?thesis using assms
    by (intro that [of "Checking t" "Some t"]) (simp_all add: bdev_lock_lba_range_check_io_def)
next
  case False
  then have "drained t ch (cx_current_range x)" by (simp add: drained_def list_ex_iff)
  with False show ?thesis using assms
    by (intro that [of "lock_next (dev_threads s) t" None])
       (simp_all add: bdev_lock_lba_range_check_io_def phase_continue [where x = "x\<lparr>cx_ch_ref := None\<rparr>"])
qed

lemma checkD:
  assumes "range_inv s" "bdev_ctx s c = Some x" "phase s c = Checking t"
  shows "cx_ch_ref x = Some t" "same_key (cx_current_range x) (cx_range x)"
    "\<exists>ch. bdev_ch s t = Some ch \<and> cx_current_range x \<in> set (ch_locked_ranges ch)" "quiesce_copy x"
  using assms unfolding range_inv_def check_ok_def by blast+

text \<open>The poller of a waiting lock.\<close>

lemma check_io_inv:
  assumes inv: "range_inv s" and ph: "phase s c = Checking t" and x: "bdev_ctx s c = Some x"
    and ch: "bdev_ch s t = Some ch"
  shows "range_inv (bdev_lock_lba_range_check_io c t x ch s)" (is "range_inv ?s")
proof -
  have c: "c \<notin> set (pending_locked_ranges s)" "rgs s c = Some (cx_range x)"
    using ph x by (auto simp: phase_def rgs_def split: if_splits)
  have cur: "same_key (cx_current_range x) (cx_range x)" "cx_current_range x \<in> set (ch_locked_ranges ch)"
      "quiesce_copy x"
    using checkD [OF inv x ph] ch by auto
  obtain p ref where p: "phase ?s = (phase s)(c := p)" "bdev_ctx ?s c = Some (x\<lparr>cx_ch_ref := ref\<rparr>)" "rgs ?s = rgs s"
    and cs: "p = Checking t \<and> ref = Some t \<or> p = lock_next (dev_threads s) t \<and> drained t ch (cx_current_range x)"
    by (rule check_io_cases [OF x refl c(1)])
  have "chan_ok (rgs s) ((phase s)(c := p)) t ch"
    using chan_ok_checked [OF chan_okI [OF inv ch] c(2) ph cur(2,1)] chan_okI [OF inv ch] cs ph
    by (auto simp: fun_upd_idem)
  moreover have "chan_ok (rgs s) ((phase s)(c := p)) t' ch'" if "bdev_ch s t' = Some ch'" "t' \<noteq> t" for t' ch'
    using other_chan_ok_lock [OF inv _ _ that] ph cs by auto
  ultimately have "chans_ok ?s" using ch by (auto simp: chans_ok_def p) (metis option.inject)
  moreover have "check_ok ?s"
    using cs cur ch p(2) by (intro check_ok_phase [OF inv p(1)]) auto
  moreover have "quiesced_ok ?s" by (rule quiesced_phase [OF inv p(1)]) (simp_all add: ph p)
  ultimately show ?thesis by (intro phase_step [OF inv _ _ _ _ _ p(1)]) (use ph cs p in auto)
qed

text \<open>A lock arrives at a channel.\<close>

lemma locked_ctx_notin:
  assumes inv: "range_inv s" and ch: "bdev_ch s t = Some ch" and x: "bdev_ctx s c = Some x"
    and new: "\<not> has_range ch (cx_range x)"
  shows "lr_locked_ctx (cx_range x) \<notin> lr_locked_ctx ` set (ch_locked_ranges ch)"
proof
  assume "lr_locked_ctx (cx_range x) \<in> lr_locked_ctx ` set (ch_locked_ranges ch)"
  then obtain r where r: "r \<in> set (ch_locked_ranges ch)" "lr_locked_ctx (cx_range x) = lr_locked_ctx r" by auto
  then have "range_ok (rgs s) (phase s) t ch r" using chan_okI [OF inv ch] by (simp add: chan_ok_def)
  then obtain d y where d: "rgs s d = Some y" "same_key r y" unfolding range_ok_def by blast
  have "unique_keys (rgs s)" using inv by (simp add: range_inv_def keys_ok_def)
  moreover have cx: "rgs s c = Some (cx_range x)" using x by (simp add: rgs_def)
  ultimately have "d = c" using unique_keysD d r(2) by (metis same_key_def)
  then show False using new r d cx by (auto simp: has_range_def)
qed

lemma get_channel_new:
  assumes "\<not> has_range ch (cx_range x)"
  obtains r x' where "bdev_lock_lba_range_get_channel True c t x ch s = bdev_lock_lba_range_check_io c t x'
      (ch\<lparr>ch_locked_ranges := ch_locked_ranges ch @ [r]\<rparr>)
      (s\<lparr>bdev_ch := (bdev_ch s)(t \<mapsto> ch\<lparr>ch_locked_ranges := ch_locked_ranges ch @ [r]\<rparr>), bdev_ctx := (bdev_ctx s)(c \<mapsto> x')\<rparr>)"
    "cx_range x' = cx_range x" "cx_current_range x' = r" "same_key r (cx_range x)" "lr_owner_ch r = None"
    "lr_locked_ctx r = lr_locked_ctx (cx_range x)" "quiesce_copy x'"
proof -
  let ?r = "\<lparr>lr_offset = lr_offset (cx_range x), lr_length = lr_length (cx_range x), lr_quiesce = lr_quiesce (cx_range x),
    lr_locked_ctx = lr_locked_ctx (cx_range x), lr_owner_thread = 0, lr_owner_ch = None\<rparr>"
  let ?x = "x\<lparr>cx_current_range := ?r, cx_owner_range := (if lr_owner_ch (cx_range x) = Some t then True else cx_owner_range x)\<rparr>"
  have "\<not> list_ex (\<lambda>rng. same_key rng (cx_range x)) (ch_locked_ranges ch)"
    using assms by (simp add: has_range_def list_ex_iff)
  then show ?thesis
    by (intro that [of ?x ?r]) (simp_all add: bdev_lock_lba_range_get_channel_def Let_def same_key_def quiesce_copy_def)
qed

lemma get_channel_inv:
  assumes inv: "range_inv s" and ph: "phase s c = Locking t" and x: "bdev_ctx s c = Some x"
    and ch: "bdev_ch s t = Some ch"
  shows "range_inv (bdev_lock_lba_range_get_channel True c t x ch s)"
proof (cases "has_range ch (cx_range x)")
  case True
  have "range_inv (spdk_for_each_channel_continue LockGetChannel LockCb t None c s)"
    by (rule lock_skip_inv [OF inv ph]) (use True ch x in \<open>auto simp: rgs_def\<close>)
  then show ?thesis
    using True by (simp add: bdev_lock_lba_range_get_channel_def has_range_def list_ex_iff)
next
  case False
  obtain r x' where eq: "bdev_lock_lba_range_get_channel True c t x ch s = bdev_lock_lba_range_check_io c t x'
      (ch\<lparr>ch_locked_ranges := ch_locked_ranges ch @ [r]\<rparr>)
      (s\<lparr>bdev_ch := (bdev_ch s)(t \<mapsto> ch\<lparr>ch_locked_ranges := ch_locked_ranges ch @ [r]\<rparr>), bdev_ctx := (bdev_ctx s)(c \<mapsto> x')\<rparr>)"
    and x': "cx_range x' = cx_range x" "cx_current_range x' = r"
    and r: "same_key r (cx_range x)" "lr_owner_ch r = None" "lr_locked_ctx r = lr_locked_ctx (cx_range x)" "quiesce_copy x'"
    by (rule get_channel_new [OF False])
  define ch' where "ch' = ch\<lparr>ch_locked_ranges := ch_locked_ranges ch @ [r]\<rparr>"
  define s1 where "s1 = s\<lparr>bdev_ch := (bdev_ch s)(t \<mapsto> ch'), bdev_ctx := (bdev_ctx s)(c \<mapsto> x')\<rparr>"
  let ?s = "bdev_lock_lba_range_check_io c t x' ch' s1"
  have c: "c \<notin> set (pending_locked_ranges s)" "rgs s c = Some (cx_range x)"
    using ph x by (auto simp: phase_def rgs_def split: if_splits)
  have s1: "bdev_ctx s1 c = Some x'" "phase s1 = phase s" "rgs s1 = rgs s" "dev_threads s1 = dev_threads s"
      "bdev_ch s1 = (bdev_ch s)(t \<mapsto> ch')" "bdev_task s1 = bdev_task s"
      "locked_ranges s1 = locked_ranges s" "pending_locked_ranges s1 = pending_locked_ranges s"
      "quiesced_ranges s1 = quiesced_ranges s" "\<And>d. d \<noteq> c \<Longrightarrow> bdev_ctx s1 d = bdev_ctx s d"
    using c x x' by (auto simp: s1_def phase_def rgs_def fun_eq_iff)
  obtain p ref where p: "phase ?s = (phase s)(c := p)" "bdev_ctx ?s c = Some (x'\<lparr>cx_ch_ref := ref\<rparr>)" "rgs ?s = rgs s"
    and cs: "p = Checking t \<and> ref = Some t \<or> p = lock_next (dev_threads s) t \<and> drained t ch r"
    by (rule check_io_cases [OF s1(1) refl, of t ch']) (use c(1) x' in \<open>auto simp: s1 ch'_def\<close>)
  have "chan_ok (rgs s) ((phase s)(c := p)) t ch'"
    unfolding ch'_def
    using chan_ok_add [OF chan_okI [OF inv ch] c(2) r(1,2) ph] locked_ctx_notin [OF inv ch x False] r(3) cs by auto
  moreover have "chan_ok (rgs s) ((phase s)(c := p)) t' ch1" if "bdev_ch s t' = Some ch1" "t' \<noteq> t" for t' ch1
    using other_chan_ok_lock [OF inv _ _ that] ph cs by auto
  ultimately have "chans_ok ?s" by (auto simp: chans_ok_def p s1)
  moreover have "check_ok ?s"
    by (rule check_ok_phase [OF inv p(1)]) (use cs p(2) r x' ch in \<open>auto simp: s1 ch'_def\<close>)
  moreover have "quiesced_ok ?s" by (rule quiesced_phase [OF inv p(1)]) (simp_all add: ph s1 p)
  ultimately have "range_inv ?s"
    by (intro phase_step [OF inv _ _ _ _ _ p(1)]) (use ph cs p ch in \<open>auto simp: s1\<close>)
  then show ?thesis by (simp add: eq s1_def ch'_def)
qed

end
