(* ===== verification/Bdev_Range_Steps.thy ===== *)
theory Bdev_Range_Steps
  imports Bdev_Range_Inv
begin

text \<open>
  The remaining handlers of the LBA range locks preserve the invariant: the start and the end of
  a lock and of an unlock, the locks that were pending, channels that come and go, and I/O.
\<close>

section \<open>Reading the lists\<close>

lemma ctx_of_Some [simp]: "bdev_ctx s c = Some x \<Longrightarrow> ctx_of s c = Inr x"
  by (simp add: ctx_of_def)

lemma overlaps_tailq_eq:
  assumes "\<forall>c\<in>set cs. bdev_ctx s c \<noteq> None"
  shows "bdev_lba_range_overlaps_tailq s r cs
    = Inr (\<exists>c\<in>set cs. \<exists>y. rgs s c = Some y \<and> bdev_lba_range_overlapped r y)"
  using assms by (induction cs) (auto simp: rgs_def)

lemma locked_live:
  assumes "range_inv s" "c \<in> set (locked_ranges s)" shows "bdev_ctx s c \<noteq> None"
proof -
  have "holding (phase s c)" using assms by (simp add: range_inv_def lists_ok_def)
  then show ?thesis by (auto simp: phase_def split: if_splits)
qed

lemma invD:
  assumes "range_inv s"
  shows "threads_ok s" "chans_ok s" "lists_ok s" "keys_ok s" "exclusive_ok s" "quiesced_ok s"
    "waiting_ok s" "check_ok s"
  using assms by (simp_all add: range_inv_def)

lemma in_locked: "range_inv s \<Longrightarrow> c \<in> set (locked_ranges s) \<longleftrightarrow> holding (phase s c)"
  by (simp add: range_inv_def lists_ok_def)

lemma keysD:
  assumes "range_inv s" "bdev_ctx s c = Some x"
  shows "lr_offset (cx_range x) < lr_offset (cx_range x) + lr_length (cx_range x)" "lr_quiesce (cx_range x) \<Longrightarrow> lr_owner_ch (cx_range x) = None"
    "lr_owner_ch (cx_range x) = Some t \<Longrightarrow> bdev_ch s t \<noteq> None \<and> lr_owner_thread (cx_range x) = t"
proof -
  have "rgs s c = Some (cx_range x)" using assms(2) by (simp add: rgs_def)
  then show "lr_offset (cx_range x) < lr_offset (cx_range x) + lr_length (cx_range x)" "lr_quiesce (cx_range x) \<Longrightarrow> lr_owner_ch (cx_range x) = None"
      "lr_owner_ch (cx_range x) = Some t \<Longrightarrow> bdev_ch s t \<noteq> None \<and> lr_owner_thread (cx_range x) = t"
    using assms(1) unfolding range_inv_def keys_ok_def by blast+
qed

section \<open>The start of a walk\<close>

definition lock_first :: "nat list \<Rightarrow> phase" where
  "lock_first ts = (case ts of [] \<Rightarrow> LockDone | t # _ \<Rightarrow> Locking t)"

definition unlock_first :: "nat list \<Rightarrow> phase" where
  "unlock_first ts = (case ts of [] \<Rightarrow> UnlockDone | t # _ \<Rightarrow> Unlocking t)"

lemma lock_first_facts [simp]:
  "holding (lock_first ts)" "\<not> unlocking (lock_first ts)" "\<not> active (lock_first ts)"
  "lock_first ts \<noteq> Checking t" "Checking t \<noteq> lock_first ts" "lock_first ts \<noteq> Granted" "may (lock_first ts) t"
  "lock_first ts \<noteq> Failed" "lock_first ts \<noteq> Dead" "lock_first ts \<noteq> Pending" "Pending \<noteq> lock_first ts"
  by (simp_all add: lock_first_def split: list.split)

lemma unlock_first_facts [simp]:
  "\<not> holding (unlock_first ts)" "unlocking (unlock_first ts)" "active (unlock_first ts)"
  "unlock_first ts \<noteq> Checking t" "Checking t \<noteq> unlock_first ts" "\<not> reached (unlock_first ts) t"
  "unlock_first ts \<noteq> Failed" "unlock_first ts \<noteq> Dead" "unlock_first ts \<noteq> Pending"
  by (simp_all add: unlock_first_def split: list.split)

lemma first_thread: "\<lbrakk>sorted ts; t \<in> set ts\<rbrakk> \<Longrightarrow> \<not> reached (lock_first ts) t \<and> may (unlock_first ts) t"
  by (cases ts) (auto simp: lock_first_def unlock_first_def)

lemma for_each_simps [simp]:
  "locked_ranges (spdk_for_each_channel fn cpl c s) = locked_ranges s"
  "pending_locked_ranges (spdk_for_each_channel fn cpl c s) = pending_locked_ranges s"
  "quiesced_ranges (spdk_for_each_channel fn cpl c s) = quiesced_ranges s"
  "bdev_ctx (spdk_for_each_channel fn cpl c s) = bdev_ctx s"
  "dev_threads (spdk_for_each_channel fn cpl c s) = dev_threads s"
  "bdev_ch (spdk_for_each_channel fn cpl c s) = bdev_ch s"
  "rgs (spdk_for_each_channel fn cpl c s) = rgs s"
  "d \<noteq> c \<Longrightarrow> bdev_task (spdk_for_each_channel fn cpl c s) d = bdev_task s d"
  by (simp_all add: spdk_for_each_channel_def split: list.split)

lemma phase_for_each:
  assumes "bdev_ctx s c = Some x" "c \<notin> set (pending_locked_ranges s)"
  shows "phase (spdk_for_each_channel LockGetChannel LockCb c s) = (phase s)(c := lock_first (dev_threads s))"
    and "phase (spdk_for_each_channel UnlockGetChannel UnlockCb c s) = (phase s)(c := unlock_first (dev_threads s))"
  using assms by (simp_all add: spdk_for_each_channel_def lock_first_def unlock_first_def split: list.split)

lemma lock_msg_inv:
  assumes inv: "range_inv s" and ph: "phase s c = Locking 0" and x: "bdev_ctx s c = Some x"
  shows "range_inv (spdk_for_each_channel LockGetChannel LockCb c s)" (is "range_inv ?s")
proof (rule phase_step [OF inv])
  have c: "c \<notin> set (pending_locked_ranges s)" using ph x by (auto simp: phase_def split: if_splits)
  show p: "phase ?s = (phase s)(c := lock_first (dev_threads s))" using phase_for_each [OF x c] by simp
  show "quiesced_ok ?s" by (rule quiesced_phase [OF inv p]) (simp_all add: ph)
  show "check_ok ?s" by (rule check_ok_phase [OF inv p]) auto
  show "chans_ok ?s"
    unfolding chans_ok_def p
  proof (intro allI impI)
    fix t ch assume "bdev_ch ?s t = Some ch"
    then have ch: "bdev_ch s t = Some ch" by simp
    show "chan_ok (rgs ?s) ((phase s)(c := lock_first (dev_threads s))) t ch"
      using first_thread thread_of_channel [OF inv ch] ph
      by (simp, intro chan_ok_phase [OF chan_okI [OF inv ch]]) auto
  qed
qed (use ph in auto)

section \<open>A new lock\<close>

lemma new_lock_inv:
  assumes inv: "range_inv s" and c: "bdev_ctx s c = None"
    and r: "\<forall>d y. rgs s d = Some y \<longrightarrow> lr_locked_ctx y \<noteq> lr_locked_ctx r" "lr_offset r < lr_offset r + lr_length r"
      "lr_quiesce r \<longrightarrow> lr_owner_ch r = None"
      "\<forall>t. lr_owner_ch r = Some t \<longrightarrow> bdev_ch s t \<noteq> None \<and> lr_owner_thread r = t"
    and x: "cx_range x = r"
    and s': "bdev_ctx s' = (bdev_ctx s)(c \<mapsto> x)" "bdev_ch s' = bdev_ch s" "dev_threads s' = dev_threads s"
      "quiesced_ranges s' = quiesced_ranges s" "\<And>d. d \<noteq> c \<Longrightarrow> bdev_task s' d = bdev_task s d"
      "phase s' = (phase s)(c := p)"
    and cs: "p = Pending \<and> bdev_task s' c = None \<and> locked_ranges s' = locked_ranges s \<and>
        pending_locked_ranges s' = pending_locked_ranges s @ [c] \<and>
        (\<exists>d\<in>set (locked_ranges s). \<exists>y. rgs s d = Some y \<and> bdev_lba_range_overlapped r y)
      \<or> p = lock_first (dev_threads s) \<and> locked_ranges s' = locked_ranges s @ [c] \<and>
        pending_locked_ranges s' = pending_locked_ranges s \<and>
        \<not> (\<exists>d\<in>set (locked_ranges s). \<exists>y. rgs s d = Some y \<and> bdev_lba_range_overlapped r y)"
  shows "range_inv s'"
proof -
  note I = invD [OF inv]
  have ph: "phase s c = Dead" using c by (simp add: phase_def)
  have nin: "c \<notin> set (locked_ranges s)" "c \<notin> set (pending_locked_ranges s)" "c \<notin> set (quiesced_ranges s)"
    using in_locked [OF inv, of c] ph c I(3,6) by (auto simp: lists_ok_def quiesced_ok_def)
  have rg: "rgs s' = (rgs s)(c \<mapsto> r)" using s'(1) x by (auto simp: rgs_def fun_eq_iff)
  have rc: "rgs s c = None" using c by (simp add: rgs_def)
  have "chans_ok s'"
    unfolding chans_ok_def rg s'(2,6)
  proof (intro allI impI)
    fix t ch assume ch: "bdev_ch s t = Some ch"
    have "\<not> reached p t" using cs first_thread thread_of_channel [OF inv ch] by auto
    then show "chan_ok ((rgs s)(c \<mapsto> r)) ((phase s)(c := p)) t ch"
      using rc by (intro chan_ok_ctx [OF chan_okI [OF inv ch]]) auto
  qed
  moreover have "lists_ok s'"
    using I(3) cs nin s'(5) by (auto simp: lists_ok_def s'(1,6))
  moreover have "keys_ok s'"
  proof -
    have "unique_keys ((rgs s)(c \<mapsto> r))"
      using I(4) r(1) unfolding keys_ok_def unique_keys_def by (metis fun_upd_apply option.inject)
    then show ?thesis using I(4) r(2-4) by (auto simp: keys_ok_def rg s'(2))
  qed
  moreover have "exclusive_ok s'"
    using I(5) cs nin by (auto simp: exclusive_ok_def rg overlapped_commute [of r])
  moreover have "quiesced_ok s'" "threads_ok s'"
    using I(1,6) nin by (auto simp: quiesced_ok_def threads_ok_def s' rg)
  moreover have "waiting_ok s'"
    unfolding waiting_ok_def
  proof
    fix d assume "d \<in> set (pending_locked_ranges s')"
    then consider "d \<in> set (pending_locked_ranges s)" | "d = c" "p = Pending" using cs by auto
    then show "\<exists>y. rgs s' d = Some y \<and> blocked s' y"
    proof cases
      case 1
      then obtain y where y: "rgs s d = Some y" "blocked s y" using I(7) by (auto simp: waiting_ok_def)
      have "blocked s' y" by (rule blocked_mono [OF y(2)]) (use rc in \<open>auto simp: rg s'(6)\<close>)
      then show ?thesis using y(1) rc by (auto simp: rg)
    next
      case 2
      then obtain e z where "e \<in> set (locked_ranges s)" "rgs s e = Some z" "bdev_lba_range_overlapped r z"
        using cs by auto
      then have "blocked s' r" using nin in_locked [OF inv, of e] by (intro blockedI [of s' e z]) (auto simp: rg s'(6))
      then show ?thesis using 2 by (simp add: rg)
    qed
  qed
  moreover have "check_ok s'"
    by (rule check_ok_phase [OF inv s'(6)]) (use cs in \<open>auto simp: s'\<close>)
  ultimately show ?thesis by (simp add: range_inv_def)
qed

lemma lock_internal_inv:
  assumes inv: "range_inv s" and c: "bdev_ctx s c = None"
    and fresh: "\<forall>d y. bdev_ctx s d = Some y \<longrightarrow> lr_locked_ctx (cx_range y) \<noteq> cb_arg" and len: "offset < offset + len"
    and ow: "owner = None \<or> \<not> quiesce \<and> owner = Some th \<and> bdev_ch s th \<noteq> None"
  shows "\<exists>s'. bdev_lock_lba_range_internal True c th owner offset len quiesce cb_arg s = Inr s' \<and> range_inv s'"
proof -
  define r where "r = \<lparr>lr_offset = offset, lr_length = len, lr_quiesce = quiesce, lr_locked_ctx = cb_arg,
    lr_owner_thread = th, lr_owner_ch = owner\<rparr>"
  define x where "x = \<lparr>cx_range = r, cx_current_range = r, cx_owner_range = False, cx_ch_ref = None\<rparr>"
  define s1 where "s1 = s\<lparr>bdev_ctx := (bdev_ctx s)(c \<mapsto> x)\<rparr>"
  let ?ov = "\<exists>d\<in>set (locked_ranges s). \<exists>y. rgs s d = Some y \<and> bdev_lba_range_overlapped r y"
  have nl: "c \<notin> set (locked_ranges s)" "c \<notin> set (pending_locked_ranges s)" "bdev_task s c = None"
    using locked_live [OF inv, of c] c invD(3) [OF inv] by (auto simp: lists_ok_def phase_def)
  have r: "\<forall>d y. rgs s d = Some y \<longrightarrow> lr_locked_ctx y \<noteq> lr_locked_ctx r" "lr_offset r < lr_offset r + lr_length r"
      "lr_quiesce r \<longrightarrow> lr_owner_ch r = None"
      "\<forall>t. lr_owner_ch r = Some t \<longrightarrow> bdev_ch s t \<noteq> None \<and> lr_owner_thread r = t"
    using fresh len ow by (auto simp: r_def rgs_def)
  have x: "cx_range x = r" by (simp add: x_def)
  note new = new_lock_inv [OF inv c r x]
  have "bdev_lba_range_overlaps_tailq s1 r (locked_ranges s1)
      = Inr (\<exists>d\<in>set (locked_ranges s1). \<exists>y. rgs s1 d = Some y \<and> bdev_lba_range_overlapped r y)"
    by (rule overlaps_tailq_eq) (use locked_live [OF inv] in \<open>auto simp: s1_def\<close>)
  also have "(\<exists>d\<in>set (locked_ranges s1). \<exists>y. rgs s1 d = Some y \<and> bdev_lba_range_overlapped r y) = ?ov"
    using nl by (auto simp: s1_def rgs_def)
  finally have ov: "bdev_lba_range_overlaps_tailq s1 r (locked_ranges s1) = Inr ?ov" .
  have eq: "bdev_lock_lba_range_internal True c th owner offset len quiesce cb_arg s =
      (if ?ov then Inr (s1\<lparr>pending_locked_ranges := pending_locked_ranges s @ [c]\<rparr>)
       else bdev_lock_lba_range_ctx th c (s1\<lparr>locked_ranges := locked_ranges s @ [c]\<rparr>))"
    unfolding bdev_lock_lba_range_internal_def Let_def r_def [symmetric] x_def [symmetric] s1_def [symmetric] ov
    by (auto simp: s1_def)
  show ?thesis
  proof (cases ?ov)
    case True
    let ?s = "s1\<lparr>pending_locked_ranges := pending_locked_ranges s @ [c]\<rparr>"
    have "phase ?s = (phase s)(c := Pending)" using nl by (auto simp: s1_def phase_def fun_eq_iff)
    then have "range_inv ?s" by (rule new [rotated -2]) (use True nl in \<open>auto simp: s1_def\<close>)
    then show ?thesis using eq True by simp
  next
    case False
    let ?base = "s1\<lparr>locked_ranges := locked_ranges s @ [c]\<rparr>"
    let ?s = "spdk_for_each_channel LockGetChannel LockCb c ?base"
    have x0: "bdev_ctx ?base c = Some x" by (simp add: s1_def)
    have "phase ?s = (phase ?base)(c := lock_first (dev_threads s))"
      using phase_for_each [OF x0] nl by (simp add: s1_def)
    also have "\<dots> = (phase s)(c := lock_first (dev_threads s))" by (auto simp: s1_def phase_def fun_eq_iff)
    finally have "range_inv ?s" by (rule new [rotated -2]) (use False in \<open>auto simp: s1_def\<close>)
    moreover have "bdev_lock_lba_range_ctx th c ?base = Inr ?s"
      using x0 ow by (auto simp: bdev_lock_lba_range_ctx_def x_def r_def)
    ultimately show ?thesis using eq False by simp
  qed
qed

section \<open>A channel changes\<close>

lemma channel_inv:
  assumes inv: "range_inv s" and ch: "bdev_ch s t = Some ch" and ok: "chan_ok (rgs s) (phase s) t ch'"
    and keep: "\<And>d x. \<lbrakk>bdev_ctx s d = Some x; phase s d = Checking t; same_key (cx_current_range x) (cx_range x);
        cx_current_range x \<in> set (ch_locked_ranges ch)\<rbrakk> \<Longrightarrow> cx_current_range x \<in> set (ch_locked_ranges ch')"
  shows "range_inv (s\<lparr>bdev_ch := (bdev_ch s)(t \<mapsto> ch')\<rparr>)" (is "range_inv ?s")
proof -
  note I = invD [OF inv]
  have "chans_ok ?s" using I(2) ok by (auto simp: chans_ok_def)
  moreover have "check_ok ?s"
    unfolding check_ok_def
  proof (intro allI impI)
    fix d u x assume "bdev_ctx ?s d = Some x" "phase ?s d = Checking u"
    then have d: "bdev_ctx s d = Some x" "phase s d = Checking u" by simp_all
    show "cx_ch_ref x = Some u \<and> quiesce_copy x \<and> same_key (cx_current_range x) (cx_range x) \<and>
        (\<exists>ch1. bdev_ch ?s u = Some ch1 \<and> cx_current_range x \<in> set (ch_locked_ranges ch1))"
      using checkD [OF inv d] keep d ch by (cases "u = t") auto
  qed
  moreover have "threads_ok ?s" "lists_ok ?s" "keys_ok ?s" "exclusive_ok ?s" "quiesced_ok ?s" "waiting_ok ?s"
    using I ch by (auto simp: threads_ok_def lists_ok_def keys_ok_def exclusive_ok_def quiesced_ok_def waiting_ok_def blocked_def)
  ultimately show ?thesis by (simp add: range_inv_def)
qed

lemma submit_inv:
  "\<lbrakk>range_inv s; bdev_ch s t = Some ch\<rbrakk> \<Longrightarrow> range_inv (s\<lparr>bdev_ch := (bdev_ch s)(t \<mapsto> bdev_io_submit t io ch)\<rparr>)"
  by (rule channel_inv) (auto intro: chan_ok_submit chan_okI)

lemma complete_inv:
  "\<lbrakk>range_inv s; bdev_ch s t = Some ch\<rbrakk>
     \<Longrightarrow> range_inv (s\<lparr>bdev_ch := (bdev_ch s)(t \<mapsto> bdev_ch_remove_from_io_submitted io ch)\<rparr>)"
  by (rule channel_inv [OF _ _ chan_ok_complete [OF chan_okI]])
     (auto simp: bdev_ch_remove_from_io_submitted_def)

lemma key_differs:
  assumes "range_inv s" "bdev_ctx s c = Some x" "bdev_ctx s d = Some y" "d \<noteq> c"
    "same_key r (cx_range y)"
  shows "\<not> same_key r (cx_range x)"
proof
  assume "same_key r (cx_range x)"
  then have "lr_locked_ctx (cx_range x) = lr_locked_ctx (cx_range y)" using assms(5) by (simp add: same_key_def)
  moreover have "unique_keys (rgs s)" using assms(1) by (simp add: range_inv_def keys_ok_def)
  ultimately have "c = d"
    using assms(2,3) unique_keysD [of "rgs s" c "cx_range x" d "cx_range y"] by (simp add: rgs_def)
  then show False using assms(4) by simp
qed

section \<open>A lock is granted\<close>

lemma end_task_simps [simp]:
  "locked_ranges (end_task c s) = locked_ranges s" "pending_locked_ranges (end_task c s) = pending_locked_ranges s"
  "quiesced_ranges (end_task c s) = quiesced_ranges s" "bdev_ctx (end_task c s) = bdev_ctx s"
  "dev_threads (end_task c s) = dev_threads s" "bdev_ch (end_task c s) = bdev_ch s" "rgs (end_task c s) = rgs s"
  "d \<noteq> c \<Longrightarrow> bdev_task (end_task c s) d = bdev_task s d" "bdev_task (end_task c s) c = None"
  by (simp_all add: end_task_def rgs_def fun_eq_iff)

lemma granted_inv:
  assumes inv: "range_inv s" and ph: "phase s c = LockDone"
  shows "range_inv (end_task c s)" (is "range_inv ?s") "phase (end_task c s) = (phase s)(c := Granted)"
proof -
  obtain x where x: "bdev_ctx s c = Some x" "c \<notin> set (pending_locked_ranges s)"
    by (rule phase_live [OF inv]) (use ph in auto)
  then show p: "phase ?s = (phase s)(c := Granted)" by (auto simp: phase_def end_task_def fun_eq_iff)
  have "quiesced_ok ?s" by (rule quiesced_phase [OF inv p]) (simp_all add: ph)
  moreover have "check_ok ?s" by (rule check_ok_phase [OF inv p]) auto
  moreover have "chans_ok ?s"
    unfolding chans_ok_def p using ph by (auto intro!: chan_ok_phase chan_okI [OF inv])
  ultimately show "range_inv ?s" by (intro phase_step [OF inv _ _ _ _ _ p]) (use ph in auto)
qed

lemma set_owner_inv:
  assumes inv: "range_inv s" and ph: "phase s c = Granted" and x: "bdev_ctx s c = Some x" and ch: "bdev_ch s t = Some ch"
  shows "range_inv (s\<lparr>bdev_ch := (bdev_ch s)(t \<mapsto> set_owner_ch x ch)\<rparr>)"
proof (rule channel_inv [OF inv ch])
  show "chan_ok (rgs s) (phase s) t (set_owner_ch x ch)"
    using chan_okI [OF inv ch] inv x ph by (intro chan_ok_owner [of _ _ _ _ c]) (auto simp: range_inv_def keys_ok_def rgs_def)
  fix d y assume d: "bdev_ctx s d = Some y" "phase s d = Checking t" "same_key (cx_current_range y) (cx_range y)"
      "cx_current_range y \<in> set (ch_locked_ranges ch)"
  have "d \<noteq> c" using ph d(2) by auto
  then have "\<not> same_key (cx_current_range y) (cx_range x)" using key_differs [OF inv x d(1) _ d(3)] by simp
  then show "cx_current_range y \<in> set (ch_locked_ranges (set_owner_ch x ch))"
    using d(4) by (auto simp: set_owner_ch_def image_iff intro!: bexI [of _ "cx_current_range y"])
qed

lemma quiesced_inv:
  assumes inv: "range_inv s" and ph: "phase s c = Granted" "c \<notin> set (quiesced_ranges s)"
    and x: "bdev_ctx s c = Some x" "lr_quiesce (cx_range x)"
  shows "range_inv (bdev_quiesce_range_locked c s)"
proof -
  have "lr_owner_ch (cx_range x) = None" using keysD(2) [OF inv] x by auto
  then show ?thesis
    using invD [OF inv] ph x
    by (simp add: range_inv_def bdev_quiesce_range_locked_def threads_ok_def chans_ok_def lists_ok_def keys_ok_def
        exclusive_ok_def quiesced_ok_def waiting_ok_def blocked_def check_ok_def) (simp add: rgs_def)
qed

lemma lock_cb_inv:
  assumes inv: "range_inv s" and ph: "phase s c = LockDone" and x: "bdev_ctx s c = Some x"
  shows "\<exists>s'. bdev_lock_lba_range_cb c x None s = Inr s' \<and> range_inv s'"
proof -
  note g = granted_inv [OF inv ph]
  have g': "phase (end_task c s) c = Granted" "bdev_ctx (end_task c s) c = Some x" using g(2) x by simp_all
  have nq: "c \<notin> set (quiesced_ranges s)" using invD(6) [OF inv] ph by (auto simp: quiesced_ok_def)
  have q: "range_inv (if lr_quiesce (cx_range x) then bdev_quiesce_range_locked c s1 else s1)"
    if "range_inv s1" "phase s1 c = Granted" "bdev_ctx s1 c = Some x" "quiesced_ranges s1 = quiesced_ranges s" for s1
    using quiesced_inv [OF that(1,2) _ that(3)] that nq by auto
  show ?thesis
  proof (cases "lr_owner_ch (cx_range x)")
    case None
    then show ?thesis using q [OF g(1) g'] by (simp add: bdev_lock_lba_range_cb_def Let_def)
  next
    case (Some t)
    then obtain ch where ch: "bdev_ch (end_task c s) t = Some ch"
      using keysD(3) [OF inv x] by auto
    note o = set_owner_inv [OF g(1) g' ch]
    have "range_inv (if lr_quiesce (cx_range x) then bdev_quiesce_range_locked c
          (end_task c s\<lparr>bdev_ch := (bdev_ch s)(t \<mapsto> set_owner_ch x ch)\<rparr>)
        else end_task c s\<lparr>bdev_ch := (bdev_ch s)(t \<mapsto> set_owner_ch x ch)\<rparr>)"
      by (rule q) (use o g' in simp_all)
    then show ?thesis
      using q [OF g(1) g'] Some ch by (simp add: bdev_lock_lba_range_cb_def Let_def)
  qed
qed

section \<open>Unlocking\<close>

lemma unlock_start_inv:
  assumes inv: "range_inv s" and ph: "phase s c = Granted" "c \<notin> set (quiesced_ranges s)"
  shows "range_inv (spdk_for_each_channel UnlockGetChannel UnlockCb c (s\<lparr>locked_ranges := remove1 c (locked_ranges s)\<rparr>))"
    (is "range_inv ?s")
proof -
  note I = invD [OF inv]
  let ?base = "s\<lparr>locked_ranges := remove1 c (locked_ranges s)\<rparr>" and ?p = "unlock_first (dev_threads s)"
  obtain x where x: "bdev_ctx s c = Some x" "c \<notin> set (pending_locked_ranges s)"
    by (rule phase_live [OF inv]) (use ph in auto)
  have p: "phase ?s = (phase s)(c := ?p)" using phase_for_each [of ?base c x] x by simp
  have ch: "bdev_ch ?s = bdev_ch s" and rg: "rgs ?s = rgs s" by simp_all
  have "distinct (locked_ranges s)" using I(3) by (simp add: lists_ok_def)
  then have "lists_ok ?s"
    using I(3) x by (auto simp: lists_ok_def p)
  moreover have "chans_ok ?s"
    unfolding chans_ok_def p rg ch
  proof (intro allI impI)
    fix t ch assume ch: "bdev_ch s t = Some ch"
    show "chan_ok (rgs s) ((phase s)(c := ?p)) t ch"
      using first_thread thread_of_channel [OF inv ch] ph by (intro chan_ok_phase [OF chan_okI [OF inv ch]]) auto
  qed
  moreover have "waiting_ok ?s"
  proof -
    have "blocked ?s x" if "blocked s x" for x
      by (rule blocked_mono [OF that]) (use ph in \<open>auto simp: p rg\<close>)
    then show ?thesis using I(7) unfolding waiting_ok_def rg by auto
  qed
  moreover have "check_ok ?s" by (rule check_ok_phase [OF inv p]) auto
  moreover have "exclusive_ok ?s" using I(5) set_remove1_subset [of c "locked_ranges s"] by (auto simp: exclusive_ok_def)
  moreover have "quiesced_ok ?s" using I(6) ph(2) by (auto simp: quiesced_ok_def p)
  moreover have "threads_ok ?s" "keys_ok ?s" using I(1,4) by (auto simp: threads_ok_def keys_ok_def)
  ultimately show ?thesis by (simp add: range_inv_def)
qed

lemma other_chan_ok_unlock:
  assumes "range_inv s" "phase s c = Unlocking t" "bdev_ch s t' = Some ch" "t' \<noteq> t"
  shows "chan_ok (rgs s) ((phase s)(c := unlock_next (dev_threads s) t)) t' ch"
  using assms thread_of_channel [OF assms(1,3)] may_unlock_next [of "dev_threads s" t' t]
  by (intro chan_ok_phase [OF chan_okI [OF assms(1,3)]]) auto

lemma resubmit_ranges [simp]: "ch_locked_ranges (resubmit_locked t ios ch) = ch_locked_ranges ch"
  by (induction t ios ch rule: resubmit_locked.induct) simp_all

lemma unlock_channel_inv:
  assumes inv: "range_inv s" and ph: "phase s c = Unlocking t" and x: "bdev_ctx s c = Some x"
    and ch: "bdev_ch s t = Some ch"
  shows "range_inv (bdev_unlock_lba_range_get_channel UnlockCb c t x ch s)"
proof -
  define ch' where "ch' = resubmit_locked t (ch_io_locked ch)
    (ch\<lparr>ch_locked_ranges := filter (\<lambda>r. \<not> same_key (cx_range x) r) (ch_locked_ranges ch), ch_io_locked := []\<rparr>)"
  let ?base = "s\<lparr>bdev_ch := (bdev_ch s)(t \<mapsto> ch')\<rparr>" and ?p = "unlock_next (dev_threads s) t"
  let ?s = "spdk_for_each_channel_continue UnlockGetChannel UnlockCb t None c ?base"
  have "distinct (map lr_locked_ctx (ch_locked_ranges ch))" using chan_okI [OF inv ch] by (simp add: chan_ok_def)
  then have eq: "bdev_unlock_lba_range_get_channel UnlockCb c t x ch s = ?s"
    by (simp add: bdev_unlock_lba_range_get_channel_def extract_key Let_def ch'_def)
  have c: "c \<notin> set (pending_locked_ranges s)" "rgs s c = Some (cx_range x)"
    using ph x by (auto simp: phase_def rgs_def split: if_splits)
  have p: "phase ?s = (phase s)(c := ?p)" using phase_continue [of ?base c x] x c by simp
  have u: "unique_keys (rgs s)" using inv by (simp add: range_inv_def keys_ok_def)
  have "chan_ok (rgs s) ((phase s)(c := ?p)) t ch'"
    unfolding ch'_def by (intro chan_ok_resubmit chan_ok_remove [OF chan_okI [OF inv ch] u c(2) ph]) simp
  then have "chans_ok ?s"
    using other_chan_ok_unlock [OF inv ph] by (auto simp: chans_ok_def p)
  moreover have "check_ok ?s"
  proof (rule check_ok_phase [OF inv p])
    fix d u ch1 y assume d: "d \<noteq> c" "bdev_ctx s d = Some y" "bdev_ch s u = Some ch1"
      "cx_current_range y \<in> set (ch_locked_ranges ch1)" "same_key (cx_current_range y) (cx_range y)"
    have "\<not> same_key (cx_range x) (cx_current_range y)"
      using key_differs [OF inv x d(2,1,5)] by (auto dest: same_key_sym)
    then show "\<exists>ch2. bdev_ch ?s u = Some ch2 \<and> cx_current_range y \<in> set (ch_locked_ranges ch2)"
      using d ch by (auto simp: ch'_def)
  qed auto
  moreover have "quiesced_ok ?s" by (rule quiesced_phase [OF inv p]) (simp_all add: ph)
  ultimately have "range_inv ?s"
    by (intro phase_step [OF inv _ _ _ _ _ p]) (use ph ch in auto)
  then show ?thesis by (simp add: eq)
qed

lemma unlock_skip_inv:
  assumes inv: "range_inv s" and ph: "phase s c = Unlocking t" and ch: "bdev_ch s t = None"
  shows "range_inv (spdk_for_each_channel_continue UnlockGetChannel UnlockCb t None c s)" (is "range_inv ?s")
proof -
  obtain x where x: "bdev_ctx s c = Some x" "c \<notin> set (pending_locked_ranges s)"
    by (rule phase_live [OF inv]) (use ph in auto)
  have p: "phase ?s = (phase s)(c := unlock_next (dev_threads s) t)" using phase_continue [OF x] by simp
  have "quiesced_ok ?s" by (rule quiesced_phase [OF inv p]) (simp_all add: ph)
  moreover have "check_ok ?s" by (rule check_ok_phase [OF inv p]) auto
  moreover have "chans_ok ?s"
    unfolding chans_ok_def p using other_chan_ok_unlock [OF inv ph] ch by (metis continue_simps(6,7) option.distinct(1))
  ultimately show ?thesis by (intro phase_step [OF inv _ _ _ _ _ p]) (use ph in auto)
qed

section \<open>Pending locks\<close>

lemma promote_inv:
  assumes inv: "range_inv s" and d: "d \<in> set (pending_locked_ranges s)" "rgs s d = Some y"
    and free: "\<not> (\<exists>e\<in>set (locked_ranges s). \<exists>z. rgs s e = Some z \<and> bdev_lba_range_overlapped y z)"
  defines "s' \<equiv> set_task d LockMsg (s\<lparr>pending_locked_ranges := remove1 d (pending_locked_ranges s),
    locked_ranges := locked_ranges s @ [d]\<rparr>)"
  shows "range_inv s'" "phase s' = (phase s)(d := Locking 0)"
proof -
  note I = invD [OF inv]
  have ph: "phase s d = Pending" using phase_Pending [OF I(3)] d by simp
  have nl: "d \<notin> set (locked_ranges s)" using in_locked [OF inv, of d] ph by simp
  have dist: "distinct (pending_locked_ranges s)" using I(3) by (simp add: lists_ok_def)
  have live: "bdev_ctx s d \<noteq> None" using d by (auto simp: rgs_def)
  show p: "phase s' = (phase s)(d := Locking 0)"
    using live dist by (auto simp: s'_def phase_def set_task_def fun_eq_iff)
  have sel: "locked_ranges s' = locked_ranges s @ [d]" "pending_locked_ranges s' = remove1 d (pending_locked_ranges s)"
      "quiesced_ranges s' = quiesced_ranges s" "bdev_ctx s' = bdev_ctx s" "dev_threads s' = dev_threads s"
      "bdev_ch s' = bdev_ch s" "rgs s' = rgs s" "\<And>e. e \<noteq> d \<Longrightarrow> bdev_task s' e = bdev_task s e"
    by (simp_all add: s'_def rgs_def fun_eq_iff)
  have "lists_ok s'"
    using I(3) nl dist by (simp add: lists_ok_def sel p)
  moreover have "chans_ok s'"
    unfolding chans_ok_def p sel
  proof (intro allI impI)
    fix t ch assume "bdev_ch s t = Some ch"
    then show "chan_ok (rgs s) ((phase s)(d := Locking 0)) t ch"
      using ph by (intro chan_ok_phase [OF chan_okI [OF inv]]) simp_all
  qed
  moreover {
    fix e z assume "e \<in> set (locked_ranges s)" "rgs s e = Some z"
    then have "\<not> bdev_lba_range_overlapped y z \<and> \<not> bdev_lba_range_overlapped z y"
      using free overlapped_commute [of z y] by blast
  }
  then have "exclusive_ok s'"
    using I(5) d(2) by (auto simp: exclusive_ok_def sel)
  moreover have "blocked s' x" if "blocked s x" for x
    by (rule blocked_mono [OF that]) (use ph in \<open>auto simp: p sel\<close>)
  then have "waiting_ok s'"
    using I(7) set_remove1_subset [of d "pending_locked_ranges s"] unfolding waiting_ok_def sel by blast
  moreover have "check_ok s'" by (rule check_ok_phase [OF inv p]) (simp_all add: sel)
  moreover have "quiesced_ok s'" by (rule quiesced_phase [OF inv p]) (simp_all add: sel ph)
  moreover have "threads_ok s'" "keys_ok s'" using I(1,4) by (simp_all add: threads_ok_def keys_ok_def sel)
  ultimately show "range_inv s'" by (simp add: range_inv_def)
qed

text \<open>After the loop, a lock that is still pending and overlaps the unlocked range overlaps a lock in
  the device's list as well.\<close>

lemma lock_pending_inv:
  assumes "range_inv s" "set cs \<subseteq> set (pending_locked_ranges s)" "distinct cs"
  shows "\<exists>s'. lock_pending u cs s = Inr s' \<and> range_inv s' \<and> rgs s' = rgs s
    \<and> set (pending_locked_ranges s') \<subseteq> set (pending_locked_ranges s)
    \<and> (\<forall>c. c \<notin> set cs \<longrightarrow> phase s' c = phase s c) \<and> set (locked_ranges s) \<subseteq> set (locked_ranges s')
    \<and> (\<forall>d\<in>set cs \<inter> set (pending_locked_ranges s'). \<forall>y. rgs s d = Some y \<longrightarrow> bdev_lba_range_overlapped y u \<longrightarrow>
         (\<exists>e\<in>set (locked_ranges s'). \<exists>z. rgs s e = Some z \<and> bdev_lba_range_overlapped y z))"
  using assms
proof (induction cs arbitrary: s)
  case (Cons d cs)
  have "bdev_ctx s d \<noteq> None" using Cons.prems by (auto simp: range_inv_def lists_ok_def)
  then obtain x where x: "bdev_ctx s d = Some x" "rgs s d = Some (cx_range x)" by (auto simp: rgs_def)
  let ?ov = "\<exists>e\<in>set (locked_ranges s). \<exists>z. rgs s e = Some z \<and> bdev_lba_range_overlapped (cx_range x) z"
  have ov: "bdev_lba_range_overlaps_tailq s (cx_range x) (locked_ranges s) = Inr ?ov"
    by (rule overlaps_tailq_eq) (use locked_live [OF Cons.prems(1)] in blast)
  show ?case
  proof (cases "bdev_lba_range_overlapped (cx_range x) u \<and> \<not> ?ov")
    case True
    define s1 where "s1 = set_task d LockMsg (s\<lparr>pending_locked_ranges := remove1 d (pending_locked_ranges s),
      locked_ranges := locked_ranges s @ [d]\<rparr>)"
    have eq: "lock_pending u (d # cs) s = lock_pending u cs s1"
      using True x ov by (simp add: s1_def)
    have d: "d \<in> set (pending_locked_ranges s)" "distinct (pending_locked_ranges s)"
      using Cons.prems by (auto simp: range_inv_def lists_ok_def)
    note pr = promote_inv [OF Cons.prems(1) d(1) x(2), folded s1_def]
    have sel: "locked_ranges s1 = locked_ranges s @ [d]" "pending_locked_ranges s1 = remove1 d (pending_locked_ranges s)"
        "rgs s1 = rgs s" by (simp_all add: s1_def rgs_def fun_eq_iff)
    have cs: "set cs \<subseteq> set (pending_locked_ranges s1)" using Cons.prems d(2) by (auto simp: sel set_remove1_eq)
    obtain s' where s': "lock_pending u cs s1 = Inr s'" "range_inv s'" "rgs s' = rgs s1"
        "set (pending_locked_ranges s') \<subseteq> set (pending_locked_ranges s1)"
        "\<forall>c. c \<notin> set cs \<longrightarrow> phase s' c = phase s1 c" "set (locked_ranges s1) \<subseteq> set (locked_ranges s')"
        "\<forall>d\<in>set cs \<inter> set (pending_locked_ranges s'). \<forall>y. rgs s1 d = Some y \<longrightarrow> bdev_lba_range_overlapped y u \<longrightarrow>
         (\<exists>e\<in>set (locked_ranges s'). \<exists>z. rgs s1 e = Some z \<and> bdev_lba_range_overlapped y z)"
      using Cons.IH [OF pr(1) cs] True Cons.prems(3) by auto
    show ?thesis
      using s' pr True d(2) unfolding eq sel by (intro exI [of _ s']) (auto simp: set_remove1_eq)
  next
    case False
    then have eq: "lock_pending u (d # cs) s = lock_pending u cs s" using x ov by auto
    obtain s' where s': "lock_pending u cs s = Inr s'" "range_inv s'" "rgs s' = rgs s"
        "set (pending_locked_ranges s') \<subseteq> set (pending_locked_ranges s)"
        "\<forall>c. c \<notin> set cs \<longrightarrow> phase s' c = phase s c" "set (locked_ranges s) \<subseteq> set (locked_ranges s')"
        "\<forall>d\<in>set cs \<inter> set (pending_locked_ranges s'). \<forall>y. rgs s d = Some y \<longrightarrow> bdev_lba_range_overlapped y u \<longrightarrow>
         (\<exists>e\<in>set (locked_ranges s'). \<exists>z. rgs s e = Some z \<and> bdev_lba_range_overlapped y z)"
      using Cons.IH [of s] Cons.prems by auto
    moreover have "\<exists>e\<in>set (locked_ranges s'). \<exists>z. rgs s e = Some z \<and> bdev_lba_range_overlapped (cx_range x) z"
      if "bdev_lba_range_overlapped (cx_range x) u"
      using False that s'(6) by blast
    ultimately show ?thesis
      using x(2) unfolding eq by (intro exI [of _ s']) auto
  qed
qed auto

lemma unregister_msgs_inv [simp]: "range_inv (s\<lparr>unregister_msgs := n\<rparr>) = range_inv s"
  by (simp add: range_inv_def threads_ok_def chans_ok_def lists_ok_def keys_ok_def exclusive_ok_def
      quiesced_ok_def waiting_ok_def blocked_def check_ok_def)

lemma unlock_end_inv:
  assumes inv: "range_inv s" and ph: "phase s c = UnlockDone" and u: "rgs s c = Some u"
    and pend: "\<And>d y. \<lbrakk>d \<in> set (pending_locked_ranges s); rgs s d = Some y; bdev_lba_range_overlapped y u\<rbrakk>
        \<Longrightarrow> \<exists>e\<in>set (locked_ranges s). \<exists>z. rgs s e = Some z \<and> bdev_lba_range_overlapped y z"
  shows "range_inv (free_ctx c (end_task c s))" (is "range_inv ?s")
proof -
  note I = invD [OF inv]
  have c: "c \<notin> set (pending_locked_ranges s)" "c \<notin> set (locked_ranges s)" "c \<notin> set (quiesced_ranges s)"
    using phase_Pending [OF I(3), of c] in_locked [OF inv, of c] I(6) ph by (auto simp: quiesced_ok_def)
  have p: "phase ?s = (phase s)(c := Dead)" by (auto simp: phase_def free_ctx_def end_task_def fun_eq_iff)
  have rg: "rgs ?s = (rgs s)(c := None)" by (auto simp: rgs_def free_ctx_def end_task_def fun_eq_iff)
  have sel: "locked_ranges ?s = locked_ranges s" "pending_locked_ranges ?s = pending_locked_ranges s"
      "quiesced_ranges ?s = quiesced_ranges s" "bdev_ctx ?s = (bdev_ctx s)(c := None)" "dev_threads ?s = dev_threads s"
      "bdev_ch ?s = bdev_ch s" "bdev_task ?s = (bdev_task s)(c := None)"
    by (simp_all add: free_ctx_def end_task_def)
  have "lists_ok ?s" using I(3) c ph by (auto simp: lists_ok_def sel p)
  moreover have "chans_ok ?s"
    unfolding chans_ok_def p rg sel
  proof (intro allI impI)
    fix t ch assume "bdev_ch s t = Some ch"
    then show "chan_ok ((rgs s)(c := None)) ((phase s)(c := Dead)) t ch"
      using ph by (intro chan_ok_ctx [OF chan_okI [OF inv]]) simp_all
  qed
  moreover have "keys_ok ?s" using I(4) unfolding keys_ok_def unique_keys_def rg sel by (auto split: if_splits)
  moreover have "exclusive_ok ?s" using I(5) c(2) unfolding exclusive_ok_def rg sel by (metis fun_upd_other)
  moreover have "quiesced_ok ?s" using I(6) c(3) by (auto simp: quiesced_ok_def sel p rg)
  moreover have "waiting_ok ?s"
    unfolding waiting_ok_def sel
  proof
    fix d assume d: "d \<in> set (pending_locked_ranges s)"
    then obtain y e z where e: "rgs s d = Some y" "rgs s e = Some z" "holding (phase s e) \<or> unlocking (phase s e)"
        "bdev_lba_range_overlapped y z"
      using I(7) unfolding waiting_ok_def blocked_def by blast
    have "\<exists>e z. e \<noteq> c \<and> rgs s e = Some z \<and> (holding (phase s e) \<or> unlocking (phase s e)) \<and> bdev_lba_range_overlapped y z"
    proof (cases "e = c")
      case True
      then show ?thesis using pend [OF d e(1)] e u c(2) in_locked [OF inv] by (metis option.inject)
    qed (use e in blast)
    then have "blocked ?s y" unfolding blocked_def p rg by auto
    moreover have "d \<noteq> c" using d c by auto
    ultimately show "\<exists>y. rgs ?s d = Some y \<and> blocked ?s y" using e(1) by (simp add: rg)
  qed
  moreover have "check_ok ?s" by (rule check_ok_phase [OF inv p]) (simp_all add: sel)
  moreover have "threads_ok ?s" using I(1) by (simp add: threads_ok_def sel)
  ultimately show ?thesis by (simp add: range_inv_def)
qed

lemma unlock_cb_inv:
  assumes inv: "range_inv s" and ph: "phase s c = UnlockDone" and x: "bdev_ctx s c = Some x"
  shows "\<exists>s'. bdev_unlock_lba_range_cb c x s = Inr s' \<and> range_inv s'"
proof -
  have dist: "distinct (pending_locked_ranges s)" using invD(3) [OF inv] by (simp add: lists_ok_def)
  have c: "c \<notin> set (pending_locked_ranges s)" using phase_Pending [OF invD(3) [OF inv], of c] ph by simp
  obtain s1 where s1: "lock_pending (cx_range x) (pending_locked_ranges s) s = Inr s1" "range_inv s1" "rgs s1 = rgs s"
      "set (pending_locked_ranges s1) \<subseteq> set (pending_locked_ranges s)" "phase s1 c = phase s c"
      "\<forall>d\<in>set (pending_locked_ranges s) \<inter> set (pending_locked_ranges s1). \<forall>y. rgs s d = Some y \<longrightarrow>
         bdev_lba_range_overlapped y (cx_range x) \<longrightarrow>
         (\<exists>e\<in>set (locked_ranges s1). \<exists>z. rgs s e = Some z \<and> bdev_lba_range_overlapped y z)"
    using lock_pending_inv [OF inv subset_refl dist, of "cx_range x"] c by blast
  let ?s2 = "if dev_status s1 = STATUS_UNREGISTERING \<and> locked_ranges s1 = []
             then s1\<lparr>unregister_msgs := unregister_msgs s1 + 1\<rparr> else s1"
  have fields: "phase ?s2 = phase s1" "rgs ?s2 = rgs s1" "pending_locked_ranges ?s2 = pending_locked_ranges s1"
      "locked_ranges ?s2 = locked_ranges s1" by simp_all
  have "range_inv (free_ctx c (end_task c ?s2))"
  proof (rule unlock_end_inv)
    show "range_inv ?s2" using s1(2) by simp
    show "phase ?s2 c = UnlockDone" using s1(5) ph fields by simp
    show "rgs ?s2 c = Some (cx_range x)" using s1(3) x unfolding fields by (simp add: rgs_def)
    fix d y assume "d \<in> set (pending_locked_ranges ?s2)" "rgs ?s2 d = Some y" "bdev_lba_range_overlapped y (cx_range x)"
    then show "\<exists>e\<in>set (locked_ranges ?s2). \<exists>z. rgs ?s2 e = Some z \<and> bdev_lba_range_overlapped y z"
      using s1(3,4,6) unfolding fields by auto
  qed
  then show ?thesis by (simp add: bdev_unlock_lba_range_cb_def s1(1) Let_def)
qed

section \<open>Finding the lock to release\<close>

lemma overlapped_self: "\<lbrakk>lr_offset x < lr_offset x + lr_length x; lr_offset y = lr_offset x; lr_length y = lr_length x\<rbrakk>
    \<Longrightarrow> bdev_lba_range_overlapped x y"
  by (auto simp: bdev_lba_range_overlapped_def)

lemma find_locked_unique:
  assumes "\<forall>d\<in>set cs. bdev_ctx s d \<noteq> None" "c \<in> set cs" "bdev_ctx s c = Some x"
    "\<forall>d\<in>set cs. \<forall>y. bdev_ctx s d = Some y \<longrightarrow> lr_offset (cx_range y) = lr_offset (cx_range x) \<longrightarrow>
       lr_length (cx_range y) = lr_length (cx_range x) \<longrightarrow> d = c"
  shows "find_locked s (lr_offset (cx_range x)) (lr_length (cx_range x)) (lr_locked_ctx (cx_range x)) cs = Inr (Some c)"
  using assms(1,2,4)
proof (induction cs)
  case (Cons d cs)
  then obtain y where y: "bdev_ctx s d = Some y" by auto
  show ?case
  proof (cases "d = c")
    case True then show ?thesis using assms(3) by simp
  next
    case False
    then have "\<not> (lr_offset (cx_range y) = lr_offset (cx_range x) \<and> lr_length (cx_range y) = lr_length (cx_range x))"
      using Cons.prems(3) y by auto
    then show ?thesis using Cons False y by auto
  qed
qed simp

lemma unlock_internal_inv:
  assumes inv: "range_inv s" and ph: "phase s c = Granted" "c \<notin> set (quiesced_ranges s)" and x: "bdev_ctx s c = Some x"
  shows "\<exists>s'. bdev_unlock_lba_range_internal (lr_offset (cx_range x)) (lr_length (cx_range x)) (lr_locked_ctx (cx_range x)) s
      = Inr s' \<and> range_inv s'"
proof -
  have c: "c \<in> set (locked_ranges s)" using in_locked [OF inv, of c] ph by simp
  have "d = c" if d: "d \<in> set (locked_ranges s)" "bdev_ctx s d = Some y" "lr_offset (cx_range y) = lr_offset (cx_range x)"
      "lr_length (cx_range y) = lr_length (cx_range x)" for d y
  proof (rule ccontr)
    assume "d \<noteq> c"
    then have "\<not> bdev_lba_range_overlapped (cx_range x) (cx_range y)"
      using invD(5) [OF inv] c d x unfolding exclusive_ok_def rgs_def by (metis option.map(2))
    then show False using overlapped_self [OF keysD(1) [OF inv x], of "cx_range y"] d by simp
  qed
  then have "find_locked s (lr_offset (cx_range x)) (lr_length (cx_range x)) (lr_locked_ctx (cx_range x)) (locked_ranges s)
      = Inr (Some c)"
    using c x locked_live [OF inv] by (intro find_locked_unique) blast+
  then show ?thesis
    using unlock_start_inv [OF inv ph] by (simp add: bdev_unlock_lba_range_internal_def)
qed

lemma unlock_owner_inv:
  assumes inv: "range_inv s" and c: "c \<in> set (locked_ranges s)" "bdev_ctx s c = Some x"
    and u: "bdev_unlock_lba_range t (lr_offset (cx_range x)) (lr_length (cx_range x)) (lr_locked_ctx (cx_range x)) s = Inr s'"
  shows "range_inv s'"
proof -
  obtain ch r where ch: "bdev_ch s t = Some ch" and r: "r \<in> set (ch_locked_ranges ch)" "lr_owner_ch r = Some t"
      "lr_locked_ctx r = lr_locked_ctx (cx_range x)"
    and s': "bdev_unlock_lba_range_internal (lr_offset (cx_range x)) (lr_length (cx_range x)) (lr_locked_ctx (cx_range x)) s = Inr s'"
    using u by (auto simp: bdev_unlock_lba_range_def list_ex_iff split: option.splits if_splits)
  have "range_ok (rgs s) (phase s) t ch r" using chan_okI [OF inv ch] r(1) by (simp add: chan_ok_def)
  then obtain d y where d: "rgs s d = Some y" "same_key r y" "lr_owner_ch r = lr_owner_ch y" "active (phase s d)"
    unfolding range_ok_def using r(2) by auto
  have cx: "rgs s c = Some (cx_range x)" using c by (simp add: rgs_def)
  have "unique_keys (rgs s)" using inv by (simp add: range_inv_def keys_ok_def)
  then have "d = c" using unique_keysD [OF _ d(1) cx] d(2) r(3) by (simp add: same_key_def)
  moreover have "holding (phase s c)" using c(1) in_locked [OF inv] by simp
  ultimately have "phase s c = Granted" using d(4) by (cases "phase s c") (simp_all add: active_def)
  moreover have "c \<notin> set (quiesced_ranges s)"
    using invD(6) [OF inv] d \<open>d = c\<close> r(2) by (auto simp: quiesced_ok_def)
  ultimately show ?thesis using unlock_internal_inv [OF inv _ _ c(2)] s' by auto
qed

lemma find_quiesced_Some:
  "find_quiesced s offset len cs = Inr (Some (q, x)) \<Longrightarrow> q \<in> set cs \<and> bdev_ctx s q = Some x
     \<and> lr_offset (cx_range x) = offset \<and> lr_length (cx_range x) = len"
  by (induction cs) (auto simp: ctx_of_def split: option.splits if_splits elim!: res_bind_InrE)

lemma unquiesce_inv:
  assumes inv: "range_inv s" and u: "spdk_bdev_unquiesce_range mdl offset len s = Inr s'"
  shows "range_inv s'"
proof -
  obtain q x where f: "find_quiesced s offset len (quiesced_ranges s) = Inr (Some (q, x))"
    and s': "bdev_unlock_lba_range_internal offset len (lr_locked_ctx (cx_range x))
      (s\<lparr>quiesced_ranges := remove1 q (quiesced_ranges s)\<rparr>) = Inr s'"
    using u unfolding spdk_bdev_unquiesce_range_def bdev_quiesce_def
    by (auto split: if_splits option.splits elim!: res_bind_InrE)
  note q = find_quiesced_Some [OF f]
  let ?s = "s\<lparr>quiesced_ranges := remove1 q (quiesced_ranges s)\<rparr>"
  have dist: "distinct (quiesced_ranges s)" and ph: "phase s q = Granted"
    using invD(6) [OF inv] q by (auto simp: quiesced_ok_def)
  have "range_inv ?s"
    using invD [OF inv] dist
    by (simp add: range_inv_def threads_ok_def chans_ok_def lists_ok_def keys_ok_def exclusive_ok_def
        quiesced_ok_def waiting_ok_def blocked_def check_ok_def)
  moreover have "q \<notin> set (quiesced_ranges ?s)" using dist by simp
  ultimately show ?thesis using unlock_internal_inv [of ?s q x] ph q s' by auto
qed

section \<open>Channels come and go\<close>

definition inherited :: "bdev_state \<Rightarrow> nat \<Rightarrow> lba_range" where
  "inherited s c = (let r = cx_range (the (bdev_ctx s c)) in
     \<lparr>lr_offset = lr_offset r, lr_length = lr_length r, lr_quiesce = False, lr_locked_ctx = lr_locked_ctx r,
      lr_owner_thread = 0, lr_owner_ch = None\<rparr>)"

lemma inherit_ranges_eq:
  "\<forall>c\<in>set cs. bdev_ctx s c \<noteq> None \<Longrightarrow> inherit_ranges True s cs = Inr (map (inherited s) cs)"
  by (induction cs) (auto simp: inherited_def Let_def)

lemma inherited_key: "rgs s c = Some x \<Longrightarrow> same_key (inherited s c) x"
  by (auto simp: inherited_def rgs_def same_key_def Let_def)

lemma create_channel_inv:
  assumes inv: "range_inv s" and t: "t \<notin> set (dev_threads s)"
  shows "\<exists>s'. bdev_channel_create True t s = Inr s' \<and> range_inv s'"
proof -
  note I = invD [OF inv]
  define ch where "ch = \<lparr>ch_locked_ranges = map (inherited s) (locked_ranges s), ch_io_submitted = [],
    ch_io_locked = [], ch_queue_depth = 0\<rparr>"
  let ?s = "s\<lparr>bdev_ch := (bdev_ch s)(t \<mapsto> ch), dev_threads := insort t (dev_threads s)\<rparr>"
  have eq: "bdev_channel_create True t s = Inr ?s"
    using inherit_ranges_eq [of "locked_ranges s" s] locked_live [OF inv] by (auto simp: bdev_channel_create_def ch_def)
  have p: "phase ?s = phase s" and rg: "rgs ?s = rgs s" by (auto simp: phase_def rgs_def fun_eq_iff)
  have live: "\<exists>x. rgs s c = Some x" if "c \<in> set (locked_ranges s)" for c
    using locked_live [OF inv that] by (auto simp: rgs_def)
  have "inj_on (lr_locked_ctx \<circ> inherited s) (set (locked_ranges s))"
  proof (rule inj_onI)
    fix c d assume cd: "c \<in> set (locked_ranges s)" "d \<in> set (locked_ranges s)"
      "(lr_locked_ctx \<circ> inherited s) c = (lr_locked_ctx \<circ> inherited s) d"
    obtain x y where "rgs s c = Some x" "rgs s d = Some y" using live cd by blast
    then show "c = d"
      using cd(3) I(4) inherited_key [of s] unique_keysD [of "rgs s" c x d y] by (simp add: keys_ok_def same_key_def)
  qed
  then have "distinct (map lr_locked_ctx (ch_locked_ranges ch))"
    using I(3) by (simp add: ch_def distinct_map lists_ok_def)
  moreover have "range_ok (rgs s) (phase s) t ch r" if r: "r \<in> set (ch_locked_ranges ch)" for r
  proof -
    obtain c where c: "c \<in> set (locked_ranges s)" "r = inherited s c" using r by (auto simp: ch_def)
    then obtain x where x: "rgs s c = Some x" using live by blast
    have "may (phase s c) t" using c in_locked [OF inv, of c] by (cases "phase s c") simp_all
    then show ?thesis
      using x inherited_key [OF x] c(2) unfolding range_ok_def
      by (intro exI [of _ c] exI [of _ x]) (simp add: inherited_def Let_def drained_def ch_def)
  qed
  moreover have "has_range ch x" if "rgs s c = Some x" "reached (phase s c) t" for c x
  proof -
    have "holding (phase s c)" using that(2) by (cases "phase s c") simp_all
    then have "inherited s c \<in> set (ch_locked_ranges ch)" using in_locked [OF inv] by (simp add: ch_def)
    then show ?thesis using inherited_key [OF that(1)] by (auto simp: has_range_def)
  qed
  ultimately have "chan_ok (rgs s) (phase s) t ch" by (simp add: chan_ok_def queue_ok_def ch_def)
  then have "chans_ok ?s" using I(2) by (simp add: chans_ok_def p rg)
  moreover have "threads_ok ?s" using I(1) t by (auto simp: threads_ok_def sorted_insort distinct_insort set_insort_key)
  moreover have "check_ok ?s"
  proof -
    have "bdev_ch s t = None" using I(1) t unfolding threads_ok_def by blast
    then have "\<And>u ch1. bdev_ch s u = Some ch1 \<Longrightarrow> bdev_ch ?s u = Some ch1" by auto
    then show ?thesis using I(8) unfolding check_ok_def p by (simp del: fun_upd_apply) blast
  qed
  moreover have "lists_ok ?s" "keys_ok ?s" "exclusive_ok ?s" "quiesced_ok ?s" "waiting_ok ?s"
    using I by (simp_all add: lists_ok_def keys_ok_def exclusive_ok_def quiesced_ok_def waiting_ok_def blocked_def p rg)
  ultimately show ?thesis using eq by (simp add: range_inv_def)
qed

lemma destroy_inv:
  assumes inv: "range_inv s" and d: "bdev_channel_destroy_resource t s = Inr s'"
    and unused: "\<forall>c x. bdev_ctx s c = Some x \<longrightarrow> cx_ch_ref x \<noteq> Some t \<and> lr_owner_ch (cx_range x) \<noteq> Some t"
  shows "range_inv s'"
proof -
  note I = invD [OF inv]
  have s': "s' = s\<lparr>bdev_ch := (bdev_ch s)(t := None), dev_threads := remove1 t (dev_threads s)\<rparr>"
    using d by (auto simp: bdev_channel_destroy_resource_def split: option.splits)
  have p: "phase s' = phase s" and rg: "rgs s' = rgs s" by (auto simp: s' phase_def rgs_def fun_eq_iff)
  have sel: "locked_ranges s' = locked_ranges s" "pending_locked_ranges s' = pending_locked_ranges s"
      "quiesced_ranges s' = quiesced_ranges s" "bdev_ctx s' = bdev_ctx s" "bdev_task s' = bdev_task s"
      "bdev_ch s' = (bdev_ch s)(t := None)" "dev_threads s' = remove1 t (dev_threads s)"
    by (simp_all add: s')
  have "threads_ok s'" using I(1) by (auto simp: threads_ok_def sel sorted_remove1)
  moreover have "chans_ok s'" using I(2) by (simp add: chans_ok_def p rg sel)
  moreover have "keys_ok s'"
  proof -
    have "lr_owner_ch x \<noteq> Some t" if "rgs s c = Some x" for c x using that unused by (auto simp: rgs_def)
    then show ?thesis using I(4) unfolding keys_ok_def rg sel by (metis fun_upd_other)
  qed
  moreover have "check_ok s'"
    unfolding check_ok_def p sel
  proof (intro allI impI)
    fix c u x assume c: "bdev_ctx s c = Some x" "phase s c = Checking u"
    note k = checkD [OF inv c]
    have "u \<noteq> t" using k(1) unused c(1) by auto
    then show "cx_ch_ref x = Some u \<and> quiesce_copy x \<and> same_key (cx_current_range x) (cx_range x) \<and>
        (\<exists>ch. ((bdev_ch s)(t := None)) u = Some ch \<and> cx_current_range x \<in> set (ch_locked_ranges ch))"
      using k by simp
  qed
  moreover have "lists_ok s'" "exclusive_ok s'" "quiesced_ok s'" "waiting_ok s'"
    using I by (simp_all add: lists_ok_def exclusive_ok_def quiesced_ok_def waiting_ok_def blocked_def p rg sel)
  ultimately show ?thesis by (simp add: range_inv_def)
qed

end
