(* ===== verification/Bdev_Range_Props.thy ===== *)
theory Bdev_Range_Props
  imports Bdev_Range_Steps
begin

text \<open>
  The step relation of the LBA range locks and its properties. A step is a call of the interface
  (lock, unlock, quiesce, unquiesce), the next message or poller of a lock, the creation or the
  destruction of a channel, or the submission or completion of an I/O; the steps interleave in any
  order. The assumptions on the callers are premises of the rules: a lock is requested for a valid,
  non-empty range with a context of its own, it is released once by its owner, and a channel is
  destroyed only when no lock refers to it.
\<close>

section \<open>Steps\<close>

lemma task_live:
  assumes inv: "range_inv s" and tk: "bdev_task s c = Some tk"
  obtains x where "bdev_ctx s c = Some x" "phase s c = task_phase (Some tk)" "task_phase (Some tk) \<noteq> Failed"
proof -
  have "phase s c \<noteq> Dead" "phase s c \<noteq> Pending" "phase s c \<noteq> Failed"
    using invD(3) [OF inv] tk by (auto simp: lists_ok_def)
  then show ?thesis using tk that by (auto simp: phase_def split: if_splits)
qed

lemma run_task_inv:
  assumes inv: "range_inv s" and tk: "bdev_task s c = Some tk"
  shows "\<exists>s'. run_task True c tk s = Inr s' \<and> range_inv s'"
proof -
  obtain x where x: "bdev_ctx s c = Some x" and ph: "phase s c = task_phase (Some tk)" "task_phase (Some tk) \<noteq> Failed"
    by (rule task_live [OF inv tk])
  show ?thesis
  proof (cases "Some tk" rule: task_phase.cases)
    case 2
    then show ?thesis using lock_msg_inv [OF inv _ x] keysD(3) [OF inv x] ph x
      by (cases "lr_owner_ch (cx_range x)") (auto simp: run_task_def bdev_lock_lba_range_ctx_def)
  next
    case (3 t)
    then have "phase s c = Locking t" using ph by simp
    then show ?thesis using lock_skip_inv [OF inv, of c t] get_channel_inv [OF inv, of c t x] x 3
      by (cases "bdev_ch s t") (simp_all add: run_task_def call_channel_def)
  next
    case (4 t)
    then have "phase s c = Unlocking t" using ph by simp
    then show ?thesis using unlock_skip_inv [OF inv, of c t] unlock_channel_inv [OF inv, of c t x] x 4
      by (cases "bdev_ch s t") (simp_all add: run_task_def call_channel_def)
  next
    case (5 t)
    then have p: "phase s c = Checking t" using ph by simp
    then show ?thesis using checkD(3) [OF inv x p] check_io_inv [OF inv p x] 5 x
      by (auto simp: run_task_def)
  next
    case 6
    then show ?thesis using lock_cb_inv [OF inv _ x] ph x by (simp add: run_task_def call_completion_def)
  next
    case 7
    then show ?thesis using unlock_cb_inv [OF inv _ x] ph x by (simp add: run_task_def call_completion_def)
  qed (use ph in auto)
qed

inductive range_step :: "bdev_state \<Rightarrow> bdev_state \<Rightarrow> bool" where
  lock: "\<lbrakk>bdev_ctx s c = None; \<forall>d y. bdev_ctx s d = Some y \<longrightarrow> lr_locked_ctx (cx_range y) \<noteq> cb_arg;
     bdev_io_valid_blocks (dev_blockcnt s) offset len; len \<noteq> 0; bdev_ch s ch \<noteq> None;
     bdev_lock_lba_range True c ch offset len cb_arg s = Inr s'\<rbrakk> \<Longrightarrow> range_step s s'"
| quiesce: "\<lbrakk>bdev_ctx s c = None; \<forall>d y. bdev_ctx s d = Some y \<longrightarrow> lr_locked_ctx (cx_range y) \<noteq> quiesce_ctx; len \<noteq> 0;
     spdk_bdev_quiesce_range True mdl c th offset len quiesce_ctx s = Inr s'\<rbrakk> \<Longrightarrow> range_step s s'"
| unlock: "\<lbrakk>c \<in> set (locked_ranges s); bdev_ctx s c = Some x;
     bdev_unlock_lba_range ch (lr_offset (cx_range x)) (lr_length (cx_range x)) (lr_locked_ctx (cx_range x)) s = Inr s'\<rbrakk>
     \<Longrightarrow> range_step s s'"
| unquiesce: "spdk_bdev_unquiesce_range mdl offset len s = Inr s' \<Longrightarrow> range_step s s'"
| run: "\<lbrakk>bdev_task s c = Some tk; run_task True c tk s = Inr s'\<rbrakk> \<Longrightarrow> range_step s s'"
| create: "\<lbrakk>t \<notin> set (dev_threads s); bdev_channel_create True t s = Inr s'\<rbrakk> \<Longrightarrow> range_step s s'"
| destroy: "\<lbrakk>\<forall>c x. bdev_ctx s c = Some x \<longrightarrow> cx_ch_ref x \<noteq> Some t \<and> lr_owner_ch (cx_range x) \<noteq> Some t;
     bdev_channel_destroy_resource t s = Inr s'\<rbrakk> \<Longrightarrow> range_step s s'"
| submit: "bdev_ch s t = Some ch \<Longrightarrow> range_step s (s\<lparr>bdev_ch := (bdev_ch s)(t \<mapsto> bdev_io_submit t io ch)\<rparr>)"
| complete: "\<lbrakk>bdev_ch s t = Some ch; io \<in> set (ch_io_submitted ch)\<rbrakk>
     \<Longrightarrow> range_step s (s\<lparr>bdev_ch := (bdev_ch s)(t \<mapsto> bdev_ch_remove_from_io_submitted io ch)\<rparr>)"

lemma valid_blocks_range: "\<lbrakk>bdev_io_valid_blocks n offset len; len \<noteq> 0\<rbrakk> \<Longrightarrow> offset < offset + len"
  by (auto simp: bdev_io_valid_blocks_def order_less_le split: if_splits)

lemma range_step_inv: "range_step s s' \<Longrightarrow> range_inv s \<Longrightarrow> range_inv s'"
proof (induction rule: range_step.induct)
  case (lock s c cb_arg offset len ch s')
  then show ?case
    using lock_internal_inv [of s c cb_arg offset len "Some ch" False ch] valid_blocks_range [of _ offset len]
    by (auto simp: bdev_lock_lba_range_def split: if_splits)
next
  case (quiesce s c quiesce_ctx len mdl th offset s')
  then have "bdev_lock_lba_range_internal True c th None offset len True quiesce_ctx s = Inr s'"
      "offset < offset + len"
    using valid_blocks_range [of _ offset len]
    by (auto simp: spdk_bdev_quiesce_range_def bdev_quiesce_def split: if_splits)
  then show ?case using quiesce lock_internal_inv [of s c quiesce_ctx offset len None True th] by auto
next
  case (run s c tk s') then show ?case using run_task_inv by fastforce
next
  case (create t s s') then show ?case using create_channel_inv by fastforce
qed (auto intro: unlock_owner_inv unquiesce_inv destroy_inv submit_inv complete_inv)

interpretation ranges: transition_invariant range_step "\<lambda>s. \<exists>n. s = fresh_bdev n" range_inv
proof
  show "\<exists>n. s = fresh_bdev n \<Longrightarrow> range_inv s" for s
    by (auto simp: fresh_bdev_def range_inv_def threads_ok_def chans_ok_def lists_ok_def keys_ok_def exclusive_ok_def
        quiesced_ok_def waiting_ok_def blocked_def check_ok_def phase_def rgs_def unique_keys_def)
qed (rule range_step_inv)

lemma reachable_range_inv: "range_step\<^sup>*\<^sup>* (fresh_bdev n) s \<Longrightarrow> range_inv s"
  by (rule ranges.reachable_inv) auto

inductive_cases range_stepE: "range_step s s'"

section \<open>What a granted lock excludes\<close>

lemma is_locked_copy:
  assumes "same_key r x" "lr_owner_ch r = None \<or> lr_owner_ch r = lr_owner_ch x" "\<not> bdev_io_range_is_locked t io r"
  shows "\<not> bdev_io_range_is_locked t io (x\<lparr>lr_quiesce := False\<rparr>)"
  using assms unfolding bdev_io_range_is_locked_def bdev_lba_range_overlapped_def same_key_def Let_def
  by (auto split: io_type.splits if_splits)

lemma granted_drained:
  assumes inv: "range_inv s" and ph: "phase s c = Granted" and x: "bdev_ctx s c = Some x" and ch: "bdev_ch s t = Some ch"
    and io: "io \<in> set (ch_io_submitted ch)" "\<not> io_child io"
  shows "\<not> bdev_io_range_is_locked t io ((cx_range x)\<lparr>lr_quiesce := False\<rparr>)"
proof -
  note ok = chan_okI [OF inv ch]
  have cx: "rgs s c = Some (cx_range x)" using x by (simp add: rgs_def)
  have "has_range ch (cx_range x)" using ok cx ph by (simp add: chan_ok_def)
  then obtain r where r: "r \<in> set (ch_locked_ranges ch)" "same_key r (cx_range x)" by (auto simp: has_range_def)
  then have "range_ok (rgs s) (phase s) t ch r" using ok by (simp add: chan_ok_def)
  then obtain d y where d: "rgs s d = Some y" "same_key r y"
      "lr_owner_ch r \<noteq> None \<longrightarrow> lr_owner_ch r = lr_owner_ch y" "phase s d \<noteq> Checking t \<longrightarrow> drained t ch r"
    unfolding range_ok_def by blast
  have "unique_keys (rgs s)" using inv by (simp add: range_inv_def keys_ok_def)
  then have "d = c" using unique_keysD [OF _ d(1) cx] d(2) r(2) by (simp add: same_key_def)
  then have "y = cx_range x" "drained t ch r" using d cx ph by auto
  then show ?thesis using is_locked_copy [OF r(2)] d(3) io by (auto simp: drained_def)
qed

lemma locked_granted:
  assumes "range_inv s" "c \<in> set (locked_ranges s)" "bdev_task s c = None"
  shows "phase s c = Granted"
proof -
  have "holding (phase s c)" using assms in_locked by blast
  then show ?thesis using assms(3) by (auto simp: phase_def split: if_splits)
qed

section \<open>A lock is granted once its I/O has drained\<close>

definition task_run :: "nat \<Rightarrow> bdev_state \<Rightarrow> bdev_state \<Rightarrow> bool" where
  "task_run c s s' \<longleftrightarrow> (\<exists>tk. bdev_task s c = Some tk \<and> run_task True c tk s = Inr s')"

text \<open>No I/O that is in flight conflicts with the range of \<open>c\<close>, which has no owner before it is granted.\<close>

definition idle :: "bdev_state \<Rightarrow> nat \<Rightarrow> bool" where
  "idle s c \<longleftrightarrow> (\<forall>x t ch. bdev_ctx s c = Some x \<longrightarrow> bdev_ch s t = Some ch \<longrightarrow>
     (\<forall>io\<in>set (ch_io_submitted ch). \<not> bdev_io_range_is_locked t io ((cx_range x)\<lparr>lr_owner_ch := None\<rparr>)))"

lemma is_locked_strict:
  "same_key r x \<Longrightarrow> lr_quiesce r \<longrightarrow> lr_quiesce x \<Longrightarrow> \<not> bdev_io_range_is_locked t io (x\<lparr>lr_owner_ch := None\<rparr>) \<Longrightarrow>
     \<not> bdev_io_range_is_locked t io r"
  unfolding bdev_io_range_is_locked_def bdev_lba_range_overlapped_def same_key_def Let_def
  by (auto split: io_type.splits if_splits)

lemma continue_task:
  "bdev_task (spdk_for_each_channel_continue LockGetChannel LockCb t None c s) c =
     Some (case io_dev_get_next_thread (dev_threads s) t of
       Some n \<Rightarrow> CallChannel LockGetChannel LockCb n | None \<Rightarrow> CallCompletion LockCb None)"
  by (simp add: spdk_for_each_channel_continue_def set_task_def split: option.split)

lemma idle_frame:
  assumes "idle s c" "rgs s' = rgs s"
    "\<And>t ch'. bdev_ch s' t = Some ch' \<Longrightarrow> \<exists>ch. bdev_ch s t = Some ch \<and> ch_io_submitted ch' = ch_io_submitted ch"
  shows "idle s' c"
proof -
  have "\<exists>y. bdev_ctx s c = Some y \<and> cx_range y = cx_range x" if "bdev_ctx s' c = Some x" for x
    using fun_cong [OF assms(2), of c] that by (cases "bdev_ctx s c") (auto simp: rgs_def)
  then show ?thesis using assms(1,3) unfolding idle_def by metis
qed

text \<open>One message of the walk, or one poll, passes a channel.\<close>

lemma check_io_idle:
  assumes x: "bdev_ctx s c = Some x0" "cx_range x = cx_range x0" and k: "same_key (cx_current_range x) (cx_range x)"
    and ch: "bdev_ch s t = Some ch" and idle: "idle s c" and q: "quiesce_copy x"
  defines "s' \<equiv> bdev_lock_lba_range_check_io c t x ch s"
  shows "bdev_task s' c = Some (case io_dev_get_next_thread (dev_threads s) t of
       Some n \<Rightarrow> CallChannel LockGetChannel LockCb n | None \<Rightarrow> CallCompletion LockCb None)"
    and "idle s' c" "dev_threads s' = dev_threads s"
proof -
  have "\<not> list_ex (\<lambda>io. bdev_io_range_is_locked t io (cx_current_range x)) (ch_io_submitted ch)"
    using idle x ch is_locked_strict [OF k q [unfolded quiesce_copy_def]] by (auto simp: idle_def list_ex_iff)
  then have s': "s' = spdk_for_each_channel_continue LockGetChannel LockCb t None c
      (s\<lparr>bdev_ctx := (bdev_ctx s)(c \<mapsto> x\<lparr>cx_ch_ref := None\<rparr>)\<rparr>)"
    by (simp add: s'_def bdev_lock_lba_range_check_io_def)
  then show "bdev_task s' c = Some (case io_dev_get_next_thread (dev_threads s) t of
       Some n \<Rightarrow> CallChannel LockGetChannel LockCb n | None \<Rightarrow> CallCompletion LockCb None)"
    "dev_threads s' = dev_threads s" by (simp_all add: continue_task)
  show "idle s' c" by (rule idle_frame [OF idle]) (use x in \<open>simp_all add: s'\<close>)
qed

lemma walk_step:
  assumes inv: "range_inv s" and tk: "bdev_task s c = Some (CallChannel LockGetChannel LockCb t) \<or> bdev_task s c = Some (CheckIo t)"
    and idle: "idle s c"
  shows "\<exists>s'. task_run c s s' \<and> range_inv s' \<and> idle s' c \<and> dev_threads s' = dev_threads s \<and>
    bdev_task s' c = Some (case io_dev_get_next_thread (dev_threads s) t of
       Some n \<Rightarrow> CallChannel LockGetChannel LockCb n | None \<Rightarrow> CallCompletion LockCb None)"
proof -
  obtain tk0 where tk0: "bdev_task s c = Some tk0" using tk by auto
  obtain s' where s': "run_task True c tk0 s = Inr s'" "range_inv s'" using run_task_inv [OF inv tk0] by blast
  then have run: "task_run c s s'" using tk0 by (auto simp: task_run_def)
  obtain x where x: "bdev_ctx s c = Some x" and ph: "phase s c = task_phase (Some tk0)"
    by (rule task_live [OF inv tk0])
  have "idle s' c \<and> dev_threads s' = dev_threads s \<and> bdev_task s' c = Some (case io_dev_get_next_thread (dev_threads s) t of
       Some n \<Rightarrow> CallChannel LockGetChannel LockCb n | None \<Rightarrow> CallCompletion LockCb None)"
  proof (cases "tk0 = CheckIo t")
    case True
    then have p: "phase s c = Checking t" using ph by simp
    obtain ch where ch: "bdev_ch s t = Some ch" using checkD(3) [OF inv x p] by blast
    then have "s' = bdev_lock_lba_range_check_io c t x ch s" using s'(1) True x by (simp add: run_task_def)
    then show ?thesis using check_io_idle [OF x refl checkD(2) [OF inv x p] ch idle checkD(4) [OF inv x p]] by simp
  next
    case False
    then have tk1: "tk0 = CallChannel LockGetChannel LockCb t" using tk tk0 by auto
    let ?cont = "spdk_for_each_channel_continue LockGetChannel LockCb t None c s"
    have cont: "idle ?cont c" by (rule idle_frame [OF idle]) auto
    show ?thesis
    proof (cases "bdev_ch s t")
      case None
      then have "s' = ?cont" using s'(1) tk1 by (simp add: run_task_def call_channel_def)
      then show ?thesis using cont by (simp add: continue_task)
    next
      case (Some ch)
      then have s1: "s' = bdev_lock_lba_range_get_channel True c t x ch s"
        using s'(1) tk1 x by (simp add: run_task_def call_channel_def)
      show ?thesis
      proof (cases "list_ex (\<lambda>r. same_key r (cx_range x)) (ch_locked_ranges ch)")
        case True
        then show ?thesis using s1 cont by (simp add: bdev_lock_lba_range_get_channel_def continue_task)
      next
        case new: False
        then have "\<not> has_range ch (cx_range x)" by (simp add: has_range_def list_ex_iff)
        then obtain r x' where eq: "s' = bdev_lock_lba_range_check_io c t x' (ch\<lparr>ch_locked_ranges := ch_locked_ranges ch @ [r]\<rparr>)
            (s\<lparr>bdev_ch := (bdev_ch s)(t \<mapsto> ch\<lparr>ch_locked_ranges := ch_locked_ranges ch @ [r]\<rparr>), bdev_ctx := (bdev_ctx s)(c \<mapsto> x')\<rparr>)"
          and x': "cx_range x' = cx_range x" "cx_current_range x' = r" "same_key r (cx_range x)" "quiesce_copy x'"
          unfolding s1 by (rule get_channel_new)
        define ch' where "ch' = ch\<lparr>ch_locked_ranges := ch_locked_ranges ch @ [r]\<rparr>"
        define s2 where "s2 = s\<lparr>bdev_ch := (bdev_ch s)(t \<mapsto> ch'), bdev_ctx := (bdev_ctx s)(c \<mapsto> x')\<rparr>"
        have eq: "s' = bdev_lock_lba_range_check_io c t x' ch' s2" by (simp add: eq ch'_def s2_def)
        have "idle s2 c"
          by (rule idle_frame [OF idle]) (use x x' Some in \<open>auto simp: s2_def ch'_def rgs_def fun_eq_iff split: if_splits\<close>)
        moreover have "bdev_ctx s2 c = Some x'" "bdev_ch s2 t = Some ch'" "same_key (cx_current_range x') (cx_range x')"
            "dev_threads s2 = dev_threads s"
          using x' by (simp_all add: s2_def)
        ultimately show ?thesis
          using check_io_idle [of s2 c x' x' t ch'] x'(4) by (simp add: eq)
      qed
    qed
  qed
  then show ?thesis using run s'(2) by blast
qed

text \<open>A walk whose messages pass one channel each comes to its completion.\<close>

lemma walk_ends:
  assumes step: "\<And>s t. P s \<Longrightarrow> bdev_task s c = Some (CallChannel fn cpl t) \<Longrightarrow>
      \<exists>s'. task_run c s s' \<and> P s' \<and> dev_threads s' = dev_threads s \<and>
        bdev_task s' c = Some (case io_dev_get_next_thread (dev_threads s) t of
          Some n \<Rightarrow> CallChannel fn cpl n | None \<Rightarrow> CallCompletion cpl None)"
    and "P s" "bdev_task s c = Some (CallChannel fn cpl t)"
  shows "\<exists>s'. (task_run c)\<^sup>*\<^sup>* s s' \<and> P s' \<and> bdev_task s' c = Some (CallCompletion cpl None)"
  using assms(2,3)
proof (induction "length (filter (\<lambda>u. t < u) (dev_threads s))" arbitrary: s t rule: less_induct)
  case less
  obtain s1 where s1: "task_run c s s1" "P s1" "dev_threads s1 = dev_threads s"
      "bdev_task s1 c = Some (case io_dev_get_next_thread (dev_threads s) t of
         Some n \<Rightarrow> CallChannel fn cpl n | None \<Rightarrow> CallCompletion cpl None)"
    using step [OF less.prems] by blast
  show ?case
  proof (cases "io_dev_get_next_thread (dev_threads s) t")
    case None then show ?thesis using s1 by auto
  next
    case (Some n)
    have n: "n \<in> set (dev_threads s)" "t < n" using Some by (auto simp: io_dev_get_next_thread_def find_Some_iff)
    have "length (filter (\<lambda>u. n < u) (dev_threads s)) < length (filter (\<lambda>u. t < u) (dev_threads s))"
      using length_filter_less [of n "filter (\<lambda>u. t < u) (dev_threads s)" "\<lambda>u. n < u"] n
      by (simp add: conj_commute less_trans [of t n] cong: conj_cong)
    then show ?thesis using less.hyps [of n s1] s1 Some by (auto intro: converse_rtranclp_into_rtranclp)
  qed
qed

lemma walk_completes:
  assumes "range_inv s" "bdev_task s c = Some (CallChannel LockGetChannel LockCb t)" "idle s c"
  shows "\<exists>s'. (task_run c)\<^sup>*\<^sup>* s s' \<and> range_inv s' \<and> bdev_task s' c = Some (CallCompletion LockCb None)"
proof -
  have "\<exists>s'. (task_run c)\<^sup>*\<^sup>* s s' \<and> (range_inv s' \<and> idle s' c) \<and> bdev_task s' c = Some (CallCompletion LockCb None)"
    by (rule walk_ends [of "\<lambda>s. range_inv s \<and> idle s c", OF _ _ assms(2)]) (use assms(1,3) walk_step in blast)+
  then show ?thesis by blast
qed

lemma completion_grants:
  assumes inv: "range_inv s" and tk: "bdev_task s c = Some (CallCompletion LockCb None)"
  shows "\<exists>s'. task_run c s s' \<and> bdev_task s' c = None \<and> c \<in> set (locked_ranges s')"
proof -
  obtain x where x: "bdev_ctx s c = Some x" and ph: "phase s c = LockDone"
    by (rule task_live [OF inv tk]) simp
  obtain s' where s': "bdev_lock_lba_range_cb c x None s = Inr s'" using lock_cb_inv [OF inv ph x] by blast
  then have "bdev_task s' c = None \<and> locked_ranges s' = locked_ranges s"
    by (auto simp: bdev_lock_lba_range_cb_def Let_def bdev_quiesce_range_locked_def elim!: res_bind_InrE
        split: option.splits if_splits)
  moreover have "c \<in> set (locked_ranges s)" using in_locked [OF inv, of c] ph by simp
  moreover have "task_run c s s'" using tk s' x by (simp add: task_run_def run_task_def call_completion_def)
  ultimately show ?thesis by auto
qed

lemma walk_grants:
  assumes "range_inv s" "bdev_task s c = Some (CallChannel LockGetChannel LockCb t) \<or> bdev_task s c = Some (CheckIo t)" "idle s c"
  shows "\<exists>s'. (task_run c)\<^sup>*\<^sup>* s s' \<and> bdev_task s' c = None \<and> c \<in> set (locked_ranges s')"
proof -
  obtain s1 where s1: "task_run c s s1" "range_inv s1" "idle s1 c"
      "bdev_task s1 c = Some (case io_dev_get_next_thread (dev_threads s) t of
         Some n \<Rightarrow> CallChannel LockGetChannel LockCb n | None \<Rightarrow> CallCompletion LockCb None)"
    using walk_step [OF assms] by blast
  obtain s2 where s2: "(task_run c)\<^sup>*\<^sup>* s1 s2" "range_inv s2" "bdev_task s2 c = Some (CallCompletion LockCb None)"
    using walk_completes [OF s1(2) _ s1(3)] s1 by (cases "io_dev_get_next_thread (dev_threads s) t") auto
  then show ?thesis
    using completion_grants [OF s2(2,3)] s1(1)
    by (meson converse_rtranclp_into_rtranclp rtranclp.rtrancl_into_rtrancl)
qed

lemma start_grants:
  assumes inv: "range_inv s" and tk: "bdev_task s c = Some LockMsg" and idle: "idle s c"
  shows "\<exists>s'. (task_run c)\<^sup>*\<^sup>* s s' \<and> bdev_task s' c = None \<and> c \<in> set (locked_ranges s')"
proof -
  obtain s1 where run: "run_task True c LockMsg s = Inr s1" and inv1: "range_inv s1" using run_task_inv [OF inv tk] by blast
  have s1: "s1 = spdk_for_each_channel LockGetChannel LockCb c s"
    using run by (auto simp: run_task_def bdev_lock_lba_range_ctx_def elim!: res_bind_InrE)
  have step: "task_run c s s1" using tk run by (simp add: task_run_def)
  have "idle s1 c" by (rule idle_frame [OF idle]) (simp_all add: s1)
  moreover have "bdev_task s1 c = Some (CallCompletion LockCb None) \<or> (\<exists>t. bdev_task s1 c = Some (CallChannel LockGetChannel LockCb t))"
    by (simp add: s1 spdk_for_each_channel_def set_task_def split: list.split)
  ultimately obtain s' where "(task_run c)\<^sup>*\<^sup>* s1 s'" "bdev_task s' c = None" "c \<in> set (locked_ranges s')"
    using completion_grants [OF inv1] walk_grants [OF inv1] by (metis r_into_rtranclp)
  then show ?thesis using step by (meson converse_rtranclp_into_rtranclp)
qed

lemma unlocking_task:
  "unlocking (phase s d) \<Longrightarrow> (\<exists>t. bdev_task s d = Some (CallChannel UnlockGetChannel UnlockCb t))
     \<or> bdev_task s d = Some (CallCompletion UnlockCb None)"
proof -
  have "unlocking (task_phase tk) \<Longrightarrow> (\<exists>t. tk = Some (CallChannel UnlockGetChannel UnlockCb t))
      \<or> tk = Some (CallCompletion UnlockCb None)" for tk
    by (induction tk rule: task_phase.induct) auto
  then show "unlocking (phase s d) \<Longrightarrow> ?thesis" by (auto simp: phase_def split: if_splits)
qed

lemma unlocking_at: "phase s d = Unlocking n \<Longrightarrow> bdev_task s d = Some (CallChannel UnlockGetChannel UnlockCb n)"
proof -
  have "task_phase tk = Unlocking n \<Longrightarrow> tk = Some (CallChannel UnlockGetChannel UnlockCb n)" for tk
    by (induction tk rule: task_phase.induct) auto
  then show "phase s d = Unlocking n \<Longrightarrow> ?thesis" by (auto simp: phase_def split: if_splits)
qed

lemma may_cases: "may p t \<Longrightarrow> holding p \<or> (\<exists>n\<le>t. p = Unlocking n)"
  by (cases p) auto

lemma is_locked_no_owner:
  "bdev_io_range_is_locked t io (r\<lparr>lr_owner_ch := None\<rparr>) \<Longrightarrow>
    bdev_io_range_is_locked t io r \<or> lr_owner_ch r = Some t \<and> lr_locked_ctx r = io_caller_ctx io"
  by (auto simp: bdev_io_range_is_locked_def Let_def bdev_lba_range_overlapped_def split: io_type.splits if_splits)

section \<open>A lock that cannot be placed\<close>

text \<open>The cleanup walk of a failed lock takes its range off the channels it reached.\<close>

lemma cleanup_step:
  assumes x: "bdev_ctx s c = Some x" and tk: "bdev_task s c = Some (CallChannel UnlockGetChannel ErrorCleanupCb t)"
  shows "\<exists>s'. task_run c s s' \<and> (bdev_ctx s' c = Some x \<and> locked_ranges s' = locked_ranges s) \<and> dev_threads s' = dev_threads s \<and>
    bdev_task s' c = Some (case io_dev_get_next_thread (dev_threads s) t of
      Some n \<Rightarrow> CallChannel UnlockGetChannel ErrorCleanupCb n | None \<Rightarrow> CallCompletion ErrorCleanupCb None)"
proof -
  obtain s' where "run_task True c (CallChannel UnlockGetChannel ErrorCleanupCb t) s = Inr s'"
      "bdev_ctx s' c = Some x" "locked_ranges s' = locked_ranges s" "dev_threads s' = dev_threads s"
      "bdev_task s' c = Some (case io_dev_get_next_thread (dev_threads s) t of
        Some n \<Rightarrow> CallChannel UnlockGetChannel ErrorCleanupCb n | None \<Rightarrow> CallCompletion ErrorCleanupCb None)"
  proof (cases "bdev_ch s t")
    case None
    then show ?thesis using x that [of "spdk_for_each_channel_continue UnlockGetChannel ErrorCleanupCb t None c s"]
      by (simp add: run_task_def call_channel_def spdk_for_each_channel_continue_def set_task_def split: option.split)
  next
    case (Some ch)
    then show ?thesis using x that [of "bdev_unlock_lba_range_get_channel ErrorCleanupCb c t x ch s"]
      by (simp add: run_task_def call_channel_def ctx_of_def bdev_unlock_lba_range_get_channel_def Let_def
          spdk_for_each_channel_continue_def set_task_def split: option.split)
  qed
  then show ?thesis using tk by (auto simp: task_run_def)
qed

lemma failed_lock_cleaned:
  assumes x: "bdev_ctx s c = Some x" and tk: "bdev_task s c = Some (CallCompletion LockCb (Some ENOMEM))"
  shows "\<exists>s'. (task_run c)\<^sup>*\<^sup>* s s' \<and> bdev_ctx s' c = None \<and> bdev_task s' c = None \<and> locked_ranges s' = locked_ranges s"
proof -
  let ?s = "spdk_for_each_channel UnlockGetChannel ErrorCleanupCb c s"
  have start: "task_run c s ?s" using x tk
    by (simp add: task_run_def run_task_def call_completion_def ctx_of_def bdev_lock_lba_range_cb_def)
  let ?P = "\<lambda>u. bdev_ctx u c = Some x \<and> locked_ranges u = locked_ranges s"
  have P: "?P ?s" using x by (simp add: spdk_for_each_channel_def set_task_def split: list.split)
  obtain s1 where s1: "(task_run c)\<^sup>*\<^sup>* ?s s1" "?P s1" "bdev_task s1 c = Some (CallCompletion ErrorCleanupCb None)"
  proof (cases "dev_threads s")
    case Nil
    then show ?thesis using that [of ?s] P by (simp add: spdk_for_each_channel_def set_task_def)
  next
    case (Cons t ts)
    then have "bdev_task ?s c = Some (CallChannel UnlockGetChannel ErrorCleanupCb t)"
      by (simp add: spdk_for_each_channel_def set_task_def)
    moreover have "\<exists>s'. task_run c u s' \<and> ?P s' \<and> dev_threads s' = dev_threads u \<and>
        bdev_task s' c = Some (case io_dev_get_next_thread (dev_threads u) t' of
          Some n \<Rightarrow> CallChannel UnlockGetChannel ErrorCleanupCb n | None \<Rightarrow> CallCompletion ErrorCleanupCb None)"
      if "?P u" "bdev_task u c = Some (CallChannel UnlockGetChannel ErrorCleanupCb t')" for u t'
      using cleanup_step [OF conjunct1 [OF that(1)] that(2)] that(1) by auto
    ultimately show ?thesis using walk_ends [of ?P c UnlockGetChannel ErrorCleanupCb ?s t] P that by blast
  qed
  have "task_run c s1 (bdev_lock_error_cleanup_cb c s1)" using s1(2,3)
    by (simp add: task_run_def run_task_def call_completion_def ctx_of_def)
  then have "(task_run c)\<^sup>*\<^sup>* s (bdev_lock_error_cleanup_cb c s1)"
    using start s1(1) by (meson converse_rtranclp_into_rtranclp rtranclp.rtrancl_into_rtrancl)
  then show ?thesis using s1(2)
    by (intro exI [of _ "bdev_lock_error_cleanup_cb c s1"]) (simp add: bdev_lock_error_cleanup_cb_def free_ctx_def end_task_def)
qed

lemma inherit_freed: "c \<in> set cs \<Longrightarrow> bdev_ctx s c = None \<Longrightarrow> inherit_ranges True s cs = Inl Undefined"
proof (induction cs)
  case (Cons d cs)
  then show ?case by (cases "bdev_ctx s d") (auto simp: ctx_of_def)
qed simp

section \<open>Example runs\<close>

text \<open>A device of 100 blocks with a channel on thread 0, on which a lock of the first 8 blocks is
  requested with context 7, or a quiesce request; the context of the lock is at address 1.\<close>

definition example_range :: "bool \<Rightarrow> lba_range" where
  "example_range q = \<lparr>lr_offset = 0, lr_length = 8, lr_quiesce = q, lr_locked_ctx = 7, lr_owner_thread = 0,
     lr_owner_ch = (if q then None else Some 0)\<rparr>"

definition example_copy :: "bool \<Rightarrow> bool \<Rightarrow> lba_range" where
  "example_copy q granted = \<lparr>lr_offset = 0, lr_length = 8, lr_quiesce = q, lr_locked_ctx = 7, lr_owner_thread = 0,
     lr_owner_ch = (if granted \<and> \<not> q then Some 0 else None)\<rparr>"

definition example_channel :: "lba_range list \<Rightarrow> spdk_bdev_channel" where
  "example_channel rs = \<lparr>ch_locked_ranges = rs, ch_io_submitted = [], ch_io_locked = [], ch_queue_depth = 0\<rparr>"

definition example_open :: bdev_state where
  "example_open = (fresh_bdev 100)\<lparr>bdev_ch := [0 \<mapsto> example_channel []], dev_threads := [0]\<rparr>"

definition example_requested :: "bool \<Rightarrow> bdev_state" where
  "example_requested q = example_open\<lparr>locked_ranges := [1],
     bdev_ctx := [1 \<mapsto> \<lparr>cx_range = example_range q, cx_current_range = example_range q, cx_owner_range = False, cx_ch_ref = None\<rparr>],
     bdev_task := [1 \<mapsto> CallChannel LockGetChannel LockCb 0]\<rparr>"

definition example_ctx :: "bool \<Rightarrow> locked_lba_range_ctx" where
  "example_ctx q = \<lparr>cx_range = example_range q, cx_current_range = example_copy q False, cx_owner_range = \<not> q, cx_ch_ref = None\<rparr>"

definition example_walked :: "bool \<Rightarrow> bdev_state" where
  "example_walked q = (example_requested q)\<lparr>bdev_ctx := [1 \<mapsto> example_ctx q],
     bdev_ch := [0 \<mapsto> example_channel [example_copy q False]], bdev_task := [1 \<mapsto> CallCompletion LockCb None]\<rparr>"

definition example_granted :: "bool \<Rightarrow> bdev_state" where
  "example_granted q = (example_walked q)\<lparr>bdev_task := Map.empty, bdev_ch := [0 \<mapsto> example_channel [example_copy q True]],
     quiesced_ranges := (if q then [1] else [])\<rparr>"

text \<open>A write of the lock's owner.\<close>

definition example_write :: spdk_bdev_io where
  "example_write = \<lparr>io_kind = IO_WRITE, io_offset_blocks = 2, io_num_blocks = 4, io_caller_ctx = 7, io_child = False\<rparr>"

lemmas example_defs = example_open_def example_requested_def example_walked_def example_granted_def
  example_range_def example_copy_def example_channel_def example_ctx_def fresh_bdev_def

lemma example_steps:
  "bdev_channel_create True 0 (fresh_bdev 100) = Inr example_open"
  "bdev_lock_lba_range True 1 0 0 8 7 example_open = Inr (example_requested False)"
  "spdk_bdev_quiesce_range True 0 1 0 0 8 7 example_open = Inr (example_requested True)"
  "run_task True 1 (CallChannel LockGetChannel LockCb 0) (example_requested q) = Inr (example_walked q)"
  "run_task True 1 (CallCompletion LockCb None) (example_walked q) = Inr (example_granted q)"
proof -
  show "bdev_channel_create True 0 (fresh_bdev 100) = Inr example_open"
    by (simp add: bdev_channel_create_def example_defs)
  show "bdev_lock_lba_range True 1 0 0 8 7 example_open = Inr (example_requested False)"
    by (simp add: bdev_lock_lba_range_def bdev_lock_lba_range_internal_def bdev_lock_lba_range_ctx_def
        spdk_for_each_channel_def set_task_def ctx_of_def Let_def example_defs)
  show "spdk_bdev_quiesce_range True 0 1 0 0 8 7 example_open = Inr (example_requested True)"
    by (simp add: spdk_bdev_quiesce_range_def bdev_quiesce_def bdev_io_valid_blocks_def
        bdev_lock_lba_range_internal_def bdev_lock_lba_range_ctx_def
        spdk_for_each_channel_def set_task_def ctx_of_def Let_def example_defs)
  show "run_task True 1 (CallChannel LockGetChannel LockCb 0) (example_requested q) = Inr (example_walked q)"
    by (cases q) (simp_all add: run_task_def call_channel_def ctx_of_def bdev_lock_lba_range_get_channel_def
        bdev_lock_lba_range_check_io_def spdk_for_each_channel_continue_def io_dev_get_next_thread_def
        set_task_def Let_def example_defs)
  show "run_task True 1 (CallCompletion LockCb None) (example_walked q) = Inr (example_granted q)"
    by (cases q) (simp_all add: run_task_def call_completion_def ctx_of_def bdev_lock_lba_range_cb_def end_task_def
        set_owner_ch_def same_key_def bdev_quiesce_range_locked_def Let_def example_defs)
qed

lemma example_reachable:
  "range_step\<^sup>*\<^sup>* (fresh_bdev 100) (example_requested q)" "range_step\<^sup>*\<^sup>* (fresh_bdev 100) (example_granted q)"
proof -
  have "range_step (fresh_bdev 100) example_open"
    by (rule range_step.create [OF _ example_steps(1)]) (simp add: fresh_bdev_def)
  moreover have "range_step example_open (example_requested q)"
  proof (cases q)
    case True
    have "range_step example_open (example_requested True)"
      by (rule range_step.quiesce [OF _ _ _ example_steps(3)]) (simp_all add: example_defs)
    then show ?thesis using True by simp
  next
    case False
    have "range_step example_open (example_requested False)"
      by (rule range_step.lock [OF _ _ _ _ _ example_steps(2)])
         (simp_all add: example_defs bdev_io_valid_blocks_def)
    then show ?thesis using False by simp
  qed
  ultimately show r: "range_step\<^sup>*\<^sup>* (fresh_bdev 100) (example_requested q)" by simp
  moreover have "range_step (example_requested q) (example_walked q)"
    by (rule range_step.run [OF _ example_steps(4)]) (simp add: example_defs)
  moreover have "range_step (example_walked q) (example_granted q)"
    by (rule range_step.run [OF _ example_steps(5)]) (simp add: example_defs)
  ultimately show "range_step\<^sup>*\<^sup>* (fresh_bdev 100) (example_granted q)" by simp
qed

section \<open>Properties\<close>

text \<open>C1 (safety). However locks, quiesce requests, I/O and channels interleave, as long as the copies of
  ranges can be allocated, once a lock is granted no write, unmap, zero-copy or copy that overlaps its
  range and is not the child of a split I/O is in flight on any channel, except those its owner issued
  under the lock; and no other lock in the device's list overlaps it.\<close>

theorem granted_range_exclusive:
  assumes "range_step\<^sup>*\<^sup>* (fresh_bdev n) s"
    and "c \<in> set (locked_ranges s)" "bdev_task s c = None" "bdev_ctx s c = Some x"
  shows "(\<forall>t ch io. bdev_ch s t = Some ch \<longrightarrow> io \<in> set (ch_io_submitted ch) \<longrightarrow> \<not> io_child io \<longrightarrow>
       io_kind io \<in> {IO_WRITE, IO_WRITE_UNCORRECTABLE, IO_UNMAP, IO_WRITE_ZEROES, IO_ZCOPY, IO_COPY} \<longrightarrow>
       bdev_lba_range_overlapped (cx_range x) (io_range io) \<longrightarrow>
       lr_owner_ch (cx_range x) = Some t \<and> io_caller_ctx io = lr_locked_ctx (cx_range x))
    \<and> (\<forall>d y. d \<in> set (locked_ranges s) \<longrightarrow> d \<noteq> c \<longrightarrow> bdev_ctx s d = Some y \<longrightarrow>
         \<not> bdev_lba_range_overlapped (cx_range x) (cx_range y))"
proof (intro conjI allI impI)
  have inv: "range_inv s" by (rule reachable_range_inv [OF assms(1)])
  {
    fix t ch io
    assume io: "bdev_ch s t = Some ch" "io \<in> set (ch_io_submitted ch)" "\<not> io_child io"
      "io_kind io \<in> {IO_WRITE, IO_WRITE_UNCORRECTABLE, IO_UNMAP, IO_WRITE_ZEROES, IO_ZCOPY, IO_COPY}"
      "bdev_lba_range_overlapped (cx_range x) (io_range io)"
    have "\<not> bdev_io_range_is_locked t io ((cx_range x)\<lparr>lr_quiesce := False\<rparr>)"
      by (rule granted_drained [OF inv locked_granted [OF inv assms(2,3)] assms(4) io(1-3)])
    moreover have "bdev_lba_range_overlapped ((cx_range x)\<lparr>lr_quiesce := False\<rparr>) (io_range io)"
      using io(5) overlapped_key [of "(cx_range x)\<lparr>lr_quiesce := False\<rparr>" "cx_range x" "io_range io"] by (simp add: same_key_def)
    ultimately have "lr_owner_ch (cx_range x) = Some t \<and> lr_locked_ctx (cx_range x) = io_caller_ctx io"
      using io(4) by (auto simp: bdev_io_range_is_locked_def split: if_splits)
    then show "lr_owner_ch (cx_range x) = Some t" "io_caller_ctx io = lr_locked_ctx (cx_range x)" by simp_all
  }
  fix d y assume "d \<in> set (locked_ranges s)" "d \<noteq> c" "bdev_ctx s d = Some y"
  then show "\<not> bdev_lba_range_overlapped (cx_range x) (cx_range y)"
    using invD(5) [OF inv] assms(2,4) by (auto simp: exclusive_ok_def rgs_def)
qed

theorem granted_range_exclusive_witness:
  "example_write \<in> set (ch_io_submitted (bdev_io_submit 0 example_write (example_channel [example_copy False True])))
   \<and> lr_owner_ch (cx_range (example_ctx False)) = Some 0
   \<and> io_caller_ctx example_write = lr_locked_ctx (cx_range (example_ctx False))"
proof -
  let ?ch = "bdev_io_submit 0 example_write (example_channel [example_copy False True])"
  let ?s = "(example_granted False)\<lparr>bdev_ch := (bdev_ch (example_granted False))(0 \<mapsto> ?ch)\<rparr>"
  have "range_step (example_granted False) ?s"
    by (rule range_step.submit) (simp add: example_defs)
  then have "range_step\<^sup>*\<^sup>* (fresh_bdev 100) ?s" using example_reachable(2) [of False] by simp
  moreover have "1 \<in> set (locked_ranges ?s)" "bdev_task ?s 1 = None" "bdev_ctx ?s 1 = Some (example_ctx False)"
    by (simp_all add: example_defs)
  moreover have "bdev_ch ?s 0 = Some ?ch" by simp
  moreover have "example_write \<in> set (ch_io_submitted ?ch)"
    by (simp add: bdev_io_submit_def bdev_ch_add_to_io_submitted_def bdev_io_range_is_locked_def
        bdev_lba_range_overlapped_def io_range_def example_write_def example_defs)
  moreover have "bdev_lba_range_overlapped (cx_range (example_ctx False)) (io_range example_write)"
      "\<not> io_child example_write" "io_kind example_write = IO_WRITE"
    by (simp_all add: bdev_lba_range_overlapped_def io_range_def example_write_def example_defs)
  ultimately show ?thesis using granted_range_exclusive [of 100 ?s 1 "example_ctx False"] by blast
qed

text \<open>C11 (safety). No message or poller of the range locks reads a freed context or fails an assertion,
  as long as the copies of the ranges and the iterators of the walks can be allocated and the device
  stays registered.\<close>

theorem range_tasks_never_fail:
  assumes "range_step\<^sup>*\<^sup>* (fresh_bdev n) s" "bdev_task s c = Some tk"
  shows "\<exists>s'. run_task True c tk s = Inr s'"
  using run_task_inv [OF reachable_range_inv [OF assms(1)] assms(2)] by blast

theorem range_tasks_never_fail_witness:
  "\<exists>s'. run_task True 1 (CallChannel LockGetChannel LockCb 0) (example_requested True) = Inr s'"
  by (rule range_tasks_never_fail [OF example_reachable(1)]) (simp add: example_defs)

text \<open>C12 (invariant). While the copies of ranges can be allocated, nothing that waits is forgotten: a
  pending lock overlaps a lock that is in the device's list or whose unlock is under way; and for
  a queued I/O there is a range on its channel that blocks it, or that was granted to its own owner
  after the I/O had been queued, and this range belongs to a lock that is in the device's list or
  whose unlock has yet to reach the channel and submit the I/O again.\<close>

theorem waiting_not_forgotten:
  assumes "range_step\<^sup>*\<^sup>* (fresh_bdev n) s"
  shows "(\<forall>c\<in>set (pending_locked_ranges s). \<exists>x d y. bdev_ctx s c = Some x \<and> bdev_ctx s d = Some y \<and>
       bdev_lba_range_overlapped (cx_range x) (cx_range y) \<and>
       (d \<in> set (locked_ranges s) \<or> (\<exists>t. bdev_task s d = Some (CallChannel UnlockGetChannel UnlockCb t)) \<or>
        bdev_task s d = Some (CallCompletion UnlockCb None)))
    \<and> (\<forall>t ch io. bdev_ch s t = Some ch \<longrightarrow> io \<in> set (ch_io_locked ch) \<longrightarrow> (\<exists>r\<in>set (ch_locked_ranges ch). \<exists>d y.
         (bdev_io_range_is_locked t io r \<or> lr_owner_ch r = Some t \<and> lr_locked_ctx r = io_caller_ctx io) \<and>
         bdev_ctx s d = Some y \<and> same_key r (cx_range y) \<and>
         (d \<in> set (locked_ranges s) \<or> (\<exists>u\<le>t. bdev_task s d = Some (CallChannel UnlockGetChannel UnlockCb u)))))"
proof (intro conjI ballI allI impI)
  have inv: "range_inv s" by (rule reachable_range_inv [OF assms])
  fix c assume "c \<in> set (pending_locked_ranges s)"
  then obtain d x y where d: "rgs s c = Some x" "rgs s d = Some y" "holding (phase s d) \<or> unlocking (phase s d)"
      "bdev_lba_range_overlapped x y"
    using invD(7) [OF inv] unfolding waiting_ok_def blocked_def by blast
  have "d \<in> set (locked_ranges s) \<or> (\<exists>t. bdev_task s d = Some (CallChannel UnlockGetChannel UnlockCb t)) \<or>
      bdev_task s d = Some (CallCompletion UnlockCb None)"
    using d(3) in_locked [OF inv, of d] unlocking_task [of s d] by blast
  then show "\<exists>x d y. bdev_ctx s c = Some x \<and> bdev_ctx s d = Some y \<and>
       bdev_lba_range_overlapped (cx_range x) (cx_range y) \<and>
       (d \<in> set (locked_ranges s) \<or> (\<exists>t. bdev_task s d = Some (CallChannel UnlockGetChannel UnlockCb t)) \<or>
        bdev_task s d = Some (CallCompletion UnlockCb None))"
    using d by (auto simp: rgs_def)
next
  have inv: "range_inv s" by (rule reachable_range_inv [OF assms])
  fix t ch io assume io: "bdev_ch s t = Some ch" "io \<in> set (ch_io_locked ch)"
  then obtain r where r: "r \<in> set (ch_locked_ranges ch)" "bdev_io_range_is_locked t io (r\<lparr>lr_owner_ch := None\<rparr>)"
    using chan_okI [OF inv io(1)] by (auto simp: chan_ok_def queue_ok_def)
  then have "range_ok (rgs s) (phase s) t ch r" using chan_okI [OF inv io(1)] by (simp add: chan_ok_def)
  then obtain d y where d: "rgs s d = Some y" "same_key r y" "may (phase s d) t" unfolding range_ok_def by blast
  have "d \<in> set (locked_ranges s) \<or> (\<exists>u\<le>t. bdev_task s d = Some (CallChannel UnlockGetChannel UnlockCb u))"
    using may_cases [OF d(3)] in_locked [OF inv, of d] unlocking_at [of s d] by blast
  then show "\<exists>r\<in>set (ch_locked_ranges ch). \<exists>d y.
      (bdev_io_range_is_locked t io r \<or> lr_owner_ch r = Some t \<and> lr_locked_ctx r = io_caller_ctx io) \<and>
      bdev_ctx s d = Some y \<and> same_key r (cx_range y) \<and>
      (d \<in> set (locked_ranges s) \<or> (\<exists>u\<le>t. bdev_task s d = Some (CallChannel UnlockGetChannel UnlockCb u)))"
    using r(1) is_locked_no_owner [OF r(2)] d(1,2) by (auto simp: rgs_def)
qed

theorem waiting_not_forgotten_witness:
  "\<exists>s. range_step\<^sup>*\<^sup>* (fresh_bdev 100) s \<and> pending_locked_ranges s = [2] \<and>
     (\<exists>x d y. bdev_ctx s 2 = Some x \<and> bdev_ctx s d = Some y \<and> bdev_lba_range_overlapped (cx_range x) (cx_range y))"
proof -
  let ?x = "\<lparr>cx_range = \<lparr>lr_offset = 4, lr_length = 8, lr_quiesce = False, lr_locked_ctx = 9, lr_owner_thread = 0, lr_owner_ch = Some 0\<rparr>,
    cx_current_range = \<lparr>lr_offset = 4, lr_length = 8, lr_quiesce = False, lr_locked_ctx = 9, lr_owner_thread = 0, lr_owner_ch = Some 0\<rparr>,
    cx_owner_range = False, cx_ch_ref = None\<rparr>"
  define s where "s = (example_granted False)\<lparr>bdev_ctx := [1 \<mapsto> example_ctx False, 2 \<mapsto> ?x], pending_locked_ranges := [2]\<rparr>"
  have l: "bdev_lock_lba_range True 2 0 4 8 9 (example_granted False) = Inr s"
    by (simp add: bdev_lock_lba_range_def bdev_lock_lba_range_internal_def bdev_lba_range_overlapped_def ctx_of_def
        Let_def example_defs s_def)
  have "range_step (example_granted False) s"
    by (rule range_step.lock [OF _ _ _ _ _ l]) (simp_all add: example_defs bdev_io_valid_blocks_def)
  then have r: "range_step\<^sup>*\<^sup>* (fresh_bdev 100) s" using example_reachable(2) [of False] by simp
  have p: "pending_locked_ranges s = [2]" by (simp add: s_def)
  then have "2 \<in> set (pending_locked_ranges s)" by simp
  then have "\<exists>x d y. bdev_ctx s 2 = Some x \<and> bdev_ctx s d = Some y \<and> bdev_lba_range_overlapped (cx_range x) (cx_range y)"
    using waiting_not_forgotten [OF r, THEN conjunct1] by blast
  then show ?thesis using r p by blast
qed

text \<open>C13 (liveness). A lock that has entered the device's list is granted: when no I/O that its range blocks
  is in flight (an I/O of its owner counts, as the range has no owner yet) and the copies of the range
  can be allocated, its own messages and polls run to the point where it holds the range.\<close>

theorem lock_granted_when_drained:
  assumes "range_step\<^sup>*\<^sup>* (fresh_bdev n) s" "c \<in> set (locked_ranges s)" "bdev_ctx s c = Some x"
    and "\<forall>t ch io. bdev_ch s t = Some ch \<longrightarrow> io \<in> set (ch_io_submitted ch) \<longrightarrow>
      \<not> bdev_io_range_is_locked t io ((cx_range x)\<lparr>lr_owner_ch := None\<rparr>)"
  shows "\<exists>s'. (task_run c)\<^sup>*\<^sup>* s s' \<and> bdev_task s' c = None \<and> c \<in> set (locked_ranges s')"
proof (cases "bdev_task s c")
  case None then show ?thesis using assms(2) by blast
next
  case (Some tk)
  have inv: "range_inv s" by (rule reachable_range_inv [OF assms(1)])
  have idle: "idle s c" using assms(3,4) by (auto simp: idle_def)
  have "holding (task_phase (Some tk))"
    using in_locked [OF inv] assms(2) task_live [OF inv Some] by metis
  then show ?thesis
    using start_grants [OF inv _ idle] walk_grants [OF inv _ idle] completion_grants [OF inv] Some
    by (cases "Some tk" rule: task_phase.cases) auto
qed

theorem lock_granted_when_drained_witness:
  "\<exists>s'. (task_run 1)\<^sup>*\<^sup>* (example_requested True) s' \<and> bdev_task s' 1 = None \<and> 1 \<in> set (locked_ranges s')"
  by (rule lock_granted_when_drained [OF example_reachable(1)])
     (auto simp: example_defs split: if_splits)

text \<open>C33 (safety). A channel that is created while a range is quiesced inherits the range without the
  mark that it blocks reads: reads of the quiesced range are submitted on it.\<close>

theorem quiesce_misses_new_channels:
  assumes "c \<in> set (quiesced_ranges s)" "bdev_ctx s c = Some x"
    and "bdev_channel_create calloc_ok t s = Inr s'" "bdev_ch s' t = Some ch"
    and "io_kind io = IO_READ" "bdev_lba_range_overlapped (cx_range x) (io_range io)"
  shows "io \<in> set (ch_io_submitted (bdev_io_submit t io ch))"
proof -
  have "\<not> lr_quiesce r" if "inherit_ranges calloc_ok s cs = Inr rs" "r \<in> set rs" for cs rs r
    using that by (induction cs arbitrary: rs) (auto elim!: res_bind_InrE split: if_splits)
  then have "\<not> lr_quiesce r" if "r \<in> set (ch_locked_ranges ch)" for r
    using assms(3,4) that by (auto simp: bdev_channel_create_def elim!: res_bind_InrE)
  then show ?thesis
    using assms(5) by (auto simp: bdev_io_submit_def bdev_ch_add_to_io_submitted_def list_ex_iff bdev_io_range_is_locked_def)
qed

theorem quiesce_misses_new_channels_witness:
  "\<exists>s' ch. bdev_channel_create True 1 (example_granted True) = Inr s' \<and> bdev_ch s' 1 = Some ch \<and>
     example_write\<lparr>io_kind := IO_READ\<rparr> \<in> set (ch_io_submitted (bdev_io_submit 1 (example_write\<lparr>io_kind := IO_READ\<rparr>) ch))"
proof -
  let ?s = "example_granted True"
  have inv: "range_inv ?s" by (rule reachable_range_inv [OF example_reachable(2)])
  obtain s' where s': "bdev_channel_create True 1 ?s = Inr s'"
    using create_channel_inv [OF inv, of 1] by (auto simp: example_defs)
  then obtain ch where ch: "bdev_ch s' 1 = Some ch" by (auto simp: bdev_channel_create_def elim!: res_bind_InrE)
  have "example_write\<lparr>io_kind := IO_READ\<rparr> \<in> set (ch_io_submitted (bdev_io_submit 1 (example_write\<lparr>io_kind := IO_READ\<rparr>) ch))"
    by (rule quiesce_misses_new_channels [OF _ _ s' ch, of 1 "example_ctx True"])
       (simp_all add: example_defs example_write_def bdev_lba_range_overlapped_def io_range_def)
  then show ?thesis using s' ch by blast
qed

text \<open>C34 (error). When the copy of a range cannot be allocated on a channel, the lock is given up: its
  messages run until its context is freed, but it stays in the device's list. From then on the
  creation of a channel on any thread reads the freed context.\<close>

theorem lock_enomem_leaves_freed_context:
  assumes "c \<in> set (locked_ranges s)" "bdev_ctx s c = Some x"
    and "bdev_task s c = Some (CallChannel LockGetChannel LockCb t)" "bdev_ch s t = Some ch"
    and "\<forall>r\<in>set (ch_locked_ranges ch). \<not> same_key r (cx_range x)"
  shows "\<exists>s1 s2. run_task False c (CallChannel LockGetChannel LockCb t) s = Inr s1 \<and> (task_run c)\<^sup>*\<^sup>* s1 s2 \<and>
    bdev_task s2 c = None \<and> c \<in> set (locked_ranges s2) \<and> bdev_ctx s2 c = None \<and>
    (\<forall>u. bdev_channel_create True u s2 = Inl Undefined)"
proof -
  let ?s = "set_task c (CallCompletion LockCb (Some ENOMEM)) s"
  have "run_task False c (CallChannel LockGetChannel LockCb t) s = Inr ?s"
    using assms(2,4,5)
    by (auto simp: run_task_def call_channel_def ctx_of_def bdev_lock_lba_range_get_channel_def
        spdk_for_each_channel_continue_def list_ex_iff)
  moreover obtain s2 where s2: "(task_run c)\<^sup>*\<^sup>* ?s s2" "bdev_ctx s2 c = None" "bdev_task s2 c = None"
      "locked_ranges s2 = locked_ranges s"
    using failed_lock_cleaned [of ?s c x] assms(2) by (auto simp: set_task_def)
  moreover have "bdev_channel_create True u s2 = Inl Undefined" for u
    using inherit_freed [of c "locked_ranges s2" s2] s2 assms(1) by (simp add: bdev_channel_create_def)
  ultimately show ?thesis using assms(1) by (intro exI [of _ ?s] exI [of _ s2]) simp
qed

theorem lock_enomem_leaves_freed_context_witness:
  "\<exists>s1 s2. run_task False 1 (CallChannel LockGetChannel LockCb 0) (example_requested False) = Inr s1 \<and>
     (task_run 1)\<^sup>*\<^sup>* s1 s2 \<and> bdev_task s2 1 = None \<and> 1 \<in> set (locked_ranges s2) \<and> bdev_ctx s2 1 = None \<and>
     (\<forall>u. bdev_channel_create True u s2 = Inl Undefined)"
  by (rule lock_enomem_leaves_freed_context) (simp add: example_defs)+

end
