(* ===== verification/Spec2Isabelle.thy ===== *)
theory Spec2Isabelle
  imports Blob_Clusters Zone_Block Nvmf_Resv_Props Scsi_PR_Props Pipe_Props Base64 Bdev_Split_Props Bdev_Range_Props
begin

text \<open>
  Verification of components of SPDK, the storage performance development kit (\<^verbatim>\<open>src/spdk\<close>).

  \<^bold>\<open>The program.\<close> SPDK is a set of user-space libraries for storage targets. A block device layer
  (\<^verbatim>\<open>lib/bdev\<close>) gives a uniform view of devices; modules under \<^verbatim>\<open>module/bdev\<close> provide devices or stack
  on others; the blobstore (\<^verbatim>\<open>lib/blob\<close>) allocates clusters of a device to blobs; the NVMe-oF target
  (\<^verbatim>\<open>lib/nvmf\<close>) and the SCSI library (\<^verbatim>\<open>lib/scsi\<close>) export devices to hosts and arbitrate between them
  with persistent reservations; \<^verbatim>\<open>lib/thread\<close> carries messages between threads, each of which has its
  own I/O channel to a device; \<^verbatim>\<open>lib/util\<close> holds the data structures they share. The development
  models the parts in which the state of these libraries is decided: who may access a range or a
  namespace, where the next write goes, which cluster, index or byte is handed out.

  \<^bold>\<open>Conventions.\<close> A C struct is a record, an enum a datatype, a \<open>uintN_t\<close> a word of that width; a function
  that changes an object takes and returns it. A negated errno, a failed assertion and undefined
  behaviour (an access outside an object or to a freed one, a NULL dereference, a \<open>memcpy\<close> of overlapping
  regions) are the error values of \<open>'a res\<close> in \<open>SPDK_Prelude\<close>, so that their absence is a theorem. Code
  that runs under a lock is one step; what a function does after it has released the lock is another
  where other threads can come between. State machines are step relations; the locale
  \<open>transition_invariant\<close> gives the invariant of their reachable states, and each component interprets it.

  \<^bold>\<open>Components.\<close>
  \<^item> \<open>Bit_Array\<close> (\<^verbatim>\<open>lib/util/bit_array.c\<close>): bit arrays on 64-bit words with the sentinel word behind them.
    Searches return the least index, masks round-trip, growing keeps the bits; shrinking leaves stale
    bits, and at the largest sizes the position of the sentinel wraps. The memory that \<open>realloc\<close> hands
    out is a parameter.
  \<^item> \<open>Bit_Pool\<close> (the same file): the index allocator on top; its cached lowest free index and free count are
    exact in every state reached from a pool of at least one index without making it smaller.
  \<^item> \<open>Blob_Clusters\<close> (\<^verbatim>\<open>lib/blob/blobstore.c\<close>, \<^verbatim>\<open>blobstore.h\<close>): claim and release of clusters and metadata
    pages; \<open>bs_allocate_cluster\<close> claims exactly what it returns or gives everything back. It rests on the
    pool's contract, a locale that \<open>Bit_Pool\<close> interprets.
  \<^item> \<open>Bdev_Core\<close>, \<open>Bdev_Range_Lock\<close>, \<open>Bdev_Range_Inv\<close>, \<open>Bdev_Range_Steps\<close>, \<open>Bdev_Range_Props\<close> (\<^verbatim>\<open>lib/bdev/bdev.c\<close>,
    \<^verbatim>\<open>lib/thread/thread.c\<close>): the LBA range locks. The state is the lists of the device, the contexts, the
    channels and the message or poller each lock waits for; a lock walks over the channels, waits for
    conflicting I/O, and is granted. The invariant reads the phase of a lock off its context and says
    what each channel holds in that phase. Granted ranges are exclusive, no handler touches freed memory,
    nothing that waits is forgotten, and a lock is granted once its I/O has drained, all of it as long as
    the copies of the ranges can be allocated; two theorems show where the code falls short (a channel
    created during a quiesce, a failed allocation of a copy).
  \<^item> \<open>Bdev_Split\<close>, \<open>Bdev_Split_Rw\<close>, \<open>Bdev_Split_Dec\<close>, \<open>Bdev_Split_Inv\<close>, \<open>Bdev_Split_Props\<close> (\<^verbatim>\<open>lib/bdev/bdev.c\<close>): the
    splitting of an I/O that exceeds the limits of its device. The model has the decision, the rounds of
    reads and writes (with the array of child elements and the cut to whole blocks), of unmaps, write
    zeroes and copies, the wait for I/O objects and buffers, and the completion of children and parent.
    The rounds share the contract \<open>split_rounds\<close>. Children tile the parent in order, in blocks and in
    bytes, and respect the limits themselves; the parent completes once, with success only if all of it was
    done; no event fails, a parent that is not complete can go on, and it makes progress with every event
    but a fruitless wait. The theorems hold for an I/O of at least one block that is not itself a child
    (children need no further splitting) and whose accel sequence has been put off, as the submission
    path does; for reads and writes of less than 4 GiB with non-empty elements, a boundary that is not 0 and
    fewer than 2^31 segments, and for unmaps with a product of the limits that fits in 32 bits; two
    theorems and a lemma show what happens outside of this (an I/O of no blocks, a product that wraps, a
    boundary of 0).
  \<^item> \<open>Zone_Block\<close> (\<^verbatim>\<open>module/bdev/zone_block/vbdev_zone_block.c\<close>): the zone state machine, the request handlers
    and the registration of an emulated zoned device, with the claim of its base device
    (\<^verbatim>\<open>spdk_bdev_module_claim_bdev\<close>, \<^verbatim>\<open>spdk_bdev_module_release_bdev\<close> in \<^verbatim>\<open>lib/bdev/bdev.c\<close>). A request has two
    steps, the locked section that grants a write and moves the write pointer, and the submission to the
    base device, between which other requests run. The writes granted since the last reset are ordered,
    disjoint and below the write pointer; what reaches the base device was granted, once, inside one
    zone. What the base device returns is a parameter.
  \<^item> \<open>Nvmf_Resv\<close>, \<open>Nvmf_Resv_Inv\<close>, \<open>Nvmf_Resv_Props\<close> (\<^verbatim>\<open>lib/nvmf/subsystem.c\<close>, \<^verbatim>\<open>ctrlr.c\<close>): NVMe persistent
    reservations: the commands, the notices, persistence through power loss and the check on the I/O path,
    which implements the access table of the reservation types. The text form of host identifiers is a
    parameter that is assumed to be read back as it was written.
  \<^item> \<open>Endian\<close> (\<^verbatim>\<open>include/spdk/endian.h\<close>), \<open>Scsi_PR\<close>, \<open>Scsi_PR_Inv\<close>, \<open>Scsi_PR_Props\<close> (\<^verbatim>\<open>lib/scsi/scsi_pr.c\<close>, \<^verbatim>\<open>lun.c\<close>):
    SCSI persistent and SPC-2 reservations on big-endian parameter and response buffers. No task reads a
    freed registrant or writes outside its buffer; the check implements the access table; well-behaved
    tasks fail no assertion as long as the response buffer can be allocated.
  \<^item> \<open>Pipe\<close>, \<open>Pipe_Props\<close> (\<^verbatim>\<open>lib/util/pipe.c\<close>): the ring buffer of bytes and the groups that share the buffers
    of empty pipes. A pipe refines a bounded queue of bytes, stated as the locale \<open>byte_fifo\<close>.
  \<^item> \<open>Base64\<close> (\<^verbatim>\<open>lib/util/base64.c\<close>): both alphabets, as interpretations of \<open>base64_alphabet\<close>; decoding an
    encoded text gives the text back, and decoding any string stays in its buffer.
  \<^item> \<open>Iov\<close> (\<^verbatim>\<open>lib/util/iov.c\<close>): scatter-gather lists over a byte-addressed memory. Copying between lists is
    the copy byte by byte, proved once for the locale \<open>segment_copy\<close> that \<open>memcpy\<close> and \<open>memmove\<close> interpret;
    transfers through a flat buffer round-trip.

  \<^bold>\<open>Loops.\<close> Searches, encoders and the rounds of a split are functions with a termination measure. The copying loop of \<open>Iov\<close> is a
  partial function into an option, and \<open>iovcpy_terminates\<close> proves that it always returns. No definition
  uses fuel. Runs of a state machine have no bound on their length.

  \<^bold>\<open>Assumptions on callers.\<close> They are premises of the step relations: an I/O channel is used on its own
  thread, a range lock is requested for a valid non-empty range with a context of its own and released
  once, a channel is destroyed only when nothing refers to it. I/O split into children is checked before
  it is split; the theorems on range locks speak of the I/O that is not a child. A child completes after
  the call that submitted it has returned, and the pool of I/O objects, which is shared with other I/O, is
  an argument of every submission.

  \<^bold>\<open>Not modelled.\<close> The block device layer outside range locks and splitting (QoS, resets, registration), the
  reactor and pollers of \<^verbatim>\<open>lib/thread\<close>, persistence, snapshots and recovery of the blobstore, logical
  volumes, the flash translation layer, the NVMe driver, the transports and admin commands of the NVMe-oF
  target, iSCSI, vhost, JSON and RPC, the other utilities (checksums, data integrity fields, strings) and
  the other device modules: they are large and independent of the parts above. The environment layer and
  the vendored libraries (dpdk, isa-l, isa-l-crypto, intel-ipsec-mb, libvfio-user, ocf, xnvme) are
  third-party code or calls into it, and the applications, tests and scripts only drive the libraries.
  Within the modelled components, logging, tracing, the JSON form of configuration and statistics are left
  out.
\<close>

end
